(* ===== verification/Prelude.thy ===== *)
theory Prelude
  imports Main "HOL-Library.Word"
begin

text \<open>
  The vocabulary every component shares: the machine integers of the Rust sources as words,
  the standard-library operations the sources call on them (saturating and checked arithmetic,
  little-endian byte images) and on vectors (\<open>pop\<close>, slices), and the lemma collections the
  component proofs draw on.
\<close>

unbundle bit_operations_syntax

section \<open>Machine integers\<close>

type_synonym u8 = "8 word"
type_synonym u32 = "32 word"
type_synonym u64 = "64 word"
type_synonym u128 = "128 word"
type_synonym i32 = "32 word"
type_synonym usize = "64 word"

named_theorems word_nat_simps \<open>operations on words read through unat\<close>
named_theorems result_simps \<open>inversion of fallible operations\<close>

text \<open>\<open>u64::saturating_add\<close>, \<open>saturating_sub\<close> and \<open>checked_add\<close>, at any width.\<close>

definition saturating_add :: "'a::len word \<Rightarrow> 'a word \<Rightarrow> 'a word" where
  "saturating_add a b = (if unat a + unat b < 2 ^ LENGTH('a) then a + b else - 1)"

definition saturating_sub :: "'a::len word \<Rightarrow> 'a word \<Rightarrow> 'a word" where
  "saturating_sub a b = (if b \<le> a then a - b else 0)"

definition saturating_mul :: "'a::len word \<Rightarrow> 'a word \<Rightarrow> 'a word" where
  "saturating_mul a b = (if unat a * unat b < 2 ^ LENGTH('a) then a * b else - 1)"

definition checked_add :: "'a::len word \<Rightarrow> 'a word \<Rightarrow> 'a word option" where
  "checked_add a b = (if unat a + unat b < 2 ^ LENGTH('a) then Some (a + b) else None)"

text \<open>The additions overflow exactly when the wrapped sum is smaller than an operand, which is how they
  are evaluated.\<close>

lemma saturating_add_code [code]:
  "saturating_add a b = (let s = a + b in if a \<le> s then s else - 1)"
  by (simp add: saturating_add_def Let_def no_olen_add_nat)

lemma checked_add_code [code]:
  "checked_add a b = (let s = a + b in if a \<le> s then Some s else None)"
  by (simp add: checked_add_def Let_def no_olen_add_nat)

lemma unat_max_word: "unat (- 1 :: 'a::len word) = 2 ^ LENGTH('a) - 1"
  by (simp add: unsigned_minus_1_eq_mask mask_eq_exp_minus_1)

lemma unat_add_small [word_nat_simps]:
  fixes a b :: "'a::len word"
  shows "unat a + unat b < 2 ^ LENGTH('a) \<Longrightarrow> unat (a + b) = unat a + unat b"
  by (simp add: unat_word_ariths)

lemma unat_mult_small [word_nat_simps]:
  fixes a b :: "'a::len word"
  shows "unat a * unat b < 2 ^ LENGTH('a) \<Longrightarrow> unat (a * b) = unat a * unat b"
  by (simp add: unat_word_ariths)

lemma unat_saturating_add:
  fixes a b :: "'a::len word"
  shows "unat (saturating_add a b) = min (unat a + unat b) (2 ^ LENGTH('a) - 1)"
  by (auto simp: saturating_add_def unat_max_word unat_add_small)

lemma unat_saturating_sub:
  fixes a b :: "'a::len word"
  shows "unat (saturating_sub a b) = unat a - unat b"
  by (auto simp: saturating_sub_def unat_sub word_le_nat_alt)

lemma unat_saturating_mul:
  fixes a b :: "'a::len word"
  shows "unat (saturating_mul a b) = min (unat a * unat b) (2 ^ LENGTH('a) - 1)"
  by (auto simp: saturating_mul_def unat_max_word unat_mult_small)

lemma unat_widen: "unat (ucast (x :: u64) :: u128) = unat x"
proof -
  have "unat x < 2 ^ 128" using unsigned_less [of x, where 'a = nat] by simp
  then show ?thesis by (simp add: unsigned_ucast_eq take_bit_nat_eq_self)
qed

lemma checked_add_Some [result_simps]:
  fixes a b c :: "'a::len word"
  shows "checked_add a b = Some c \<longleftrightarrow> unat a + unat b < 2 ^ LENGTH('a) \<and> c = a + b"
  by (auto simp: checked_add_def)

section \<open>Vectors\<close>

text \<open>\<open>Vec::pop\<close>: the last element and the vector without it, or nothing.\<close>

definition vec_pop :: "'a list \<Rightarrow> ('a \<times> 'a list) option" where
  "vec_pop xs = (if xs = [] then None else Some (last xs, butlast xs))"

lemma vec_pop_snoc [simp]: "vec_pop (xs @ [x]) = Some (x, xs)"
  by (simp add: vec_pop_def)

lemma vec_pop_Nil [simp]: "vec_pop [] = None"
  by (simp add: vec_pop_def)

lemma vec_pop_Some [result_simps]: "vec_pop xs = Some (x, ys) \<longleftrightarrow> xs = ys @ [x]"
  by (cases xs rule: rev_cases) (auto simp: vec_pop_def)

lemma vec_pop_None [result_simps]: "vec_pop xs = None \<longleftrightarrow> xs = []"
  by (simp add: vec_pop_def)

text \<open>A slice \<open>v[a..a + n]\<close> of a vector and its overwriting by \<open>copy_from_slice\<close>; both are
  used only where the source has checked that the range is inside the vector.\<close>

definition slice :: "nat \<Rightarrow> nat \<Rightarrow> 'a list \<Rightarrow> 'a list" where
  "slice a n xs = take n (drop a xs)"

definition copy_from_slice :: "nat \<Rightarrow> 'a list \<Rightarrow> 'a list \<Rightarrow> 'a list" where
  "copy_from_slice a ys xs = take a xs @ ys @ drop (a + length ys) xs"

lemma length_slice [simp]: "a + n \<le> length xs \<Longrightarrow> length (slice a n xs) = n"
  by (simp add: slice_def)

lemma length_copy_from_slice [simp]:
  "a + length ys \<le> length xs \<Longrightarrow> length (copy_from_slice a ys xs) = length xs"
  by (simp add: copy_from_slice_def)

lemma slice_copy_same:
  "a + length ys \<le> length xs \<Longrightarrow> slice a (length ys) (copy_from_slice a ys xs) = ys"
  by (simp add: slice_def copy_from_slice_def)

lemma nth_slice: "i < n \<Longrightarrow> a + n \<le> length xs \<Longrightarrow> slice a n xs ! i = xs ! (a + i)"
  by (simp add: slice_def)

lemma nth_copy_from_slice_outside:
  "a + length ys \<le> length xs \<Longrightarrow> i < a \<or> a + length ys \<le> i \<Longrightarrow> i < length xs \<Longrightarrow>
   copy_from_slice a ys xs ! i = xs ! i"
  by (auto simp: copy_from_slice_def nth_append)

lemma slice_copy_disjoint:
  assumes "a + length ys \<le> length xs" and "b + n \<le> length xs"
    and "b + n \<le> a \<or> a + length ys \<le> b"
  shows "slice b n (copy_from_slice a ys xs) = slice b n xs"
  using assms by (intro nth_equalityI) (auto simp: nth_slice nth_copy_from_slice_outside)

section \<open>Little-endian byte images\<close>

text \<open>\<open>u64::to_le_bytes\<close> and \<open>u64::from_le_bytes\<close>.\<close>

definition to_le_bytes :: "u64 \<Rightarrow> u8 list" where
  "to_le_bytes x = map (\<lambda>i. ucast (drop_bit (8 * i) x)) [0..<8]"

fun from_le_bytes :: "u8 list \<Rightarrow> u64" where
  "from_le_bytes [] = 0"
| "from_le_bytes (b # bs) = ucast b OR push_bit 8 (from_le_bytes bs)"

lemma length_to_le_bytes [simp]: "length (to_le_bytes x) = 8"
  by (simp add: to_le_bytes_def)

lemma bit_from_le_bytes:
  "n < 64 \<Longrightarrow> bit (from_le_bytes bs) n \<longleftrightarrow> n div 8 < length bs \<and> bit (bs ! (n div 8)) (n mod 8)"
proof (induction bs arbitrary: n)
  case Nil
  then show ?case by simp
next
  case (Cons b bs)
  show ?case
  proof (cases "n < 8")
    case True
    then show ?thesis using Cons.prems by (simp add: bit_or_iff bit_ucast_iff bit_push_bit_iff)
  next
    case False
    then obtain m where m: "n = m + 8" by (metis add.commute le_Suc_ex not_less)
    have "\<not> bit b n" using False by (auto dest: bit_imp_le_length)
    moreover have "(m + 8) div 8 = Suc (m div 8)" by simp
    ultimately show ?thesis using Cons.IH [of m] Cons.prems m
      by (simp add: bit_or_iff bit_ucast_iff bit_push_bit_iff)
  qed
qed

lemma from_to_le_bytes [simp]: "from_le_bytes (to_le_bytes x) = x"
proof (rule bit_word_eqI)
  fix n assume "n < LENGTH(64)"
  then have n: "n < 64" by simp
  then have "n div 8 < 8" by simp
  then have "to_le_bytes x ! (n div 8) = ucast (drop_bit (8 * (n div 8)) x)"
    by (simp add: to_le_bytes_def nth_map)
  then show "bit (from_le_bytes (to_le_bytes x)) n = bit x n"
    using n \<open>n div 8 < 8\<close> by (simp add: bit_from_le_bytes bit_ucast_iff bit_drop_bit_eq)
qed

end
