(* ===== verification/Map_Spec.thy ===== *)
theory Map_Spec
  imports Main
begin

text \<open>
  The contract of an ordered map, as the ledger components rely on it: lookups after insertions and
  removals, and an iteration in increasing key order that lists exactly the bindings.  Two maps
  with the same lookups iterate identically, so every digest computed by iteration is a function
  of the bindings alone.
\<close>

locale ordered_map =
  fixes empty :: 'm
    and get :: "'m \<Rightarrow> 'k::linorder \<Rightarrow> 'v option"
    and put :: "'k \<Rightarrow> 'v \<Rightarrow> 'm \<Rightarrow> 'm"
    and del :: "'k \<Rightarrow> 'm \<Rightarrow> 'm"
    and entries :: "'m \<Rightarrow> ('k \<times> 'v) list"
    and ok :: "'m \<Rightarrow> bool"
  assumes get_empty: "get empty k = None"
    and get_put: "get (put k v m) k' = (if k' = k then Some v else get m k')"
    and get_del: "get (del k m) k' = (if k' = k then None else get m k')"
    and ok_empty: "ok empty" and ok_put: "ok m \<Longrightarrow> ok (put k v m)" and ok_del: "ok m \<Longrightarrow> ok (del k m)"
    and sorted_entries: "ok m \<Longrightarrow> sorted_wrt (<) (map fst (entries m))"
    and entries_get: "ok m \<Longrightarrow> (k, v) \<in> set (entries m) \<longleftrightarrow> get m k = Some v"
begin

lemma distinct_keys: "ok m \<Longrightarrow> distinct (map fst (entries m))"
  by (rule strict_sorted_iff [THEN iffD1, THEN conjunct2]) (rule sorted_entries)

lemma entries_cong:
  assumes ok: "ok m" "ok m'" and same: "\<And>k. get m k = get m' k"
  shows "entries m = entries m'"
proof -
  have set: "set (entries m) = set (entries m')"
    using entries_get [OF ok(1)] entries_get [OF ok(2)] same by auto
  have sorted: "sorted (map fst (entries m))" "sorted (map fst (entries m'))"
    using sorted_entries ok strict_sorted_iff by blast+
  have keys: "map fst (entries m) = map fst (entries m')"
    using sorted distinct_keys [OF ok(1)] distinct_keys [OF ok(2)] set
    by (intro sorted_distinct_set_unique) auto
  have rebuild: "entries n = map (\<lambda>k. (k, the (get n k))) (map fst (entries n))" if "ok n" for n
  proof -
    have "map (\<lambda>e. (fst e, the (get n (fst e)))) (entries n) = entries n"
    proof (rule map_idI)
      fix e assume "e \<in> set (entries n)"
      then show "(fst e, the (get n (fst e))) = e" using entries_get [OF that, of "fst e" "snd e"] by simp
    qed
    then show ?thesis by (simp add: comp_def)
  qed
  have "entries m = map (\<lambda>k. (k, the (get m k))) (map fst (entries m))" by (rule rebuild [OF ok(1)])
  also have "\<dots> = map (\<lambda>k. (k, the (get m' k))) (map fst (entries m'))" by (simp only: keys same)
  also have "\<dots> = entries m'" by (rule rebuild [OF ok(2), symmetric])
  finally show ?thesis .
qed

lemma put_commute:
  "ok m \<Longrightarrow> k \<noteq> k' \<Longrightarrow> entries (put k v (put k' v' m)) = entries (put k' v' (put k v m))"
  by (rule entries_cong) (simp_all add: ok_put get_put)

lemma put_del: "ok m \<Longrightarrow> get m k = None \<Longrightarrow> entries (del k (put k v m)) = entries m"
  by (rule entries_cong) (simp_all add: ok_put ok_del get_put get_del)

end

end
