(* ===== verification/Btree.thy ===== *)
theory Btree
  imports Prelude Map_Spec "HOL-Library.List_Lexorder" "HOL-Library.Product_Lexorder"
begin

text \<open>
  The ordered collections of the Rust standard library, \<open>BTreeMap\<close> and \<open>BTreeSet\<close>, as association
  lists and lists in increasing key order.  Byte strings are compared lexicographically, as the
  source compares them.
\<close>

type_synonym ('k, 'v) btree_map = "('k \<times> 'v) list"
type_synonym 'k btree_set = "'k list"
type_synonym bytes = "u8 list"

definition btm_get :: "('k::linorder, 'v) btree_map \<Rightarrow> 'k \<Rightarrow> 'v option" where
  "btm_get m k = map_of m k"

fun btm_insert :: "'k::linorder \<Rightarrow> 'v \<Rightarrow> ('k, 'v) btree_map \<Rightarrow> ('k, 'v) btree_map" where
  "btm_insert k v [] = [(k, v)]"
| "btm_insert k v ((k', v') # m) =
     (if k < k' then (k, v) # (k', v') # m
      else if k = k' then (k, v) # m
      else (k', v') # btm_insert k v m)"

definition btm_remove :: "'k::linorder \<Rightarrow> ('k, 'v) btree_map \<Rightarrow> ('k, 'v) btree_map" where
  "btm_remove k m = filter (\<lambda>e. fst e \<noteq> k) m"

definition btm_contains :: "('k::linorder, 'v) btree_map \<Rightarrow> 'k \<Rightarrow> bool" where
  "btm_contains m k \<longleftrightarrow> btm_get m k \<noteq> None"

text \<open>\<open>range(..=h)\<close>.\<close>

definition btm_range_to :: "'k::linorder \<Rightarrow> ('k, 'v) btree_map \<Rightarrow> ('k, 'v) btree_map" where
  "btm_range_to h m = filter (\<lambda>e. fst e \<le> h) m"

definition btm_ok :: "('k::linorder, 'v) btree_map \<Rightarrow> bool" where
  "btm_ok m \<longleftrightarrow> sorted_wrt (<) (map fst m)"

definition bts_insert :: "'k::linorder \<Rightarrow> 'k btree_set \<Rightarrow> 'k btree_set" where
  "bts_insert k s = insort_insert k s"

definition bts_remove :: "'k::linorder \<Rightarrow> 'k btree_set \<Rightarrow> 'k btree_set" where
  "bts_remove k s = filter (\<lambda>x. x \<noteq> k) s"

definition bts_contains :: "'k::linorder btree_set \<Rightarrow> 'k \<Rightarrow> bool" where
  "bts_contains s k \<longleftrightarrow> k \<in> set s"

section \<open>Laws\<close>

lemma btm_get_Nil [simp]: "btm_get [] k = None"
  by (simp add: btm_get_def)

lemma btm_get_insert [simp]: "btm_get (btm_insert k v m) k' = (if k' = k then Some v else btm_get m k')"
  by (induction k v m rule: btm_insert.induct) (auto simp: btm_get_def)

lemma btm_get_remove [simp]: "btm_get (btm_remove k m) k' = (if k' = k then None else btm_get m k')"
  by (induction m) (auto simp: btm_get_def btm_remove_def)

lemma btm_get_in_set: "btm_get m k = Some v \<Longrightarrow> (k, v) \<in> set m"
  by (simp add: btm_get_def map_of_SomeD)

lemma keys_btm_insert: "set (map fst (btm_insert k v m)) = insert k (set (map fst m))"
  by (induction k v m rule: btm_insert.induct) auto

lemma btm_ok_insert: "btm_ok m \<Longrightarrow> btm_ok (btm_insert k v m)"
proof (induction k v m rule: btm_insert.induct)
  case (2 k v k' v' m)
  then show ?case using keys_btm_insert [of k v m] by (auto simp: btm_ok_def)
qed (simp add: btm_ok_def)

lemma btm_ok_filter: "btm_ok m \<Longrightarrow> btm_ok (filter P m)"
  by (induction m) (auto simp: btm_ok_def)

lemma btm_ok_distinct: "btm_ok m \<Longrightarrow> distinct (map fst m)"
  by (simp add: btm_ok_def strict_sorted_iff)

interpretation btm: ordered_map "[]" btm_get btm_insert btm_remove "\<lambda>m. m" btm_ok
proof
  fix m :: "('a::linorder \<times> 'b) list" and k v
  assume "btm_ok m"
  then show "(k, v) \<in> set m \<longleftrightarrow> btm_get m k = Some v"
    using btm_ok_distinct by (auto simp: btm_get_def dest: map_of_SomeD)
next
  fix m :: "('a::linorder \<times> 'b) list" and k
  assume "btm_ok m"
  then show "btm_ok (btm_remove k m)" by (simp add: btm_remove_def btm_ok_filter)
qed (simp_all add: btm_ok_insert, simp_all add: btm_ok_def)

lemma bts_contains_insert [simp]: "bts_contains (bts_insert k s) k' \<longleftrightarrow> k' = k \<or> bts_contains s k'"
  by (auto simp: bts_contains_def bts_insert_def set_insort_insert)

lemma bts_contains_remove [simp]: "bts_contains (bts_remove k s) k' \<longleftrightarrow> k' \<noteq> k \<and> bts_contains s k'"
  by (auto simp: bts_contains_def bts_remove_def)

lemma bts_contains_Nil [simp]: "\<not> bts_contains [] k"
  by (simp add: bts_contains_def)

lemma bts_insert_ok: "sorted s \<and> distinct s \<Longrightarrow> sorted (bts_insert k s) \<and> distinct (bts_insert k s)"
  by (simp add: bts_insert_def sorted_insort_insert distinct_insort_insert)

end
