(* ===== verification/Hashing.thy ===== *)
theory Hashing
  imports Btree
begin

text \<open>
  What the ledger components share about hashing.  The hash itself, \<open>core::hash::hash_fields_bytes\<close>,
  is not part of the mirrored sources: it is the parameter \<open>H\<close> of every definition that calls it, a
  function from a list of byte fields to a digest.  Fields are built from ASCII tags, digests,
  addresses and little-endian images of integers.
\<close>

type_synonym hash_fn = "bytes list \<Rightarrow> bytes"
type_synonym hash32 = bytes
type_synonym address = bytes
type_synonym domain_id = u32
type_synonym message_id = hash32

text \<open>A byte-string literal \<open>b"..."\<close>.\<close>

definition ascii :: "string \<Rightarrow> bytes" where
  "ascii s = map of_char s"

text \<open>\<open>to_le_bytes\<close> of an \<open>n\<close>-byte integer.\<close>

definition le_bytes :: "nat \<Rightarrow> 'a::len word \<Rightarrow> bytes" where
  "le_bytes n x = map (\<lambda>i. ucast (drop_bit (8 * i) x)) [0..<n]"

definition zero32 :: hash32 where
  "zero32 = replicate 32 0"

lemma length_le_bytes [simp]: "length (le_bytes n x) = n"
  by (simp add: le_bytes_def)

lemma le_bytes_inject:
  fixes x y :: "'a::len word"
  assumes "le_bytes n x = le_bytes n y" and n: "LENGTH('a) \<le> 8 * n"
  shows "x = y"
proof (rule bit_word_eqI)
  fix k
  assume k: "k < LENGTH('a)"
  then have "k div 8 < n" using n by (simp add: less_mult_imp_div_less mult.commute)
  then have "(ucast (drop_bit (8 * (k div 8)) x) :: u8) = ucast (drop_bit (8 * (k div 8)) y)"
    using arg_cong [OF assms(1), of "\<lambda>l. l ! (k div 8)"] by (simp add: le_bytes_def)
  then have "bit (ucast (drop_bit (8 * (k div 8)) x) :: u8) (k mod 8) =
      bit (ucast (drop_bit (8 * (k div 8)) y) :: u8) (k mod 8)" by simp
  then show "bit x k \<longleftrightarrow> bit y k"
    using k by (simp add: bit_ucast_iff bit_drop_bit_eq mult.commute)
qed

lemma le_bytes_inject_iff [simp]:
  "le_bytes 4 (a :: u32) = le_bytes 4 b \<longleftrightarrow> a = b"
  "le_bytes 8 (c :: u64) = le_bytes 8 d \<longleftrightarrow> c = d"
  "le_bytes 16 (e :: u128) = le_bytes 16 f \<longleftrightarrow> e = f"
  using le_bytes_inject [of 4 a b] le_bytes_inject [of 8 c d] le_bytes_inject [of 16 e f] by auto

text \<open>An injective function of field lists, with which statements about collision-free hashes are
  instantiated: every byte is preceded by 1 and every field is closed by 0.\<close>

definition field_image :: hash_fn where
  "field_image fs = concat (map (\<lambda>f. concat (map (\<lambda>b. [1, b]) f) @ [0]) fs)"

lemma field_image_inject: "field_image fs = field_image gs \<Longrightarrow> fs = gs"
proof (induction fs arbitrary: gs)
  case Nil
  then show ?case by (cases gs) (simp_all add: field_image_def)
next
  case (Cons f fs)
  then obtain g gs' where gs: "gs = g # gs'" by (cases gs) (simp_all add: field_image_def)
  let ?e = "\<lambda>f. concat (map (\<lambda>b. [1, b]) f) @ [0 :: u8]"
  have split: "?e f @ xs = ?e g @ ys \<Longrightarrow> f = g \<and> xs = ys" for f g xs ys
  proof (induction f arbitrary: g)
    case Nil
    then show ?case by (cases g) simp_all
  next
    case (Cons a f)
    then show ?case by (cases g) simp_all
  qed
  have "?e f @ field_image fs = ?e g @ field_image gs'"
    using Cons.prems by (simp add: gs field_image_def)
  from split [OF this] show ?case using Cons.IH gs by simp
qed

end
