(* ===== verification/Verifier_Registry.thy ===== *)
theory Verifier_Registry
  imports Hashing Invariant_Spec
begin

text \<open>
  The verifier registry, \<open>budzero/verifier-registry/src\<close>: stakes of accounts in open roles, their
  unbonding and withdrawal, and slashing on verified evidence, which reaches every role of the
  account.  Operations return their result with the updated registry.  SHA-256 is the parameter of
  \<open>state_root\<close>.
\<close>

section \<open>Parameters and evidence\<close>

type_synonym role_id = u32

definition VALIDATOR :: role_id where
  "VALIDATOR = 1"

definition MASTER_VERIFIER :: role_id where
  "MASTER_VERIFIER = 2"

definition RELAYER :: role_id where
  "RELAYER = 3"

definition ATTESTER :: role_id where
  "ATTESTER = 7"

definition LUBOT_OPERATOR :: role_id where
  "LUBOT_OPERATOR = 8"

definition CONTENT_VALIDATOR :: role_id where
  "CONTENT_VALIDATOR = 9"

definition FIXED_POINT_SCALE :: u64 where
  "FIXED_POINT_SCALE = 1000000"

definition slash_penalty :: "u64 \<Rightarrow> u64 \<Rightarrow> u64" where
  "slash_penalty stake ratio =
     (let quotient = ((ucast stake :: u128) * ucast ratio) div ucast FIXED_POINT_SCALE
      in if quotient > ucast (- 1 :: u64) then stake
         else (let narrow = (ucast quotient :: u64) in if narrow > stake then stake else narrow))"

datatype slashing_condition = DoubleSign | LivenessFault | MaliciousBehaviour

record registry_params =
  min_stake :: u64
  unbonding_epochs :: u64
  double_sign_slash_ratio_fixed :: u64
  liveness_slash_ratio_fixed :: u64
  malicious_slash_ratio_fixed :: u64

fun slash_ratio :: "registry_params \<Rightarrow> slashing_condition \<Rightarrow> u64" where
  "slash_ratio p DoubleSign = double_sign_slash_ratio_fixed p"
| "slash_ratio p LivenessFault = liveness_slash_ratio_fixed p"
| "slash_ratio p MaliciousBehaviour = malicious_slash_ratio_fixed p"

definition params_validate :: "registry_params \<Rightarrow> string + unit" where
  "params_validate p =
     (if min_stake p = 0 then Inl ''min_stake must be > 0''
      else if unbonding_epochs p = 0 then Inl ''unbonding_epochs must be > 0''
      else if double_sign_slash_ratio_fixed p > FIXED_POINT_SCALE
        then Inl ''double_sign_slash_ratio_fixed cannot exceed FIXED_POINT_SCALE''
      else if liveness_slash_ratio_fixed p > FIXED_POINT_SCALE
        then Inl ''liveness_slash_ratio_fixed cannot exceed FIXED_POINT_SCALE''
      else if malicious_slash_ratio_fixed p > FIXED_POINT_SCALE
        then Inl ''malicious_slash_ratio_fixed cannot exceed FIXED_POINT_SCALE''
      else Inr ())"

definition default_params :: registry_params where
  "default_params =
     \<lparr>min_stake = 1000, unbonding_epochs = 7, double_sign_slash_ratio_fixed = FIXED_POINT_SCALE div 2,
      liveness_slash_ratio_fixed = FIXED_POINT_SCALE div 100, malicious_slash_ratio_fixed = FIXED_POINT_SCALE\<rparr>"

datatype proof_provenance = ConsensusVerified | Unverified_provenance

datatype slashing_proof =
    Proof_DoubleSign u64 string string bytes bytes
  | Proof_Liveness u64 u64 u64 u64
  | Proof_Other string bytes
  | Proof_InvalidSignatureSpam u64 u64 u64

fun proof_condition :: "slashing_proof \<Rightarrow> slashing_condition" where
  "proof_condition (Proof_DoubleSign _ _ _ _ _) = DoubleSign"
| "proof_condition (Proof_Liveness _ _ _ _) = LivenessFault"
| "proof_condition (Proof_Other _ _) = MaliciousBehaviour"
| "proof_condition (Proof_InvalidSignatureSpam _ _ _) = MaliciousBehaviour"

record slashing_report =
  offender :: address
  report_role :: role_id
  report_proof :: slashing_proof
  provenance :: proof_provenance
  reporter :: "address option"

datatype evidence_error =
    ZeroOffender | NonConflictingHashes | MissingSignature | ImpossibleLivenessWindow | EmptyProofTag
  | InsufficientInvalidVoteCount | Unverified

definition validate_shape :: "slashing_report \<Rightarrow> evidence_error + unit" where
  "validate_shape r =
     (if offender r = zero32 then Inl ZeroOffender
      else case report_proof r of
        Proof_DoubleSign _ h1 h2 s1 s2 \<Rightarrow>
          if h1 = h2 then Inl NonConflictingHashes
          else if s1 = [] \<or> s2 = [] then Inl MissingSignature
          else Inr ()
      | Proof_Liveness _ _ missed expected \<Rightarrow>
          if missed > expected then Inl ImpossibleLivenessWindow else Inr ()
      | Proof_Other tag _ \<Rightarrow> if tag = [] then Inl EmptyProofTag else Inr ()
      | Proof_InvalidSignatureSpam _ count threshold \<Rightarrow>
          if threshold = 0 \<or> count < threshold then Inl InsufficientInvalidVoteCount else Inr ())"

definition is_actionable :: "slashing_report \<Rightarrow> evidence_error + unit" where
  "is_actionable r =
     (case validate_shape r of
        Inl e \<Rightarrow> Inl e
      | Inr _ \<Rightarrow> (case provenance r of ConsensusVerified \<Rightarrow> Inr () | Unverified_provenance \<Rightarrow> Inl Unverified))"

section \<open>State\<close>

datatype member_status = Member_Active | Unbonding u64 | Slashed

record registration =
  reg_account :: address
  reg_role :: role_id
  reg_stake :: u64
  reg_status :: member_status
  registered_epoch :: u64

definition registration_active :: "registration \<Rightarrow> bool" where
  "registration_active r \<longleftrightarrow> reg_status r = Member_Active \<and> reg_stake r > 0"

datatype registry_error =
    InsufficientStake u64 u64
  | AlreadyRegistered address role_id
  | NotRegistered address role_id
  | NotActive address role_id
  | StillUnbonding u64 u64
  | RelayerNotActive address
  | AlreadySlashed address role_id

record slash_outcome =
  out_condition :: slashing_condition
  out_penalty :: u64
  out_remaining :: u64

record slashing_record =
  rec_report :: slashing_report
  rec_penalty :: u64
  rec_remaining :: u64

record verifier_registry =
  registrations :: "(role_id \<times> address, registration) btree_map"
  reg_params :: registry_params
  slashing_history :: "slashing_record list"

definition with_params :: "registry_params \<Rightarrow> verifier_registry" where
  "with_params p = \<lparr>registrations = [], reg_params = p, slashing_history = []\<rparr>"

definition set_params :: "registry_params \<Rightarrow> verifier_registry \<Rightarrow> verifier_registry" where
  "set_params p s = s\<lparr>reg_params := p\<rparr>"

section \<open>Operations\<close>

definition put_reg :: "role_id \<times> address \<Rightarrow> registration \<Rightarrow> verifier_registry \<Rightarrow> verifier_registry" where
  "put_reg k r s = s\<lparr>registrations := btm_insert k r (registrations s)\<rparr>"

definition drop_reg :: "role_id \<times> address \<Rightarrow> verifier_registry \<Rightarrow> verifier_registry" where
  "drop_reg k s = s\<lparr>registrations := btm_remove k (registrations s)\<rparr>"

definition new_registration :: "address \<Rightarrow> role_id \<Rightarrow> u64 \<Rightarrow> u64 \<Rightarrow> registration" where
  "new_registration account role stake epoch =
     \<lparr>reg_account = account, reg_role = role, reg_stake = stake, reg_status = Member_Active, registered_epoch = epoch\<rparr>"

definition register ::
    "address \<Rightarrow> role_id \<Rightarrow> u64 \<Rightarrow> u64 \<Rightarrow> verifier_registry \<Rightarrow> (registry_error + unit) \<times> verifier_registry" where
  "register account role stake epoch s =
     (if stake < min_stake (reg_params s) then (Inl (InsufficientStake (min_stake (reg_params s)) stake), s)
      else if btm_contains (registrations s) (role, account) then (Inl (AlreadyRegistered account role), s)
      else (Inr (), put_reg (role, account) (new_registration account role stake epoch) s))"

definition register_validator :: "address \<Rightarrow> u64 \<Rightarrow> u64 \<Rightarrow> verifier_registry \<Rightarrow> (registry_error + unit) \<times> verifier_registry" where
  "register_validator account = register account VALIDATOR"

definition register_master_verifier :: "address \<Rightarrow> u64 \<Rightarrow> u64 \<Rightarrow> verifier_registry \<Rightarrow> (registry_error + unit) \<times> verifier_registry" where
  "register_master_verifier account = register account MASTER_VERIFIER"

definition register_relayer :: "address \<Rightarrow> u64 \<Rightarrow> u64 \<Rightarrow> verifier_registry \<Rightarrow> (registry_error + unit) \<times> verifier_registry" where
  "register_relayer account = register account RELAYER"

definition register_attester :: "address \<Rightarrow> u64 \<Rightarrow> u64 \<Rightarrow> verifier_registry \<Rightarrow> (registry_error + unit) \<times> verifier_registry" where
  "register_attester account = register account ATTESTER"

definition register_lubot_operator :: "address \<Rightarrow> u64 \<Rightarrow> u64 \<Rightarrow> verifier_registry \<Rightarrow> (registry_error + unit) \<times> verifier_registry" where
  "register_lubot_operator account = register account LUBOT_OPERATOR"

definition register_content_validator :: "address \<Rightarrow> u64 \<Rightarrow> u64 \<Rightarrow> verifier_registry \<Rightarrow> (registry_error + unit) \<times> verifier_registry" where
  "register_content_validator account = register account CONTENT_VALIDATOR"

definition upsert_stake :: "address \<Rightarrow> role_id \<Rightarrow> u64 \<Rightarrow> u64 \<Rightarrow> verifier_registry \<Rightarrow> verifier_registry" where
  "upsert_stake account role amount epoch s =
     (case btm_get (registrations s) (role, account) of
        Some r \<Rightarrow>
          if reg_status r = Slashed then put_reg (role, account) (r\<lparr>reg_stake := amount\<rparr>) s
          else if amount = 0 then drop_reg (role, account) s
          else put_reg (role, account) (r\<lparr>reg_stake := amount\<rparr>) s
      | None \<Rightarrow>
          if amount \<ge> min_stake (reg_params s)
          then put_reg (role, account) (new_registration account role amount epoch) s
          else s)"

definition add_stake ::
    "address \<Rightarrow> role_id \<Rightarrow> u64 \<Rightarrow> verifier_registry \<Rightarrow> (registry_error + u64) \<times> verifier_registry" where
  "add_stake account role amount s =
     (case btm_get (registrations s) (role, account) of
        None \<Rightarrow> (Inl (NotRegistered account role), s)
      | Some r \<Rightarrow>
          (let stake = saturating_add (reg_stake r) amount
           in (Inr stake, put_reg (role, account) (r\<lparr>reg_stake := stake\<rparr>) s)))"

definition begin_unbonding ::
    "address \<Rightarrow> role_id \<Rightarrow> u64 \<Rightarrow> verifier_registry \<Rightarrow> (registry_error + u64) \<times> verifier_registry" where
  "begin_unbonding account role epoch s =
     (case btm_get (registrations s) (role, account) of
        None \<Rightarrow> (Inl (NotRegistered account role), s)
      | Some r \<Rightarrow>
          if reg_status r \<noteq> Member_Active then (Inl (NotActive account role), s)
          else (let release = saturating_add epoch (unbonding_epochs (reg_params s))
                in (Inr release, put_reg (role, account) (r\<lparr>reg_status := Unbonding release\<rparr>) s)))"

definition withdraw ::
    "address \<Rightarrow> role_id \<Rightarrow> u64 \<Rightarrow> verifier_registry \<Rightarrow> (registry_error + u64) \<times> verifier_registry" where
  "withdraw account role epoch s =
     (case btm_get (registrations s) (role, account) of
        None \<Rightarrow> (Inl (NotRegistered account role), s)
      | Some r \<Rightarrow>
          (case reg_status r of
             Unbonding release \<Rightarrow>
               if epoch < release then (Inl (StillUnbonding release epoch), s)
               else (Inr (reg_stake r), drop_reg (role, account) s)
           | _ \<Rightarrow> (Inl (NotActive account role), s)))"

text \<open>A registration slashed with a ratio.\<close>

definition slashed_with :: "u64 \<Rightarrow> registration \<Rightarrow> registration" where
  "slashed_with ratio r =
     r\<lparr>reg_stake := saturating_sub (reg_stake r) (slash_penalty (reg_stake r) ratio), reg_status := Slashed\<rparr>"

definition slash_other :: "address \<Rightarrow> u64 \<Rightarrow> role_id \<Rightarrow> verifier_registry \<Rightarrow> verifier_registry" where
  "slash_other account ratio role s =
     (case btm_get (registrations s) (role, account) of
        None \<Rightarrow> s
      | Some r \<Rightarrow> if reg_status r = Slashed then s else put_reg (role, account) (slashed_with ratio r) s)"

definition slash_cross_role :: "address \<Rightarrow> role_id \<Rightarrow> u64 \<Rightarrow> verifier_registry \<Rightarrow> verifier_registry" where
  "slash_cross_role account primary ratio s =
     (let others = map fst (filter (\<lambda>(role, addr). addr = account \<and> role \<noteq> primary) (map fst (registrations s)))
      in fold (slash_other account ratio) others s)"

definition slash ::
    "address \<Rightarrow> role_id \<Rightarrow> slashing_condition \<Rightarrow> u64 \<Rightarrow> verifier_registry \<Rightarrow>
     (registry_error + slash_outcome) \<times> verifier_registry" where
  "slash account role condition ratio s =
     (case btm_get (registrations s) (role, account) of
        None \<Rightarrow> (Inl (NotRegistered account role), s)
      | Some r \<Rightarrow>
          if reg_status r = Slashed then (Inl (AlreadySlashed account role), s)
          else (Inr \<lparr>out_condition = condition, out_penalty = slash_penalty (reg_stake r) ratio,
                     out_remaining = reg_stake (slashed_with ratio r)\<rparr>,
                slash_cross_role account role ratio (put_reg (role, account) (slashed_with ratio r) s)))"

definition slash_from_report ::
    "slashing_report \<Rightarrow> verifier_registry \<Rightarrow> (evidence_error + slash_outcome option) \<times> verifier_registry" where
  "slash_from_report report s =
     (case is_actionable report of
        Inl e \<Rightarrow> (Inl e, s)
      | Inr _ \<Rightarrow>
          (let condition = proof_condition (report_proof report);
               ratio = slash_ratio (reg_params s) condition
           in case slash (offender report) (report_role report) condition ratio s of
                (Inr out, s') \<Rightarrow>
                  (Inr (Some out),
                   s'\<lparr>slashing_history := slashing_history s' @
                       [\<lparr>rec_report = report, rec_penalty = out_penalty out, rec_remaining = out_remaining out\<rparr>]\<rparr>)
              | (Inl _, s') \<Rightarrow> (Inr None, s')))"

section \<open>Queries\<close>

definition is_active :: "verifier_registry \<Rightarrow> address \<Rightarrow> role_id \<Rightarrow> bool" where
  "is_active s account role =
     (case btm_get (registrations s) (role, account) of Some r \<Rightarrow> registration_active r | None \<Rightarrow> False)"

definition is_active_master_verifier :: "verifier_registry \<Rightarrow> address \<Rightarrow> bool" where
  "is_active_master_verifier s account = is_active s account MASTER_VERIFIER"

definition is_active_relayer :: "verifier_registry \<Rightarrow> address \<Rightarrow> bool" where
  "is_active_relayer s account = is_active s account RELAYER"

definition is_active_attester :: "verifier_registry \<Rightarrow> address \<Rightarrow> bool" where
  "is_active_attester s account = is_active s account ATTESTER"

definition is_active_lubot_operator :: "verifier_registry \<Rightarrow> address \<Rightarrow> bool" where
  "is_active_lubot_operator s account = is_active s account LUBOT_OPERATOR"

definition is_active_content_validator :: "verifier_registry \<Rightarrow> address \<Rightarrow> bool" where
  "is_active_content_validator s account = is_active s account CONTENT_VALIDATOR"

definition active_members :: "verifier_registry \<Rightarrow> role_id \<Rightarrow> registration list" where
  "active_members s role = filter (\<lambda>r. reg_role r = role \<and> registration_active r) (map snd (registrations s))"

definition total_stake :: "verifier_registry \<Rightarrow> role_id \<Rightarrow> u64" where
  "total_stake s role = fold (\<lambda>stake acc. saturating_add acc stake) (map reg_stake (active_members s role)) 0"

definition slashing_history_for :: "verifier_registry \<Rightarrow> address \<Rightarrow> slashing_record list" where
  "slashing_history_for s account = filter (\<lambda>r. offender (rec_report r) = account) (slashing_history s)"

fun status_image :: "member_status \<Rightarrow> bytes" where
  "status_image Member_Active = ascii ''active''"
| "status_image (Unbonding release) = ascii ''unbonding'' @ le_bytes 8 release"
| "status_image Slashed = ascii ''slashed''"

definition entry_image :: "(role_id \<times> address) \<times> registration \<Rightarrow> bytes" where
  "entry_image e =
     le_bytes 4 (fst (fst e)) @ snd (fst e) @ le_bytes 8 (reg_stake (snd e)) @
     le_bytes 8 (registered_epoch (snd e)) @ status_image (reg_status (snd e))"

definition state_root :: "(bytes \<Rightarrow> hash32) \<Rightarrow> verifier_registry \<Rightarrow> hash32" where
  "state_root sha256 s =
     (if registrations s = [] then zero32
      else sha256 (ascii ''BDLM_VERIFIER_REGISTRY_V1'' @ concat (map entry_image (registrations s))))"

section \<open>Penalties\<close>

lemma unat_slash_penalty:
  "unat (slash_penalty stake ratio) = min (unat stake) (unat stake * unat ratio div 1000000)"
proof -
  let ?q = "((ucast stake :: u128) * ucast ratio) div ucast FIXED_POINT_SCALE"
  have "unat stake * unat ratio < 2 ^ 64 * 2 ^ 64"
    using unsigned_less [of stake] unsigned_less [of ratio] by (intro mult_strict_mono) simp_all
  hence prod: "unat ((ucast stake :: u128) * ucast ratio) = unat stake * unat ratio"
    by (simp add: unat_widen unat_mult_small)
  have q: "unat ?q = unat stake * unat ratio div 1000000"
    by (simp add: unat_div_distrib prod FIXED_POINT_SCALE_def)
  have big: "unat (ucast (- 1 :: u64) :: u128) = 2 ^ 64 - 1" by (simp add: unat_widen unat_max_word)
  show ?thesis
  proof (cases "?q > ucast (- 1 :: u64)")
    case True
    hence "unat stake \<le> unat stake * unat ratio div 1000000"
      using q big unsigned_less [of stake, where 'a = nat] by (simp add: word_less_nat_alt)
    thus ?thesis using True by (simp add: slash_penalty_def Let_def)
  next
    case False
    hence "unat ?q < 2 ^ 64" using big by (simp add: word_less_nat_alt)
    hence "unat (ucast ?q :: u64) = unat ?q" by (simp add: unsigned_ucast_eq take_bit_nat_eq_self)
    thus ?thesis using False q by (auto simp: slash_penalty_def Let_def word_less_nat_alt)
  qed
qed

lemma unat_slashed_stake:
  "unat (reg_stake (slashed_with ratio r)) = unat (reg_stake r) - unat (slash_penalty (reg_stake r) ratio)"
  by (simp add: slashed_with_def unat_saturating_sub)

section \<open>Slashing\<close>

abbreviation get_reg :: "verifier_registry \<Rightarrow> role_id \<times> address \<Rightarrow> registration option" where
  "get_reg s k \<equiv> btm_get (registrations s) k"

definition registry_ok :: "verifier_registry \<Rightarrow> bool" where
  "registry_ok s \<longleftrightarrow> btm_ok (registrations s) \<and>
     (\<forall>k r. get_reg s k = Some r \<longrightarrow> reg_role r = fst k \<and> reg_account r = snd k)"

lemma put_reg_simps [simp]:
  "get_reg (put_reg k r s) k' = (if k' = k then Some r else get_reg s k')"
  "reg_params (put_reg k r s) = reg_params s" "slashing_history (put_reg k r s) = slashing_history s"
  by (simp_all add: put_reg_def)

lemma drop_reg_simps [simp]:
  "get_reg (drop_reg k s) k' = (if k' = k then None else get_reg s k')"
  "reg_params (drop_reg k s) = reg_params s" "slashing_history (drop_reg k s) = slashing_history s"
  by (simp_all add: drop_reg_def)

lemma registry_ok_put: "registry_ok s \<Longrightarrow> reg_role r = fst k \<Longrightarrow> reg_account r = snd k \<Longrightarrow> registry_ok (put_reg k r s)"
  by (auto simp: registry_ok_def) (simp add: put_reg_def btm_ok_insert)

lemma registry_ok_drop: "registry_ok s \<Longrightarrow> registry_ok (drop_reg k s)"
  by (auto simp: registry_ok_def split: if_splits) (simp add: drop_reg_def btm.ok_del)

lemma slashed_with_simps [simp]:
  "reg_role (slashed_with ratio r) = reg_role r" "reg_account (slashed_with ratio r) = reg_account r"
  "reg_status (slashed_with ratio r) = Slashed" "registered_epoch (slashed_with ratio r) = registered_epoch r"
  by (simp_all add: slashed_with_def)

text \<open>What slashing does to one registration; a slashed one is left alone.\<close>

definition jailed :: "u64 \<Rightarrow> registration \<Rightarrow> registration" where
  "jailed ratio r = (if reg_status r = Slashed then r else slashed_with ratio r)"

lemma jailed_simps [simp]: "reg_status (jailed ratio r) = Slashed" "jailed ratio (jailed ratio' r) = jailed ratio' r"
  "reg_role (jailed ratio r) = reg_role r" "reg_account (jailed ratio r) = reg_account r"
  by (simp_all add: jailed_def)

lemma slash_other_get:
  "get_reg (slash_other account ratio role s) k =
   (if k = (role, account) then map_option (jailed ratio) (get_reg s k) else get_reg s k)"
  by (auto simp: slash_other_def jailed_def split: option.splits)

lemma fold_slash_other:
  assumes "distinct roles"
  shows "get_reg (fold (slash_other account ratio) roles s) k =
    (if snd k = account \<and> fst k \<in> set roles then map_option (jailed ratio) (get_reg s k) else get_reg s k)"
  using assms
proof (induction roles arbitrary: s)
  case (Cons role roles)
  thus ?case by (cases k) (auto simp: slash_other_get)
qed simp

lemma slash_cross_role_get:
  assumes "registry_ok s"
  shows "get_reg (slash_cross_role account primary ratio s) k =
    (if snd k = account \<and> fst k \<noteq> primary then map_option (jailed ratio) (get_reg s k) else get_reg s k)"
proof -
  let ?ks = "filter (\<lambda>(role, addr). addr = account \<and> role \<noteq> primary) (map fst (registrations s))"
  have "distinct (map fst (registrations s))" using assms btm_ok_distinct by (auto simp: registry_ok_def)
  hence "distinct ?ks" by simp
  moreover have "inj_on fst (set ?ks)" by (auto simp: inj_on_def)
  ultimately have d: "distinct (map fst ?ks)" by (simp add: distinct_map)
  have "get_reg s k \<noteq> None \<Longrightarrow> k \<in> fst ` set (registrations s)" by (force dest: btm_get_in_set)
  thus ?thesis unfolding slash_cross_role_def Let_def fold_slash_other [OF d]
    by (cases k; cases "get_reg s k") force+
qed

lemma slash_get:
  assumes ok: "registry_ok s" and sl: "slash account role condition ratio s = (Inr out, s')"
  shows "get_reg s' k = (if snd k = account then map_option (jailed ratio) (get_reg s k) else get_reg s k)"
proof -
  obtain r where r: "get_reg s (role, account) = Some r" "reg_status r \<noteq> Slashed"
      "s' = slash_cross_role account role ratio (put_reg (role, account) (slashed_with ratio r) s)"
    using sl by (auto simp: slash_def split: option.splits if_splits)
  have "registry_ok (put_reg (role, account) (slashed_with ratio r) s)"
    using ok r(1) by (intro registry_ok_put) (auto simp: registry_ok_def)
  thus ?thesis unfolding r(3) using r by (cases k) (auto simp: slash_cross_role_get jailed_def)
qed

lemma slash_cases:
  assumes "slash account role condition ratio s = (res, s')"
  obtains e where "res = Inl e" "s' = s"
  | r out where "res = Inr out" "get_reg s (role, account) = Some r" "reg_status r \<noteq> Slashed"
      "out_penalty out = slash_penalty (reg_stake r) ratio" "out_remaining out = reg_stake (slashed_with ratio r)"
  using assms by (auto simp: slash_def split: option.splits if_splits)

section \<open>Runs\<close>

inductive registry_step :: "verifier_registry \<Rightarrow> verifier_registry \<Rightarrow> bool" where
  step_register: "registry_step s (snd (register account role stake epoch s))"
| step_upsert: "registry_step s (upsert_stake account role stake epoch s)"
| step_add: "registry_step s (snd (add_stake account role stake s))"
| step_unbond: "registry_step s (snd (begin_unbonding account role epoch s))"
| step_withdraw: "registry_step s (snd (withdraw account role epoch s))"
| step_slash: "registry_step s (snd (slash account role condition ratio s))"
| step_report: "registry_step s (snd (slash_from_report report s))"
| step_params: "registry_step s (set_params p s)"

definition slashed_at :: "role_id \<times> address \<Rightarrow> verifier_registry \<Rightarrow> bool" where
  "slashed_at k s \<longleftrightarrow> (\<exists>r. get_reg s k = Some r \<and> reg_status r = Slashed)"

lemma registry_ok_slash: "registry_ok s \<Longrightarrow> registry_ok (snd (slash account role condition ratio s))"
proof -
  have other: "registry_ok t \<Longrightarrow> registry_ok (slash_other account ratio x t)" for x t
    by (auto simp: slash_other_def registry_ok_def [of t] intro!: registry_ok_put split: option.splits)
  have "registry_ok t \<Longrightarrow> registry_ok (fold (slash_other account ratio) xs t)" for xs t
    by (induction xs arbitrary: t) (simp_all add: other)
  moreover assume "registry_ok s"
  moreover have "registry_ok (put_reg (role, account) (slashed_with ratio r) s)" if "get_reg s (role, account) = Some r" for r
    using that calculation(2) by (intro registry_ok_put) (auto simp: registry_ok_def)
  ultimately show ?thesis
    by (auto simp: slash_def slash_cross_role_def Let_def split: option.splits)
qed

lemma registry_ok_same_map: "registrations t = registrations s \<Longrightarrow> registry_ok t = registry_ok s"
  by (simp add: registry_ok_def)

lemma registrations_report:
  "registrations (snd (slash_from_report report s)) =
   (if isl (is_actionable report) then registrations s
    else registrations (snd (slash (offender report) (report_role report) (proof_condition (report_proof report))
      (slash_ratio (reg_params s) (proof_condition (report_proof report))) s)))"
  by (auto simp: slash_from_report_def Let_def split: sum.splits prod.splits)

lemma registry_ok_step:
  assumes ok: "registry_ok s" and st: "registry_step s t"
  shows "registry_ok t"
  using st
proof cases
  case (step_report report)
  have "registry_ok (snd (slash account role condition ratio s))" for account role condition ratio
    using ok by (rule registry_ok_slash)
  thus ?thesis using step_report ok by (simp add: registry_ok_def registrations_report)
qed (use ok in \<open>auto simp: register_def upsert_stake_def add_stake_def begin_unbonding_def withdraw_def
    new_registration_def set_params_def Let_def registry_ok_slash
    intro!: registry_ok_put registry_ok_drop split: option.splits member_status.splits,
    auto simp: registry_ok_def\<close>)

lemma slashed_at_slash:
  assumes "registry_ok s" "slashed_at k s"
  shows "slashed_at k (snd (slash account role condition ratio s))"
proof (cases "slash account role condition ratio s")
  case (Pair res s')
  show ?thesis
  proof (cases res)
    case (Inl e)
    thus ?thesis using Pair assms(2) by (auto elim: slash_cases)
  next
    case (Inr out)
    thus ?thesis using Pair assms slash_get [OF assms(1)] by (auto simp: slashed_at_def)
  qed
qed

lemma slashed_at_step:
  assumes "registry_ok s \<and> slashed_at k s" and st: "registry_step s t"
  shows "registry_ok t \<and> slashed_at k t"
proof
  show "registry_ok t" using registry_ok_step assms by blast
  show "slashed_at k t"
    using st
  proof cases
    case (step_report report)
    have "slashed_at k (snd (slash account role condition ratio s))" for account role condition ratio
      using slashed_at_slash assms by blast
    thus ?thesis using step_report assms by (simp add: slashed_at_def registrations_report)
  next
    case (step_slash account role condition ratio)
    thus ?thesis using slashed_at_slash assms by blast
  qed (use assms in \<open>auto simp: slashed_at_def register_def upsert_stake_def add_stake_def begin_unbonding_def
      withdraw_def set_params_def btm_contains_def Let_def split: option.splits member_status.splits\<close>)
qed

interpretation registry_inv: inductive_invariant registry_step registry_ok
  by unfold_locales (rule registry_ok_step)

interpretation jail: inductive_invariant registry_step "\<lambda>s. registry_ok s \<and> slashed_at k s" for k
  by unfold_locales (rule slashed_at_step)

lemma registry_ok_new: "registry_ok (with_params p)"
  by (simp add: registry_ok_def with_params_def btm_ok_def)

lemma slashed_at_refused:
  assumes "slashed_at (role, account) s"
  shows "\<not> is_active s account role" "withdraw account role epoch s = (Inl (NotActive account role), s)"
    "slash account role condition ratio s = (Inl (AlreadySlashed account role), s)"
    "begin_unbonding account role epoch s = (Inl (NotActive account role), s)"
  using assms by (auto simp: slashed_at_def is_active_def registration_active_def withdraw_def slash_def begin_unbonding_def)

section \<open>The state root\<close>

lemma status_image_prefix: "status_image a @ u = status_image b @ v \<Longrightarrow> a = b \<and> u = v"
  by (cases a; cases b) (auto simp: ascii_def append_eq_append_conv)

definition entry_ok :: "(role_id \<times> address) \<times> registration \<Rightarrow> bool" where
  "entry_ok e \<longleftrightarrow> length (snd (fst e)) = 32 \<and> fst e = (reg_role (snd e), reg_account (snd e))"

lemma entry_image_prefix:
  assumes "entry_ok e" "entry_ok e'" "entry_image e @ u = entry_image e' @ v"
  shows "e = e' \<and> u = v"
proof -
  have len: "length (snd (fst e)) = length (snd (fst e'))" using assms(1,2) unfolding entry_ok_def by argo
  have "le_bytes 4 (fst (fst e)) = le_bytes 4 (fst (fst e')) \<and> snd (fst e) = snd (fst e') \<and>
      le_bytes 8 (reg_stake (snd e)) = le_bytes 8 (reg_stake (snd e')) \<and>
      le_bytes 8 (registered_epoch (snd e)) = le_bytes 8 (registered_epoch (snd e')) \<and>
      status_image (reg_status (snd e)) @ u = status_image (reg_status (snd e')) @ v"
    using assms(3) len by (simp add: entry_image_def append_eq_append_conv)
  hence "fst e = fst e'" "reg_stake (snd e) = reg_stake (snd e')" "registered_epoch (snd e) = registered_epoch (snd e')"
      "reg_status (snd e) = reg_status (snd e')" "u = v"
    using status_image_prefix by (auto simp: prod_eq_iff)
  moreover have "snd e = snd e'" using assms(1,2) calculation by (auto simp: entry_ok_def intro: registration.equality)
  ultimately show ?thesis by (simp add: prod_eq_iff)
qed

lemma entries_image_inject:
  assumes "list_all entry_ok xs" "list_all entry_ok ys" "concat (map entry_image xs) = concat (map entry_image ys)"
  shows "xs = ys"
  using assms
proof (induction xs arbitrary: ys)
  case Nil
  have "entry_image e \<noteq> []" for e by (simp add: entry_image_def le_bytes_def)
  thus ?case using Nil by (cases ys) auto
next
  case (Cons x xs)
  have "entry_image e \<noteq> []" for e by (simp add: entry_image_def le_bytes_def)
  then obtain y zs where ys: "ys = y # zs" using Cons.prems(3) by (cases ys) auto
  have "x = y \<and> concat (map entry_image xs) = concat (map entry_image zs)"
    using Cons.prems unfolding ys by (intro entry_image_prefix) simp_all
  thus ?case using Cons.IH [of zs] Cons.prems ys by simp
qed

lemma registry_entries_ok:
  assumes "registry_ok s" "\<forall>k r. get_reg s k = Some r \<longrightarrow> length (snd k) = 32"
  shows "list_all entry_ok (registrations s)"
proof -
  have ok: "btm_ok (registrations s)" using assms(1) by (simp add: registry_ok_def)
  show ?thesis unfolding list_all_iff
  proof
    fix e assume "e \<in> set (registrations s)"
    hence "get_reg s (fst e) = Some (snd e)" using btm.entries_get [OF ok, of "fst e" "snd e"] by simp
    moreover from this have "length (snd (fst e)) = 32" "reg_role (snd e) = fst (fst e)" "reg_account (snd e) = snd (fst e)"
      using assms unfolding registry_ok_def by blast+
    ultimately show "entry_ok e" by (simp add: entry_ok_def)
  qed
qed

section \<open>A concrete registry\<close>

text \<open>An account with two roles, and one with a single role.\<close>

definition demo_registry :: verifier_registry where
  "demo_registry = snd (register (replicate 32 2) RELAYER 5000 1
     (snd (register (replicate 32 1) ATTESTER 2001 1 (snd (register (replicate 32 1) RELAYER 5000 1 (with_params default_params))))))"

lemma reach_register: "registry_step\<^sup>*\<^sup>* s t \<Longrightarrow> registry_step\<^sup>*\<^sup>* s (snd (register account role stake epoch t))"
  by (erule rtranclp.rtrancl_into_rtrancl) (rule step_register)

lemma demo_reachable: "registry_step\<^sup>*\<^sup>* (with_params default_params) demo_registry"
  unfolding demo_registry_def by (intro reach_register rtranclp.rtrancl_refl)

lemma demo_regs: "registrations demo_registry =
    [((3, replicate 32 1), new_registration (replicate 32 1) 3 5000 1),
     ((3, replicate 32 2), new_registration (replicate 32 2) 3 5000 1),
     ((7, replicate 32 1), new_registration (replicate 32 1) 7 2001 1)]"
  by code_simp

lemma demo_params: "reg_params demo_registry = default_params"
  by code_simp

section \<open>Properties\<close>

text \<open>C30: Slashing reaches the whole account.  A successful slash of one role marks every role the account
  holds as slashed, each losing the ratio's share of its own stake rounded down and at most all of it,
  leaves the registrations of every other account as they were, and reports the penalty and the remaining stake
  of the slashed role.  Roles that were slashed before are not charged again.\<close>

theorem slash_reaches_every_role:
  assumes "registry_step\<^sup>*\<^sup>* (with_params p) s" "slash account role condition ratio s = (Inr out, s')"
    "get_reg s (role', account') = Some r"
  shows "\<exists>r'. get_reg s' (role', account') = Some r' \<and>
      (if account' \<noteq> account \<or> reg_status r = Slashed then r' = r
       else reg_status r' = Slashed \<and>
         unat (reg_stake r') = unat (reg_stake r) - min (unat (reg_stake r)) (unat (reg_stake r) * unat ratio div 1000000)) \<and>
      (account' = account \<and> role' = role \<longrightarrow>
         out_remaining out = reg_stake r' \<and> unat (out_penalty out) + unat (reg_stake r') = unat (reg_stake r))"
proof -
  have ok: "registry_ok s" by (rule registry_inv.inv_reachable [OF assms(1) registry_ok_new])
  obtain r0 where r0: "get_reg s (role, account) = Some r0" "reg_status r0 \<noteq> Slashed"
      "out_penalty out = slash_penalty (reg_stake r0) ratio" "out_remaining out = reg_stake (slashed_with ratio r0)"
    using assms(2) by (auto elim: slash_cases)
  let ?r' = "if account' = account then jailed ratio r else r"
  have "get_reg s' (role', account') = Some ?r'" using slash_get [OF ok assms(2), of "(role', account')"] assms(3) by auto
  moreover have "unat (slash_penalty (reg_stake r) ratio) \<le> unat (reg_stake r)" by (simp add: unat_slash_penalty)
  ultimately show ?thesis using r0 assms(3)
    by (intro exI [of _ ?r']) (auto simp: jailed_def unat_slashed_stake unat_slash_penalty)
qed

theorem slash_reaches_every_role_witness:
  "\<exists>out s' r'. slash (replicate 32 1) RELAYER DoubleSign 500000 demo_registry = (Inr out, s') \<and>
     get_reg s' (ATTESTER, replicate 32 1) = Some r' \<and> reg_status r' = Slashed \<and> unat (reg_stake r') = 1001"
proof -
  obtain out s' where sl: "slash (replicate 32 1) RELAYER DoubleSign 500000 demo_registry = (Inr out, s')"
    by (auto simp: slash_def demo_regs btm_get_def RELAYER_def new_registration_def)
  have "get_reg demo_registry (ATTESTER, replicate 32 1) = Some (new_registration (replicate 32 1) 7 2001 1)"
    by (simp add: demo_regs btm_get_def ATTESTER_def)
  from slash_reaches_every_role [OF demo_reachable sl this] show ?thesis
    using sl by (auto simp: new_registration_def)
qed

text \<open>C31: Slashing is final.  After a slash, whatever operations follow, in every role the account held at
  that moment it is never active again, cannot start unbonding, cannot withdraw and cannot be slashed again.
  It can still join a role it did not hold.\<close>

theorem slashed_is_final:
  assumes "registry_step\<^sup>*\<^sup>* (with_params p) s" "slash account role condition ratio s = (Inr out, s1)"
    "get_reg s (role', account) \<noteq> None" "registry_step\<^sup>*\<^sup>* s1 s2"
  shows "\<not> is_active s2 account role' \<and>
    (\<forall>epoch. withdraw account role' epoch s2 = (Inl (NotActive account role'), s2) \<and>
       begin_unbonding account role' epoch s2 = (Inl (NotActive account role'), s2)) \<and>
    (\<forall>condition ratio. slash account role' condition ratio s2 = (Inl (AlreadySlashed account role'), s2)) \<and>
    (\<forall>new stake epoch. get_reg s2 (new, account) = None \<longrightarrow> min_stake (reg_params s2) \<le> stake \<longrightarrow> 0 < stake \<longrightarrow>
       is_active (snd (register account new stake epoch s2)) account new)"
proof -
  have ok: "registry_ok s" by (rule registry_inv.inv_reachable [OF assms(1) registry_ok_new])
  have "registry_step s s1" using step_slash [of s account role condition ratio] assms(2) by simp
  hence "registry_ok s1" using registry_ok_step ok by blast
  moreover have "slashed_at (role', account) s1" using slash_get [OF ok assms(2)] assms(3) by (auto simp: slashed_at_def)
  ultimately have sl: "slashed_at (role', account) s2" using jail.inv_reachable [OF assms(4)] by blast
  have "is_active (snd (register account new stake epoch s2)) account new"
    if "get_reg s2 (new, account) = None" "min_stake (reg_params s2) \<le> stake" "0 < stake" for new stake epoch
    using that by (simp add: is_active_def register_def btm_contains_def new_registration_def registration_active_def not_less)
  thus ?thesis using slashed_at_refused [OF sl] by blast
qed

theorem slashed_is_final_witness:
  "\<exists>out s'. slash (replicate 32 1) RELAYER DoubleSign 500000 demo_registry = (Inr out, s') \<and>
     \<not> is_active (upsert_stake (replicate 32 1) ATTESTER 9000 2 s') (replicate 32 1) ATTESTER"
proof -
  obtain out s' where sl: "slash (replicate 32 1) RELAYER DoubleSign 500000 demo_registry = (Inr out, s')"
    by (auto simp: slash_def demo_regs btm_get_def RELAYER_def new_registration_def)
  have "get_reg demo_registry (ATTESTER, replicate 32 1) \<noteq> None" by (simp add: demo_regs btm_get_def ATTESTER_def)
  moreover have "registry_step\<^sup>*\<^sup>* s' (upsert_stake (replicate 32 1) ATTESTER 9000 2 s')"
    by (rule r_into_rtranclp) (rule step_upsert)
  ultimately have "\<not> is_active (upsert_stake (replicate 32 1) ATTESTER 9000 2 s') (replicate 32 1) ATTESTER"
    using slashed_is_final [OF demo_reachable sl] by blast
  thus ?thesis
    using sl by blast
qed

text \<open>C32: Unbonding holds the stake for the configured time.  Starting to unbond fixes the release epoch,
  saturating at the largest epoch; before it every withdrawal is refused and changes nothing, from it on a
  withdrawal pays the whole stake and removes the registration.  Setting the stake to zero removes the
  registration at once, without waiting.\<close>

theorem unbonding_holds_stake:
  assumes "begin_unbonding account role epoch s = (Inr release, s1)"
  shows "unat release = min (unat epoch + unat (unbonding_epochs (reg_params s))) (2 ^ 64 - 1) \<and>
    (\<forall>now. withdraw account role now s1 =
       (if now < release then (Inl (StillUnbonding release now), s1)
        else (Inr (reg_stake (the (get_reg s (role, account)))), drop_reg (role, account) s1))) \<and>
    get_reg (upsert_stake account role 0 epoch s1) (role, account) = None"
proof -
  obtain r where "get_reg s (role, account) = Some r" "release = saturating_add epoch (unbonding_epochs (reg_params s))"
      "s1 = put_reg (role, account) (r\<lparr>reg_status := Unbonding release\<rparr>) s"
    using assms by (auto simp: begin_unbonding_def Let_def split: option.splits if_splits)
  thus ?thesis by (auto simp: withdraw_def upsert_stake_def unat_saturating_add)
qed

theorem unbonding_holds_stake_witness:
  "\<exists>s1. begin_unbonding (replicate 32 1) RELAYER 10 demo_registry = (Inr 17, s1) \<and>
     fst (withdraw (replicate 32 1) RELAYER 16 s1) = Inl (StillUnbonding 17 16) \<and>
     fst (withdraw (replicate 32 1) RELAYER 17 s1) = Inr 5000"
proof -
  obtain s1 where b: "begin_unbonding (replicate 32 1) RELAYER 10 demo_registry = (Inr 17, s1)"
    by (auto simp: begin_unbonding_def demo_regs demo_params btm_get_def RELAYER_def new_registration_def
        default_params_def saturating_add_def Let_def)
  from unbonding_holds_stake [OF b] show ?thesis
    using b by (simp add: demo_regs btm_get_def RELAYER_def new_registration_def)
qed

text \<open>The bytes a non-empty registry is hashed from.\<close>

definition root_preimage :: "verifier_registry \<Rightarrow> bytes" where
  "root_preimage s = ascii ''BDLM_VERIFIER_REGISTRY_V1'' @ concat (map entry_image (registrations s))"

text \<open>C33: The registry's root commits to exactly its content.  For two reachable registries of 32-byte
  addresses, empty ones included, if the hash does not collide on their two preimages and gives neither
  of them the all-zero digest that stands for the empty registry, the roots are equal exactly when the
  registrations are.  The parameters and the slashing history are not part of the root.\<close>

theorem state_root_binds:
  assumes "registry_step\<^sup>*\<^sup>* (with_params p) s" "registry_step\<^sup>*\<^sup>* (with_params q) t"
    and "\<forall>k r. get_reg s k = Some r \<longrightarrow> length (snd k) = 32" "\<forall>k r. get_reg t k = Some r \<longrightarrow> length (snd k) = 32"
    and "inj_on sha256 {root_preimage s, root_preimage t}" "zero32 \<notin> sha256 ` {root_preimage s, root_preimage t}"
  shows "(state_root sha256 s = state_root sha256 t \<longleftrightarrow> registrations s = registrations t) \<and>
    state_root sha256 (s\<lparr>reg_params := p', slashing_history := h\<rparr>) = state_root sha256 s"
proof -
  have "registry_ok s" "registry_ok t"
    using registry_inv.inv_reachable [OF assms(1) registry_ok_new] registry_inv.inv_reachable [OF assms(2) registry_ok_new] by auto
  hence ok: "list_all entry_ok (registrations s)" "list_all entry_ok (registrations t)"
    using registry_entries_ok assms(3,4) by blast+
  have root: "state_root sha256 r = (if registrations r = [] then zero32 else sha256 (root_preimage r))" for r
    by (simp add: state_root_def root_preimage_def)
  have "registrations s = registrations t" if "sha256 (root_preimage s) = sha256 (root_preimage t)"
  proof -
    have "root_preimage s = root_preimage t" using that by (rule inj_onD [OF assms(5)]) simp_all
    thus ?thesis using entries_image_inject [OF ok] by (simp add: root_preimage_def)
  qed
  hence "state_root sha256 s = state_root sha256 t \<longleftrightarrow> registrations s = registrations t"
    using assms(6) unfolding root by (auto simp: root_preimage_def)
  thus ?thesis by (simp add: state_root_def)
qed

text \<open>A digest of 32 bytes that tells the example registry, the same after a slash, and the empty one apart.\<close>

definition checksum32 :: "bytes \<Rightarrow> hash32" where
  "checksum32 bs = replicate 31 1 @ [sum_list bs]"

definition slashed_demo :: verifier_registry where
  "slashed_demo = snd (slash (replicate 32 1) RELAYER DoubleSign 500000 demo_registry)"

lemma slashed_demo_reachable: "registry_step\<^sup>*\<^sup>* (with_params default_params) slashed_demo"
  unfolding slashed_demo_def using demo_reachable step_slash by (rule rtranclp.rtrancl_into_rtrancl)

lemma demo_checksums:
  "checksum32 (root_preimage demo_registry) \<noteq> checksum32 (root_preimage slashed_demo)"
  "checksum32 (root_preimage demo_registry) \<noteq> checksum32 (root_preimage (with_params default_params))"
  by code_simp+

lemma slashed_demo_addresses:
  "map fst (registrations slashed_demo) = [(3, replicate 32 1), (3, replicate 32 2), (7, replicate 32 1)]"
  by code_simp

theorem state_root_binds_witness:
  "registrations demo_registry \<noteq> registrations slashed_demo \<and>
   state_root checksum32 demo_registry \<noteq> state_root checksum32 slashed_demo \<and>
   state_root checksum32 demo_registry \<noteq> state_root checksum32 (with_params default_params) \<and>
   state_root checksum32 (demo_registry\<lparr>reg_params := default_params\<lparr>min_stake := 1\<rparr>, slashing_history := []\<rparr>)
     = state_root checksum32 demo_registry"
proof -
  have adr: "\<forall>k r. get_reg demo_registry k = Some r \<longrightarrow> length (snd k) = 32"
    by (auto simp: demo_regs btm_get_def split: if_splits)
  have adr': "\<forall>k r. get_reg slashed_demo k = Some r \<longrightarrow> length (snd k) = 32"
  proof (intro allI impI)
    fix k r
    assume "get_reg slashed_demo k = Some r"
    hence "k \<in> set (map fst (registrations slashed_demo))" using btm_get_in_set by force
    thus "length (snd k) = 32" unfolding slashed_demo_addresses by auto
  qed
  have new: "registrations (with_params default_params) = []" by (simp add: with_params_def)
  have z: "zero32 \<notin> checksum32 ` A" for A by (auto simp: zero32_def checksum32_def dest: arg_cong [where f = hd])
  have ne: "registrations demo_registry \<noteq> registrations slashed_demo"
    using demo_checksums(1) by (auto simp: root_preimage_def)
  have inj: "inj_on checksum32 {root_preimage demo_registry, root_preimage slashed_demo}"
      "inj_on checksum32 {root_preimage demo_registry, root_preimage (with_params default_params)}"
    using demo_checksums by (auto simp: inj_on_def)
  have adr'': "\<forall>k r. get_reg (with_params default_params) k = Some r \<longrightarrow> length (snd k) = 32"
    by (simp add: new btm_get_def)
  show ?thesis
    using ne new demo_regs
      state_root_binds [OF demo_reachable slashed_demo_reachable adr adr' inj(1) z]
      state_root_binds [OF demo_reachable rtranclp.rtrancl_refl adr adr'' inj(2) z] by auto
qed

end
