(* ===== verification/Rlp.thy ===== *)
theory Rlp
  imports Hashing
begin

text \<open>
  Recursive length prefix encoding, \<open>src/cross_domain/evm/rlp.rs\<close>: items, their encoding, the decoder with
  its nesting limit, and integers.  Lengths are natural numbers where the source takes them from a
  slice and machine words where it computes them; the slices of the decoder are always inside the
  input, so no branch of the source panics.
\<close>

section \<open>Items and errors\<close>

datatype item = RString bytes | RList "item list"

datatype rlp_error = UnexpectedEof | InvalidLengthPrefix | NonCanonical | TrailingBytes | NestingTooDeep

definition MAX_DEPTH :: nat where
  "MAX_DEPTH = 32"

section \<open>Encoding\<close>

definition to_be_bytes :: "u64 \<Rightarrow> bytes" where
  "to_be_bytes n = rev (le_bytes 8 n)"

definition trim_leading_zeros :: "u64 \<Rightarrow> bytes" where
  "trim_leading_zeros n = (if n = 0 then [] else dropWhile (\<lambda>b. b = 0) (to_be_bytes n))"

definition encode_length :: "nat \<Rightarrow> u8 \<Rightarrow> bytes" where
  "encode_length len offset =
    (if len < 56 then [offset + of_nat len]
     else let len_be = trim_leading_zeros (of_nat len)
          in (offset + 55 + of_nat (length len_be)) # len_be)"

definition encode_string :: "bytes \<Rightarrow> bytes" where
  "encode_string bs =
    (if length bs = 1 \<and> bs ! 0 < 0x80 then [bs ! 0] else encode_length (length bs) 0x80 @ bs)"

fun rlp_encode :: "item \<Rightarrow> bytes" where
  "rlp_encode (RString bs) = encode_string bs"
| "rlp_encode (RList items) =
    (let payload = concat (map rlp_encode items) in encode_length (length payload) 0xc0 @ payload)"

section \<open>Decoding\<close>

definition take_exact :: "bytes \<Rightarrow> nat \<Rightarrow> rlp_error + bytes" where
  "take_exact input n = (if length input < n then Inl UnexpectedEof else Inr (take n input))"

lemma take_exact_Inr [result_simps]:
  "take_exact xs n = Inr p \<longleftrightarrow> n \<le> length xs \<and> p = take n xs"
  by (auto simp: take_exact_def)

text \<open>\<open>n.checked_mul(256).and_then(|v| v.checked_add(b))\<close> over the bytes, from an accumulator.\<close>

fun checked_be :: "bytes \<Rightarrow> u64 \<Rightarrow> u64 option" where
  "checked_be [] n = Some n"
| "checked_be (b # bs) n =
    (if unat n * 256 < 2 ^ 64
     then (case checked_add (n * 256) (ucast b) of None \<Rightarrow> None | Some v \<Rightarrow> checked_be bs v)
     else None)"

definition decode_length_value :: "bytes \<Rightarrow> nat \<Rightarrow> rlp_error + u64" where
  "decode_length_value input len_of_len =
    (case take_exact input len_of_len of
       Inl e \<Rightarrow> Inl e
     | Inr len_bytes \<Rightarrow>
         if len_of_len > 1 \<and> len_bytes ! 0 = 0 then Inl NonCanonical
         else if len_of_len = 1 \<and> len_bytes ! 0 < 56 then Inl NonCanonical
         else (case checked_be len_bytes 0 of None \<Rightarrow> Inl InvalidLengthPrefix | Some len \<Rightarrow> Inr len))"

function (sequential) decode_at :: "bytes \<Rightarrow> nat \<Rightarrow> rlp_error + item \<times> bytes"
  and decode_list_items :: "bytes \<Rightarrow> nat \<Rightarrow> rlp_error + item list" where
  "decode_at input depth =
    (if depth > MAX_DEPTH then Inl NestingTooDeep
     else case input of
       [] \<Rightarrow> Inl UnexpectedEof
     | first # tail \<Rightarrow>
         if first < 0x80 then Inr (RString [first], tail)
         else if first \<le> 0xb7 then
           (let len = unat (first - 0x80)
            in case take_exact tail len of
                 Inl e \<Rightarrow> Inl e
               | Inr payload \<Rightarrow> Inr (RString payload, drop (1 + len) input))
         else if first \<le> 0xbf then
           (let len_of_len = unat (first - 0xb7)
            in case decode_length_value tail len_of_len of
                 Inl e \<Rightarrow> Inl e
               | Inr len \<Rightarrow>
                   (let payload_start = 1 + len_of_len
                    in case take_exact (drop payload_start input) (unat len) of
                         Inl e \<Rightarrow> Inl e
                       | Inr payload \<Rightarrow> Inr (RString payload, drop (payload_start + unat len) input)))
         else if first \<le> 0xf7 then
           (let len = unat (first - 0xc0)
            in case take_exact tail len of
                 Inl e \<Rightarrow> Inl e
               | Inr payload \<Rightarrow>
                   (case decode_list_items payload depth of
                      Inl e \<Rightarrow> Inl e
                    | Inr items \<Rightarrow> Inr (RList items, drop (1 + len) input)))
         else
           (let len_of_len = unat (first - 0xf7)
            in case decode_length_value tail len_of_len of
                 Inl e \<Rightarrow> Inl e
               | Inr len \<Rightarrow>
                   (let payload_start = 1 + len_of_len
                    in case take_exact (drop payload_start input) (unat len) of
                         Inl e \<Rightarrow> Inl e
                       | Inr payload \<Rightarrow>
                           (case decode_list_items payload depth of
                              Inl e \<Rightarrow> Inl e
                            | Inr items \<Rightarrow> Inr (RList items, drop (payload_start + unat len) input)))))"
| "decode_list_items rest depth =
    (if rest = [] then Inr []
     else case decode_at rest (depth + 1) of
       Inl e \<Rightarrow> Inl e
     | Inr (it, remaining) \<Rightarrow>
         (case decode_list_items remaining depth of
            Inl e \<Rightarrow> Inl e
          | Inr items \<Rightarrow> Inr (it # items)))"
  by pat_completeness auto
termination
proof -
  have shorter: "length rest < length input"
    if "decode_at_decode_list_items_dom (Inl (input, depth))" "decode_at input depth = Inr (it, rest)" for input depth it rest
    using that(2) by (auto simp: decode_at.psimps [OF that(1)] Let_def split: if_splits list.splits sum.splits)
  show ?thesis
    by (relation "inv_image (less_than <*lex*> less_than)
        (\<lambda>x. case x of Inl (bs, d) \<Rightarrow> (length bs, 0 :: nat) | Inr (bs, d) \<Rightarrow> (length bs, 1))")
      (auto simp: result_simps dest!: sym [of "Inr _" "decode_at _ _"] shorter)
qed

definition rlp_decode :: "bytes \<Rightarrow> rlp_error + item" where
  "rlp_decode input =
    (case decode_at input 0 of
       Inl e \<Rightarrow> Inl e
     | Inr (it, rest) \<Rightarrow> if rest \<noteq> [] then Inl TrailingBytes else Inr it)"

section \<open>Integers and fields\<close>

definition as_bytes :: "item \<Rightarrow> rlp_error + bytes" where
  "as_bytes it = (case it of RString b \<Rightarrow> Inr b | RList _ \<Rightarrow> Inl NonCanonical)"

definition trim_leading_zeros_u64 :: "u64 \<Rightarrow> bytes" where
  "trim_leading_zeros_u64 n = (if n = 0 then [] else dropWhile (\<lambda>b. b = 0) (to_be_bytes n))"

definition encode_uint :: "u64 \<Rightarrow> bytes" where
  "encode_uint n = rlp_encode (RString (trim_leading_zeros_u64 n))"

definition decode_uint :: "item \<Rightarrow> rlp_error + u64" where
  "decode_uint it =
    (case it of
       RList _ \<Rightarrow> Inl NonCanonical
     | RString bs \<Rightarrow>
         if length bs > 1 \<and> bs ! 0 = 0 then Inl NonCanonical
         else if bs = [] then Inr 0
         else if length bs > 8 then Inl InvalidLengthPrefix
         else (case checked_be bs 0 of None \<Rightarrow> Inl InvalidLengthPrefix | Some n \<Rightarrow> Inr n))"

section \<open>Big-endian numbers\<close>

definition be_nat :: "bytes \<Rightarrow> nat" where
  "be_nat bs = foldl (\<lambda>v b. v * 256 + unat b) 0 bs"

lemma foldl_be: "foldl (\<lambda>v b. v * 256 + unat (b :: u8)) a bs = a * 256 ^ length bs + be_nat bs"
proof (induction bs arbitrary: a)
  case (Cons b bs)
  show ?case using Cons [of "a * 256 + unat b"] Cons [of "unat b"] by (simp add: be_nat_def algebra_simps)
qed (simp add: be_nat_def)

lemma be_nat_simps [simp]:
  "be_nat [] = 0"
  "be_nat (b # bs) = unat b * 256 ^ length bs + be_nat bs"
  "be_nat (replicate n 0 @ bs) = be_nat bs"
proof -
  show c: "be_nat (b # bs) = unat b * 256 ^ length bs + be_nat bs" for b bs
    using foldl_be [of "unat b" bs] by (simp add: be_nat_def)
  show "be_nat (replicate n 0 @ bs) = be_nat bs" by (induction n) (simp_all add: c)
qed (simp add: be_nat_def)

lemma unat_u8_less: "unat (b :: u8) < 256"
  using unsigned_less [of b, where 'a = nat] by simp

lemma be_nat_less: "be_nat bs < 256 ^ length bs"
proof (induction bs)
  case (Cons b bs)
  have "unat b * 256 ^ length bs + be_nat bs < (unat b + 1) * 256 ^ length bs" using Cons by simp
  also have "\<dots> \<le> 256 * 256 ^ length bs" using unat_u8_less [of b] by (intro mult_right_mono) auto
  finally show ?case by simp
qed simp

lemma be_nat_inject: "length xs = length ys \<Longrightarrow> be_nat xs = be_nat ys \<Longrightarrow> xs = ys"
proof (induction xs ys rule: list_induct2)
  case (Cons x xs y ys)
  let ?m = "256 ^ length ys :: nat"
  have eq: "unat x * ?m + be_nat xs = unat y * ?m + be_nat ys" using Cons by simp
  have lt: "be_nat xs < ?m" "be_nat ys < ?m" using be_nat_less [of xs] be_nat_less [of ys] Cons.hyps by simp_all
  have "unat x = (unat x * ?m + be_nat xs) div ?m" "unat y = (unat y * ?m + be_nat ys) div ?m" using lt by simp_all
  hence "unat x = unat y" using eq by simp
  thus ?case using eq Cons.IH by (simp add: word_eq_iff_unsigned [where 'a = nat])
qed simp

lemma be_nat_rev_le_bytes: "be_nat (rev (le_bytes n x)) = unat (x :: 'a::len word) mod 256 ^ n"
proof (induction n)
  case (Suc n)
  have p: "(2 :: nat) ^ (8 * n) = 256 ^ n" by (simp add: power_mult)
  have "unat (ucast (drop_bit (8 * n) x) :: u8) = unat x div 256 ^ n mod 256"
  proof -
    have "unat (drop_bit (8 * n) x) = drop_bit (8 * n) (unat x)"
      using unsigned_less [of x, where 'a = nat] by (simp add: unsigned_drop_bit_eq take_bit_nat_eq_self)
    also have "\<dots> = unat x div 256 ^ n" by (simp only: drop_bit_eq_div p)
    finally have d: "unat (drop_bit (8 * n) x) = unat x div 256 ^ n" .
    show ?thesis unfolding unsigned_ucast_eq d by (simp add: take_bit_eq_mod)
  qed
  moreover have "rev (le_bytes (Suc n) x) = ucast (drop_bit (8 * n) x) # rev (le_bytes n x)"
    by (simp add: le_bytes_def)
  moreover have "unat x mod 256 ^ Suc n = 256 ^ n * (unat x div 256 ^ n mod 256) + unat x mod 256 ^ n"
    using mod_mult2_eq [of "unat x" "256 ^ n" 256] by (simp only: power_Suc2)
  ultimately show ?case using Suc by simp
qed (simp add: le_bytes_def)

lemma to_be_bytes_nat [simp]: "be_nat (to_be_bytes n) = unat n" "length (to_be_bytes n) = 8"
  using unsigned_less [of n, where 'a = nat] by (simp_all add: to_be_bytes_def be_nat_rev_le_bytes)

lemma be_nat_dropWhile: "be_nat (dropWhile (\<lambda>b. b = 0) bs) = be_nat bs"
  by (induction bs) simp_all

lemma trim_simps [simp]: "be_nat (trim_leading_zeros n) = unat n" "length (trim_leading_zeros n) \<le> 8"
  using length_dropWhile_le [of "\<lambda>b. b = 0" "to_be_bytes n"]
  by (simp_all add: trim_leading_zeros_def be_nat_dropWhile)

lemma trim_hd: "trim_leading_zeros n \<noteq> [] \<Longrightarrow> trim_leading_zeros n ! 0 \<noteq> 0"
  using hd_dropWhile [of "\<lambda>b. b = 0" "to_be_bytes n"]
  by (auto simp: trim_leading_zeros_def hd_conv_nth split: if_splits)

lemma trim_be_nat:
  assumes "length bs \<le> 8" "bs \<noteq> []" "bs ! 0 \<noteq> 0"
  shows "trim_leading_zeros (of_nat (be_nat bs)) = bs"
proof -
  obtain b r where bs: "bs = b # r" "b \<noteq> 0" using assms(2,3) by (cases bs) auto
  have "(256 :: nat) ^ length bs \<le> 256 ^ 8" using assms(1) by (intro power_increasing) auto
  hence lt: "be_nat bs < 2 ^ 64" using be_nat_less [of bs] by simp
  have "be_nat (to_be_bytes (of_nat (be_nat bs))) = be_nat bs" using lt by (simp add: unsigned_of_nat take_bit_nat_eq_self)
  also have "\<dots> = be_nat (replicate (8 - length bs) 0 @ bs)" by simp
  finally have tb: "to_be_bytes (of_nat (be_nat bs)) = replicate (8 - length bs) 0 @ bs"
    using assms(1) by (intro be_nat_inject) simp_all
  have "0 < unat b" using bs(2) by (simp add: unat_gt_0)
  hence "be_nat bs \<noteq> 0" by (simp add: bs(1))
  moreover have "dropWhile (\<lambda>x. x = 0) (replicate k 0 @ bs) = bs" for k by (induction k) (simp_all add: bs)
  ultimately show ?thesis using lt
    by (simp add: trim_leading_zeros_def tb word_eq_iff_unsigned [where 'a = nat] unsigned_of_nat take_bit_nat_eq_self)
qed

lemma checked_be_acc:
  "unat n * 256 ^ length bs + be_nat bs < 2 ^ 64 \<Longrightarrow> checked_be bs n = Some (of_nat (unat n * 256 ^ length bs + be_nat bs))"
proof (induction bs n rule: checked_be.induct)
  case (2 b bs n)
  have "unat n * 256 + unat b \<le> (unat n * 256 + unat b) * 256 ^ length bs" by simp
  also have "\<dots> \<le> unat n * 256 ^ length (b # bs) + be_nat (b # bs)" by (simp add: algebra_simps)
  also have "\<dots> < 2 ^ 64" by (rule "2.prems")
  finally have small: "unat n * 256 + unat b < 2 ^ 64" .
  have u: "unat (n * 256) = unat n * 256" using small by (simp add: unat_mult_small)
  have b: "unat (ucast b :: u64) = unat b" using unat_u8_less [of b] by (simp add: unsigned_ucast_eq take_bit_nat_eq_self)
  have c: "checked_add (n * 256) (ucast b) = Some (n * 256 + ucast b)" using small by (simp add: checked_add_def u b)
  have v: "unat (n * 256 + ucast b) = unat n * 256 + unat b" using small by (simp add: unat_add_small u b)
  have "unat (n * 256 + ucast b) * 256 ^ length bs + be_nat bs < 2 ^ 64"
    unfolding v using "2.prems" by (simp add: algebra_simps)
  from "2.IH" [OF _ c this] have "checked_be bs (n * 256 + ucast b) = Some (of_nat ((unat n * 256 + unat b) * 256 ^ length bs + be_nat bs))"
    using small unfolding v by simp
  thus ?case using small by (simp add: c) (simp add: algebra_simps)
qed simp

lemma checked_be_nat: "length bs \<le> 8 \<Longrightarrow> checked_be bs 0 = Some (of_nat (be_nat bs))"
proof -
  assume "length bs \<le> 8"
  hence "(256 :: nat) ^ length bs \<le> 256 ^ 8" by (intro power_increasing) auto
  hence "be_nat bs < 2 ^ 64" using be_nat_less [of bs] by simp
  thus ?thesis using checked_be_acc [of 0 bs] by simp
qed

section \<open>Reading a length prefix\<close>

lemma decode_length_value_Inr:
  assumes "0 < n" "n \<le> 8"
  shows "decode_length_value input n = Inr len \<longleftrightarrow>
    56 \<le> unat len \<and> n \<le> length input \<and> take n input = trim_leading_zeros len"
proof (cases "n \<le> length input")
  case True
  define bs where "bs = take n input"
  have bs: "length bs = n" "bs \<noteq> []" "take_exact input n = Inr bs"
    using True assms by (auto simp: bs_def take_exact_def)
  then obtain b r where br: "bs = b # r" "length r = n - 1" by (cases bs) auto
  have be: "checked_be bs 0 = Some (of_nat (be_nat bs))" using bs assms by (simp add: checked_be_nat)
  have pw: "(256 :: nat) ^ n \<le> 256 ^ 8" using assms by (intro power_increasing) auto
  have lt: "be_nat bs < 2 ^ 64" using be_nat_less [of bs] pw by (simp add: bs)
  have big: "56 \<le> be_nat bs \<longleftrightarrow> \<not> (n = 1 \<and> b < 56)" if "n > 1 \<longrightarrow> b \<noteq> 0"
  proof (cases "n = 1")
    case False
    have "(256 :: nat) ^ 1 \<le> 256 ^ (n - 1)" using False assms by (intro power_increasing) auto
    moreover have "0 < unat b" using that False assms by (simp add: unat_gt_0)
    ultimately have "256 \<le> unat b * 256 ^ (n - 1)" by (metis One_nat_def Suc_leI mult_le_mono nat_mult_1 power_one_right)
    thus ?thesis using False by (simp add: br)
  qed (use br in \<open>auto simp: word_less_nat_alt\<close>)
  have "decode_length_value input n = Inr len \<longleftrightarrow> (n > 1 \<longrightarrow> b \<noteq> 0) \<and> \<not> (n = 1 \<and> b < 56) \<and> len = of_nat (be_nat bs)"
    using be by (auto simp: decode_length_value_def bs br)
  also have "\<dots> \<longleftrightarrow> 56 \<le> unat len \<and> bs = trim_leading_zeros len"
  proof
    assume a: "(n > 1 \<longrightarrow> b \<noteq> 0) \<and> \<not> (n = 1 \<and> b < 56) \<and> len = of_nat (be_nat bs)"
    hence "b \<noteq> 0" using assms by (cases "n = 1") auto
    hence "trim_leading_zeros (of_nat (be_nat bs)) = bs" using assms bs br by (intro trim_be_nat) auto
    moreover have "unat len = be_nat bs" using a lt by (simp only: unsigned_of_nat take_bit_nat_eq_self) (simp add: take_bit_nat_eq_self)
    ultimately show "56 \<le> unat len \<and> bs = trim_leading_zeros len" using a big by simp
  next
    assume a: "56 \<le> unat len \<and> bs = trim_leading_zeros len"
    hence n: "be_nat bs = unat len" by simp
    have "trim_leading_zeros len = b # r" using a br by simp
    hence "b \<noteq> 0" using trim_hd [of len] by simp
    with n show "(n > 1 \<longrightarrow> b \<noteq> 0) \<and> \<not> (n = 1 \<and> b < 56) \<and> len = of_nat (be_nat bs)"
      using a big by simp
  qed
  finally show ?thesis using True by (simp add: bs_def)
qed (auto simp: decode_length_value_def take_exact_def)

definition payload_at :: "u8 \<Rightarrow> u8 \<Rightarrow> bytes \<Rightarrow> rlp_error + bytes \<times> bytes" where
  "payload_at c first tail =
    (if first \<le> c + 55
     then (case take_exact tail (unat (first - c)) of
             Inl e \<Rightarrow> Inl e | Inr q \<Rightarrow> Inr (q, drop (unat (first - c)) tail))
     else (let n = unat (first - (c + 55))
           in case decode_length_value tail n of
                Inl e \<Rightarrow> Inl e
              | Inr len \<Rightarrow>
                  (case take_exact (drop n tail) (unat len) of
                     Inl e \<Rightarrow> Inl e | Inr q \<Rightarrow> Inr (q, drop (n + unat len) tail))))"

lemma u8_offset:
  assumes "unat (c :: u8) \<le> unat first"
  shows "unat (first - c) = unat first - unat c" "first = c + of_nat (unat first - unat c)"
proof -
  show d: "unat (first - c) = unat first - unat c" using assms by (simp add: unat_sub word_le_nat_alt)
  have "first = c + of_nat (unat (first - c))" by simp
  thus "first = c + of_nat (unat first - unat c)" by (simp only: d)
qed

lemma unat_u8_add: "unat x + n < 256 \<Longrightarrow> unat (x + of_nat n :: u8) = unat x + n"
  by (subst unat_add_small) (simp_all add: unsigned_of_nat take_bit_nat_eq_self)

lemma encode_length_Cons: obtains f t where "encode_length n c = f # t"
  by (cases "n < 56") (simp_all add: encode_length_def Let_def)

text \<open>The first byte of a prefix tells the short form from the long one.\<close>

lemma encode_length_first:
  assumes "unat c + 63 < 256" "n < 2 ^ 64" "encode_length n c = first # tail"
  shows "n < 56 \<Longrightarrow> unat first = unat c + n \<and> tail = []"
    and "\<not> n < 56 \<Longrightarrow> unat first = unat c + 55 + length tail \<and> tail = trim_leading_zeros (of_nat n) \<and>
      0 < length tail \<and> length tail \<le> 8"
proof -
  show "unat first = unat c + n \<and> tail = []" if "n < 56"
    using that assms by (auto simp: encode_length_def unat_u8_add)
  show "unat first = unat c + 55 + length tail \<and> tail = trim_leading_zeros (of_nat n) \<and> 0 < length tail \<and> length tail \<le> 8"
    if long: "\<not> n < 56"
  proof -
    have t: "first = c + of_nat (55 + length tail)" "tail = trim_leading_zeros (of_nat n)"
      using assms(3) long by (auto simp: encode_length_def Let_def)
    have n: "be_nat tail = n" using assms(2) by (simp add: t unsigned_of_nat take_bit_nat_eq_self)
    have l: "length tail \<le> 8" by (simp add: t(2))
    have "tail \<noteq> []" using n long by auto
    moreover have "unat first = unat c + (55 + length tail)" unfolding t(1) using l assms(1) by (intro unat_u8_add) simp
    ultimately show ?thesis using l t(2) by simp
  qed
qed

lemma payload_short:
  assumes "unat c + 63 < 256" "unat c \<le> unat first" "first \<le> c + 55"
  shows "payload_at c first tail = Inr (q, rest) \<longleftrightarrow>
    length q < 2 ^ 64 \<and> first # tail = encode_length (length q) c @ q @ rest"
proof -
  have c55: "unat (c + 55) = unat c + 55" using assms(1) by (subst unat_add_small) auto
  define n where "n = unat first - unat c"
  have n: "n < 56" "first = c + of_nat n" "unat (first - c) = n" "unat first = unat c + n"
    using u8_offset [OF assms(2)] assms(2,3) c55 by (auto simp: n_def word_le_nat_alt)
  have "payload_at c first tail = Inr (q, rest) \<longleftrightarrow> n \<le> length tail \<and> q = take n tail \<and> rest = drop n tail"
    using assms(3) by (auto simp: payload_at_def n(3) take_exact_def)
  also have "\<dots> \<longleftrightarrow> length q = n \<and> tail = q @ rest" by (auto simp: append_eq_conv_conj)
  also have "\<dots> \<longleftrightarrow> length q < 2 ^ 64 \<and> first # tail = encode_length (length q) c @ q @ rest"
  proof
    assume a: "length q < 2 ^ 64 \<and> first # tail = encode_length (length q) c @ q @ rest"
    obtain f t where e: "encode_length (length q) c = f # t" by (rule encode_length_Cons)
    have f: "f = first" "tail = t @ q @ rest" using a by (simp_all add: e)
    note first = encode_length_first [OF assms(1) _ e [unfolded f(1)]]
    have "length q < 56" using first(2) a n by (cases "length q < 56") auto
    thus "length q = n \<and> tail = q @ rest" using first(1) a n f by auto
  qed (use n in \<open>auto simp: encode_length_def\<close>)
  finally show ?thesis .
qed

lemma payload_long_parts:
  assumes "unat c + 63 < 256" "c + 55 < first" "unat first \<le> unat c + 63" "n = unat first - (unat c + 55)"
  shows "payload_at c first tail = Inr (q, rest) \<longleftrightarrow>
    56 \<le> length q \<and> length q < 2 ^ 64 \<and> length (trim_leading_zeros (of_nat (length q))) = n \<and>
    tail = trim_leading_zeros (of_nat (length q)) @ q @ rest"
proof -
  have c55: "unat (c + 55) = unat c + 55" using assms(1) by (subst unat_add_small) auto
  have n: "0 < n" "n \<le> 8" "unat (first - (c + 55)) = n"
    using u8_offset(1) [of "c + 55" first] assms c55 by (auto simp: word_less_nat_alt)
  note dl = decode_length_value_Inr [OF n(1,2)]
  have "payload_at c first tail = Inr (q, rest) \<longleftrightarrow>
      (\<exists>len. decode_length_value tail n = Inr len \<and> unat len \<le> length (drop n tail) \<and>
         q = take (unat len) (drop n tail) \<and> rest = drop (n + unat len) tail)"
    using assms(2) by (auto simp: payload_at_def n(3) take_exact_def Let_def split: sum.splits if_splits)
  also have "\<dots> \<longleftrightarrow> (\<exists>len. 56 \<le> unat len \<and> length (trim_leading_zeros len) = n \<and> length q = unat len \<and>
      tail = trim_leading_zeros len @ q @ rest)"
  proof (intro arg_cong [where f = Ex] ext iffI)
    fix len
    assume a: "decode_length_value tail n = Inr len \<and> unat len \<le> length (drop n tail) \<and>
         q = take (unat len) (drop n tail) \<and> rest = drop (n + unat len) tail"
    hence d: "56 \<le> unat len" "n \<le> length tail" "take n tail = trim_leading_zeros len" using dl by auto
    have "tail = take n tail @ drop n tail" by simp
    also have "drop n tail = take (unat len) (drop n tail) @ drop (unat len) (drop n tail)" by (rule append_take_drop_id [symmetric])
    also have "\<dots> = q @ rest" using a by (simp add: add.commute)
    finally have t: "tail = trim_leading_zeros len @ q @ rest" unfolding d(3) .
    have "length (take n tail) = n" "length q = unat len" using a d(2) by simp_all
    thus "56 \<le> unat len \<and> length (trim_leading_zeros len) = n \<and> length q = unat len \<and>
      tail = trim_leading_zeros len @ q @ rest" using d(1) t unfolding d(3) by blast
  qed (auto simp: dl)
  also have "\<dots> \<longleftrightarrow> 56 \<le> length q \<and> length q < 2 ^ 64 \<and> length (trim_leading_zeros (of_nat (length q))) = n \<and>
    tail = trim_leading_zeros (of_nat (length q)) @ q @ rest" (is "?l \<longleftrightarrow> ?r")
  proof
    assume ?l
    then obtain len where len: "56 \<le> unat len" "length (trim_leading_zeros len) = n" "length q = unat len"
      "tail = trim_leading_zeros len @ q @ rest" by blast
    have "of_nat (length q) = len" by (simp add: len(3))
    thus ?r using len unsigned_less [of len, where 'a = nat] by simp
  next
    assume ?r
    thus ?l by (intro exI [of _ "of_nat (length q)"]) (simp add: unsigned_of_nat take_bit_nat_eq_self)
  qed
  finally show ?thesis .
qed

lemma payload_long:
  assumes "unat c + 63 < 256" "c + 55 < first" "unat first \<le> unat c + 63"
  shows "payload_at c first tail = Inr (q, rest) \<longleftrightarrow>
    length q < 2 ^ 64 \<and> first # tail = encode_length (length q) c @ q @ rest" (is "_ \<longleftrightarrow> ?r")
proof -
  have c55: "unat (c + 55) = unat c + 55" using assms(1) by (subst unat_add_small) auto
  define n where "n = unat first - (unat c + 55)"
  have n: "0 < n" "unat first = unat c + 55 + n" "first = c + 55 + of_nat n"
    using u8_offset(2) [of "c + 55" first] assms c55 by (auto simp: word_less_nat_alt n_def)
  let ?t = "trim_leading_zeros (of_nat (length q))"
  have "payload_at c first tail = Inr (q, rest) \<longleftrightarrow>
    56 \<le> length q \<and> length q < 2 ^ 64 \<and> length ?t = n \<and> tail = ?t @ q @ rest"
    by (rule payload_long_parts [OF assms n_def])
  also have "\<dots> \<longleftrightarrow> ?r"
  proof
    assume a: ?r
    obtain f t where e: "encode_length (length q) c = f # t" by (rule encode_length_Cons)
    have f: "f = first" "tail = t @ q @ rest" using a by (simp_all add: e)
    note first = encode_length_first [OF assms(1) _ e [unfolded f(1)]]
    have "\<not> length q < 56" using first(1) a n by auto
    thus "56 \<le> length q \<and> length q < 2 ^ 64 \<and> length ?t = n \<and> tail = ?t @ q @ rest"
      using first(2) a n f by auto
  qed (use n in \<open>auto simp: encode_length_def Let_def\<close>)
  finally show ?thesis .
qed

lemma payload_at_Inr:
  assumes "unat c + 63 < 256" "unat c \<le> unat first" "unat first \<le> unat c + 63"
  shows "payload_at c first tail = Inr (q, rest) \<longleftrightarrow>
    length q < 2 ^ 64 \<and> first # tail = encode_length (length q) c @ q @ rest"
  using payload_short [OF assms(1,2)] payload_long [OF assms(1) _ assms(3)] by (cases "first \<le> c + 55") (simp_all add: not_le)

section \<open>What the decoder accepts\<close>

lemma decode_at_Cons:
  "decode_at (first # tail) depth =
    (if depth > MAX_DEPTH then Inl NestingTooDeep
     else if first < 0x80 then Inr (RString [first], tail)
     else if first \<le> 0xbf then
       (case payload_at 0x80 first tail of Inl e \<Rightarrow> Inl e | Inr (q, rest) \<Rightarrow> Inr (RString q, rest))
     else (case payload_at 0xc0 first tail of
         Inl e \<Rightarrow> Inl e
       | Inr (q, rest) \<Rightarrow> (case decode_list_items q depth of Inl e \<Rightarrow> Inl e | Inr items \<Rightarrow> Inr (RList items, rest))))"
  by (subst decode_at.simps)
    (auto simp del: decode_at.simps decode_list_items.simps simp: payload_at_def Let_def word_le_nat_alt split: sum.splits)

declare decode_at.simps [simp del] decode_list_items.simps [simp del]

lemma decode_at_Inr:
  "decode_at bs d = Inr (it, rest) \<longleftrightarrow> d \<le> MAX_DEPTH \<and>
    ((\<exists>b. b < 0x80 \<and> it = RString [b] \<and> bs = b # rest) \<or>
     (\<exists>q. it = RString q \<and> length q < 2 ^ 64 \<and> bs = encode_length (length q) 0x80 @ q @ rest) \<or>
     (\<exists>q items. it = RList items \<and> decode_list_items q d = Inr items \<and> length q < 2 ^ 64 \<and>
        bs = encode_length (length q) 0xc0 @ q @ rest))"
proof (cases bs)
  case Nil
  have "encode_length n c @ q \<noteq> []" for n c q by (rule encode_length_Cons [of n c]) simp
  thus ?thesis using Nil by (auto simp: decode_at.simps)
next
  case (Cons first tail)
  have ranges: "unat first \<le> unat (c :: u8) + 63 \<and> unat c \<le> unat first"
    if "first # tail = encode_length n c @ r" "n < 2 ^ 64" "c = 0x80 \<or> c = 0xc0" for n c r
  proof -
    obtain f t where e: "encode_length n c = f # t" by (rule encode_length_Cons)
    have c: "unat c + 63 < 256" using that(3) by auto
    show ?thesis using encode_length_first [OF c that(2) e] that(1) by (cases "n < 56") (auto simp: e)
  qed
  consider "first < 0x80" | "\<not> first < 0x80" "first \<le> 0xbf" | "\<not> first \<le> 0xbf" by force
  thus ?thesis
  proof cases
    case 1
    hence "unat first < 128" by (simp add: word_less_nat_alt)
    hence "\<not> (length q < 2 ^ 64 \<and> first # tail = encode_length (length q) 0x80 @ q @ r)"
        "\<not> (length q < 2 ^ 64 \<and> first # tail = encode_length (length q) 0xc0 @ q @ r)" for q r
      using ranges [of "length q" "0x80" "q @ r"] ranges [of "length q" "0xc0" "q @ r"] by auto
    thus ?thesis using 1 by (auto simp: Cons decode_at_Cons)
  next
    case 2
    hence u: "128 \<le> unat first" "unat first \<le> 191" by (simp_all add: word_less_nat_alt word_le_nat_alt)
    have p: "payload_at 0x80 first tail = Inr (q, r) \<longleftrightarrow> length q < 2 ^ 64 \<and> first # tail = encode_length (length q) 0x80 @ q @ r" for q r
      using u by (intro payload_at_Inr) simp_all
    have "\<not> (length q < 2 ^ 64 \<and> first # tail = encode_length (length q) 0xc0 @ q @ r)" for q r
      using ranges [of "length q" "0xc0" "q @ r"] u by auto
    moreover have "\<not> (b < 0x80 \<and> first # tail = b # r)" for b r using 2 by auto
    moreover have "decode_at bs d = Inr (it, rest) \<longleftrightarrow> d \<le> MAX_DEPTH \<and> (\<exists>q. it = RString q \<and> payload_at 0x80 first tail = Inr (q, rest))"
      using 2 by (auto simp: Cons decode_at_Cons split: sum.splits)
    ultimately show ?thesis unfolding p Cons by blast
  next
    case 3
    hence u: "192 \<le> unat first" "unat first < 256" "\<not> first < 0x80"
      using unat_u8_less [of first] by (simp_all add: word_less_nat_alt word_le_nat_alt)
    have p: "payload_at 0xc0 first tail = Inr (q, r) \<longleftrightarrow> length q < 2 ^ 64 \<and> first # tail = encode_length (length q) 0xc0 @ q @ r" for q r
      using u by (intro payload_at_Inr) simp_all
    have "\<not> (length q < 2 ^ 64 \<and> first # tail = encode_length (length q) 0x80 @ q @ r)" for q r
      using ranges [of "length q" "0x80" "q @ r"] u by auto
    moreover have "\<not> (b < 0x80 \<and> first # tail = b # r)" for b r using u by auto
    moreover have "decode_at bs d = Inr (it, rest) \<longleftrightarrow> d \<le> MAX_DEPTH \<and>
        (\<exists>q items. it = RList items \<and> decode_list_items q d = Inr items \<and> payload_at 0xc0 first tail = Inr (q, rest))"
      using 3 u(3) by (auto simp: Cons decode_at_Cons split: sum.splits)
    ultimately show ?thesis unfolding p Cons by blast
  qed
qed

text \<open>The byte strings that denote an item: the canonical encoding, and the one redundancy the decoder
  tolerates, a single byte below 0x80 written with a length prefix.\<close>

inductive rlp_image :: "item \<Rightarrow> bytes \<Rightarrow> bool" and rlp_images :: "item list \<Rightarrow> bytes \<Rightarrow> bool" where
  byte: "b < 0x80 \<Longrightarrow> rlp_image (RString [b]) [b]"
| string: "length q < 2 ^ 64 \<Longrightarrow> rlp_image (RString q) (encode_length (length q) 0x80 @ q)"
| list: "rlp_images items q \<Longrightarrow> length q < 2 ^ 64 \<Longrightarrow> rlp_image (RList items) (encode_length (length q) 0xc0 @ q)"
| images_Nil: "rlp_images [] []"
| images_Cons: "rlp_image it p \<Longrightarrow> rlp_images items q \<Longrightarrow> rlp_images (it # items) (p @ q)"

inductive_simps rlp_image_simps:
  "rlp_image (RString q) p"
  "rlp_image (RList items) p"
  "rlp_images [] p"
  "rlp_images (it # items) p"

fun item_depth :: "item \<Rightarrow> nat" where
  "item_depth (RString q) = 0"
| "item_depth (RList items) = foldr (\<lambda>it m. max (Suc (item_depth it)) m) items 0"

lemma item_depth_RList: "d + item_depth (RList items) \<le> M \<longleftrightarrow> d \<le> M \<and> (\<forall>it \<in> set items. d + 1 + item_depth it \<le> M)"
  by (induction items) (auto simp: max_def)

lemma decode_list_items_Inr:
  "decode_list_items q d = Inr [] \<longleftrightarrow> q = []"
  "decode_list_items q d = Inr (it # items) \<longleftrightarrow>
    q \<noteq> [] \<and> (\<exists>r. decode_at q (d + 1) = Inr (it, r) \<and> decode_list_items r d = Inr items)"
  by (subst decode_list_items.simps; auto split: sum.splits)+

lemma rlp_image_not_Nil: "rlp_image it p \<Longrightarrow> p \<noteq> []"
  by (erule rlp_image.cases) (auto simp: encode_length_def)

lemma decode_at_image:
  "decode_at bs d = Inr (it, rest) \<longleftrightarrow> (\<exists>p. bs = p @ rest \<and> rlp_image it p) \<and> d + item_depth it \<le> MAX_DEPTH"
proof (induction it arbitrary: bs d rest)
  case (RString q)
  show ?case unfolding decode_at_Inr rlp_image_simps by auto
next
  case (RList items)
  have items: "decode_list_items q d = Inr items \<longleftrightarrow> rlp_images items q \<and> (\<forall>it \<in> set items. d + 1 + item_depth it \<le> MAX_DEPTH)" for q
    using RList
  proof (induction items arbitrary: q)
    case (Cons it items)
    have it: "decode_at q (d + 1) = Inr (it, r) \<longleftrightarrow> (\<exists>p. q = p @ r \<and> rlp_image it p) \<and> d + 1 + item_depth it \<le> MAX_DEPTH" for r
      by (rule Cons.prems) simp
    have its: "decode_list_items r d = Inr items \<longleftrightarrow> rlp_images items r \<and> (\<forall>it \<in> set items. d + 1 + item_depth it \<le> MAX_DEPTH)" for r
      by (rule Cons.IH) (rule Cons.prems, simp)
    show ?case unfolding decode_list_items_Inr it its rlp_image_simps using rlp_image_not_Nil by fastforce
  qed (simp add: decode_list_items_Inr rlp_image_simps)
  have "decode_at bs d = Inr (RList items, rest) \<longleftrightarrow> d \<le> MAX_DEPTH \<and>
      (\<exists>q. decode_list_items q d = Inr items \<and> length q < 2 ^ 64 \<and> bs = encode_length (length q) 0xc0 @ q @ rest)"
    unfolding decode_at_Inr by blast
  thus ?case unfolding items item_depth_RList rlp_image_simps by auto
qed

lemma rlp_decode_image: "rlp_decode bs = Inr it \<longleftrightarrow> rlp_image it bs \<and> item_depth it \<le> MAX_DEPTH"
proof -
  have "rlp_decode bs = Inr it \<longleftrightarrow> decode_at bs 0 = Inr (it, [])" by (auto simp: rlp_decode_def split: sum.splits)
  thus ?thesis by (simp add: decode_at_image)
qed

lemma rlp_image_encode: "length (rlp_encode it) < 2 ^ 64 \<Longrightarrow> rlp_image it (rlp_encode it)"
proof (induction it)
  case (RString q)
  show ?case
  proof (cases "length q = 1 \<and> q ! 0 < 0x80")
    case True
    then obtain b where "q = [b]" by (cases q) auto
    thus ?thesis using True by (simp add: encode_string_def rlp_image_simps)
  next
    case False
    thus ?thesis using RString by (auto simp: encode_string_def rlp_image_simps)
  qed
next
  case (RList items)
  let ?q = "concat (map rlp_encode items)"
  have len: "length ?q < 2 ^ 64" using RList.prems by (simp add: Let_def)
  hence "rlp_images items ?q" using RList.IH
    by (induction items) (auto intro!: images_Nil images_Cons)
  thus ?case using len by (auto simp: Let_def rlp_image_simps)
qed

lemma rlp_decode_encode:
  "length (rlp_encode it) < 2 ^ 64 \<Longrightarrow> item_depth it \<le> MAX_DEPTH \<Longrightarrow> rlp_decode (rlp_encode it) = Inr it"
  by (simp add: rlp_decode_image rlp_image_encode)

lemma rlp_encode_inject:
  assumes "rlp_encode it = rlp_encode it'" "length (rlp_encode it) < 2 ^ 64" "item_depth it \<le> MAX_DEPTH" "item_depth it' \<le> MAX_DEPTH"
  shows "it = it'"
  using rlp_decode_encode [OF assms(2,3)] rlp_decode_encode [of it'] assms by simp

section \<open>Integers\<close>

lemma decode_uint_trim: "decode_uint (RString (trim_leading_zeros_u64 n)) = Inr n"
proof -
  have t: "trim_leading_zeros_u64 n = trim_leading_zeros n" by (simp add: trim_leading_zeros_u64_def trim_leading_zeros_def)
  have "checked_be (trim_leading_zeros n) 0 = Some n" by (simp add: checked_be_nat)
  moreover have "n = 0" if "trim_leading_zeros n = []"
    using arg_cong [OF that, of be_nat] by (simp add: unsigned_eq_0_iff)
  moreover have "(8 < length (trim_leading_zeros n)) = False" by (simp add: not_less)
  ultimately show ?thesis using trim_hd [of n] by (auto simp: decode_uint_def t)
qed

section \<open>Properties\<close>

text \<open>C39: The decoder accepts exactly the encodings.  A byte string decodes to an item if and only if it is an
  image of the item, every length written in its shortest form, and the item nests at most 32 lists;
  the only freedom left is a byte below 0x80 written with the prefix 0x81.\<close>

theorem rlp_decode_exact:
  "rlp_decode bs = Inr it \<longleftrightarrow> rlp_image it bs \<and> item_depth it \<le> MAX_DEPTH"
  by (rule rlp_decode_image)

text \<open>Encoding round-trips.  An item within the nesting limit, whose encoding has a length that fits in
  64 bits, is decoded back from its encoding, as is every integer; the decoder also reads the redundant
  encoding of a single byte, which the encoder never writes.\<close>

theorem rlp_round_trip:
  assumes "length (rlp_encode it) < 2 ^ 64" "item_depth it \<le> MAX_DEPTH"
  shows "rlp_decode (rlp_encode it) = Inr it \<and>
    (\<exists>number. rlp_decode (encode_uint n) = Inr number \<and> decode_uint number = Inr n) \<and>
    (b < 0x80 \<longrightarrow> rlp_decode [0x81, b] = Inr (RString [b]) \<and> rlp_encode (RString [b]) = [b])"
proof -
  let ?s = "trim_leading_zeros n"
  have t: "trim_leading_zeros_u64 n = ?s" by (simp add: trim_leading_zeros_u64_def trim_leading_zeros_def)
  have "length ?s < 56" using trim_simps(2) [of n] by linarith
  hence "length (rlp_encode (RString ?s)) < 2 ^ 64" by (simp add: encode_string_def encode_length_def)
  hence "rlp_decode (encode_uint n) = Inr (RString ?s)" unfolding encode_uint_def t by (intro rlp_decode_encode) simp_all
  moreover have "rlp_image (RString [b]) [0x81, b]" by (simp add: rlp_image_simps encode_length_def)
  ultimately show ?thesis using rlp_decode_encode [OF assms] decode_uint_trim [of n]
    by (auto simp: rlp_decode_image t encode_string_def)
qed

theorem rlp_round_trip_witness:
  "rlp_decode (rlp_encode (RList [RString (ascii ''cat''), RList [], RString (replicate 60 7)])) =
     Inr (RList [RString (ascii ''cat''), RList [], RString (replicate 60 7)])"
  using rlp_round_trip [of "RList [RString (ascii ''cat''), RList [], RString (replicate 60 7)]"]
  by (simp add: MAX_DEPTH_def encode_string_def encode_length_def ascii_def trim_leading_zeros_def Let_def
      to_be_bytes_def le_bytes_def upt_conv_Cons)

end
