(* ===== verification/Mpt.thy ===== *)
theory Mpt
  imports Rlp
begin

text \<open>
  The verifier of Merkle-Patricia proofs, \<open>src/cross_domain/evm/mpt.rs\<close>.  The hash \<open>keccak256\<close>, of the crate
  \<open>sha3\<close>, is the parameter \<open>K\<close>.  The verifier is compared with tries as a data type: what it accepts under
  the root of a trie is what the trie holds, whatever nodes the prover supplies.
\<close>

section \<open>The verifier\<close>

datatype mpt_error =
    KeyNotFound | MissingNode | Mpt_Rlp rlp_error | InvalidNode | InvalidHpEncoding | InvalidNodeRef
  | PathMismatch | Mpt_NestingTooDeep

definition MAX_WALK_DEPTH :: nat where
  "MAX_WALK_DEPTH = 128"

definition to_nibbles :: "bytes \<Rightarrow> bytes" where
  "to_nibbles hash = concat (map (\<lambda>b. [drop_bit 4 b, b AND 0x0f]) hash)"

text \<open>The loop of \<open>hp_encode\<close> over \<open>chunks(2)\<close>; it only meets lists of even length.\<close>

fun hp_pairs :: "bytes \<Rightarrow> bytes" where
  "hp_pairs (a # b # rest) = (push_bit 4 a OR b) # hp_pairs rest"
| "hp_pairs _ = []"

definition hp_encode :: "bytes \<Rightarrow> bool \<Rightarrow> bytes" where
  "hp_encode nibbles is_leaf =
    (let flag = (if is_leaf then 2 else 0);
         odd_len = (length nibbles mod 2 = 1);
         prefix_nibble = flag + (if odd_len then 1 else 0) :: u8
     in if odd_len then (push_bit 4 prefix_nibble OR nibbles ! 0) # hp_pairs (tl nibbles)
        else push_bit 4 prefix_nibble # hp_pairs nibbles)"

definition hp_decode :: "bytes \<Rightarrow> mpt_error + bool \<times> bytes" where
  "hp_decode bs =
    (case bs of
       [] \<Rightarrow> Inl InvalidHpEncoding
     | first # tail \<Rightarrow>
         let flag_byte = drop_bit 4 first
         in if flag_byte > 3 then Inl InvalidHpEncoding
            else Inr (flag_byte AND 2 \<noteq> 0,
                      (if flag_byte AND 1 \<noteq> 0 then [first AND 0x0f] else []) @
                      concat (map (\<lambda>b. [drop_bit 4 b, b AND 0x0f]) tail)))"

type_synonym node_map = "bytes \<rightharpoonup> bytes"

definition lift_rlp :: "rlp_error + 'a \<Rightarrow> mpt_error + 'a" where
  "lift_rlp r = (case r of Inl e \<Rightarrow> Inl (Mpt_Rlp e) | Inr x \<Rightarrow> Inr x)"

definition resolve_ref :: "item \<Rightarrow> node_map \<Rightarrow> mpt_error + item" where
  "resolve_ref it nodes =
    (case it of
       RString b \<Rightarrow>
         if b = [] then Inl KeyNotFound
         else if length b = 32 then
           (case nodes b of None \<Rightarrow> Inl MissingNode | Some node_bytes \<Rightarrow> lift_rlp (rlp_decode node_bytes))
         else lift_rlp (rlp_decode b)
     | RList _ \<Rightarrow> Inr it)"

function walk :: "item \<Rightarrow> bytes \<Rightarrow> node_map \<Rightarrow> nat \<Rightarrow> mpt_error + bytes" where
  "walk node nibbles nodes depth =
    (if depth > MAX_WALK_DEPTH then Inl Mpt_NestingTooDeep
     else case node of
       RString b \<Rightarrow> if b = [] then Inl KeyNotFound else Inl InvalidNode
     | RList items \<Rightarrow>
         if length items = 2 then
           (case lift_rlp (as_bytes (items ! 0)) of
              Inl e \<Rightarrow> Inl e
            | Inr path_bytes \<Rightarrow>
                (case hp_decode path_bytes of
                   Inl e \<Rightarrow> Inl e
                 | Inr (is_leaf, node_path) \<Rightarrow>
                     if take (length node_path) nibbles \<noteq> node_path then Inl PathMismatch
                     else
                       let remaining = drop (length node_path) nibbles
                       in if is_leaf then
                            (if remaining \<noteq> [] then Inl PathMismatch else lift_rlp (as_bytes (items ! 1)))
                          else
                            (case resolve_ref (items ! 1) nodes of
                               Inl e \<Rightarrow> Inl e
                             | Inr child \<Rightarrow> walk child remaining nodes (depth + 1))))
         else if length items = 17 then
           (case nibbles of
              [] \<Rightarrow> (if items ! 16 = RString [] then Inl KeyNotFound else lift_rlp (as_bytes (items ! 16)))
            | nibble # rest \<Rightarrow>
                (case resolve_ref (items ! unat nibble) nodes of
                   Inl e \<Rightarrow> Inl e
                 | Inr child \<Rightarrow> walk child rest nodes (depth + 1)))
         else Inl InvalidNode)"
  by pat_completeness auto
termination
  by (relation "measure (\<lambda>(_, _, _, depth). MAX_WALK_DEPTH + 1 - depth)") auto

declare walk.simps [simp del]

definition node_map_of :: "(bytes \<Rightarrow> bytes) \<Rightarrow> bytes list \<Rightarrow> node_map" where
  "node_map_of K proof_nodes = fold (\<lambda>node m. m(K node \<mapsto> node)) proof_nodes Map.empty"

definition verify :: "(bytes \<Rightarrow> bytes) \<Rightarrow> bytes list \<Rightarrow> bytes \<Rightarrow> bytes \<Rightarrow> mpt_error + bytes" where
  "verify K proof_nodes root key =
    (let nodes = node_map_of K proof_nodes
     in case nodes root of
          None \<Rightarrow> Inl MissingNode
        | Some root_bytes \<Rightarrow>
            (case lift_rlp (rlp_decode root_bytes) of
               Inl e \<Rightarrow> Inl e
             | Inr root_item \<Rightarrow> walk root_item (to_nibbles (K key)) nodes 0))"

section \<open>The map of nodes\<close>

lemma lift_rlp_Inr [simp]: "lift_rlp r = Inr x \<longleftrightarrow> r = Inr x" "lift_rlp (Inr x) = Inr x"
  by (auto simp: lift_rlp_def split: sum.splits)

lemma node_map_fold:
  "fold (\<lambda>node m. m(K node \<mapsto> node)) ns m h = Some b \<Longrightarrow> m h = Some b \<or> b \<in> set ns \<and> K b = h"
proof (induction ns arbitrary: m)
  case (Cons a ns)
  show ?case using Cons.IH [of "m(K a \<mapsto> a)"] Cons.prems by (auto split: if_splits)
qed simp

lemma node_map_sound: "node_map_of K ns h = Some b \<Longrightarrow> b \<in> set ns \<and> K b = h"
  using node_map_fold [of K ns Map.empty h b] by (simp add: node_map_of_def)

lemma node_map_dom: "b \<in> set ns \<or> m (K b) \<noteq> None \<Longrightarrow> fold (\<lambda>node m. m(K node \<mapsto> node)) ns m (K b) \<noteq> None"
  by (induction ns arbitrary: m) auto

lemma node_map_complete:
  assumes "inj_on K (set ns)" "b \<in> set ns"
  shows "node_map_of K ns (K b) = Some b"
proof -
  obtain b' where b': "node_map_of K ns (K b) = Some b'"
    using node_map_dom [of b ns Map.empty K] assms(2) by (auto simp: node_map_of_def)
  hence "b' \<in> set ns" "K b' = K b" using node_map_sound by metis+
  thus ?thesis using assms b' by (auto dest: inj_onD)
qed

section \<open>Nibbles and hex-prefix paths\<close>

definition nibble :: "u8 \<Rightarrow> bool" where
  "nibble b \<longleftrightarrow> b < 16"

lemma nibble_bits: "nibble b \<longleftrightarrow> (\<forall>n. 4 \<le> n \<longrightarrow> \<not> bit b n)"
proof -
  have "b < 16 \<longleftrightarrow> take_bit 4 b = b" 
    by (simp add: word_eq_iff_unsigned [where 'a = nat] unsigned_take_bit_eq take_bit_nat_eq_self_iff word_less_nat_alt)
  also have "\<dots> \<longleftrightarrow> (\<forall>n. 4 \<le> n \<longrightarrow> \<not> bit b n)"
    using bit_imp_le_length [of b] by (auto simp: bit_eq_iff bit_take_bit_iff) (metis linorder_not_le)+
  finally show ?thesis by (simp add: nibble_def)
qed

lemma low_nibble: "b AND 0x0f = take_bit 4 (b :: u8)"
  by (simp add: take_bit_eq_mask mask_eq_exp_minus_1)

lemma split_byte [simp]:
  assumes "nibble a" "nibble b"
  shows "drop_bit 4 (push_bit 4 a OR b) = a" "(push_bit 4 a OR b) AND 0x0f = b"
proof -
  have l: "bit x n \<Longrightarrow> n < 4" if "nibble x" for x n using that by (metis nibble_bits linorder_not_le)
  show "drop_bit 4 (push_bit 4 a OR b) = a" using l assms
    by (intro bit_word_eqI) (auto simp: bit_drop_bit_eq bit_or_iff bit_push_bit_iff)
  show "(push_bit 4 a OR b) AND 0x0f = b" using l assms unfolding low_nibble
    by (intro bit_word_eqI) (auto simp: bit_take_bit_iff bit_or_iff bit_push_bit_iff)
qed

lemma nibble_parts [simp]: "nibble (drop_bit 4 b)" "nibble (b AND 0x0f)"
  by (auto simp: nibble_bits bit_drop_bit_eq low_nibble bit_take_bit_iff dest: bit_imp_le_length)

lemma to_nibbles_simps [simp]:
  "length (to_nibbles h) = 2 * length h" "list_all nibble (to_nibbles h)"
  by (induction h) (simp_all add: to_nibbles_def)

lemma hp_pairs_split:
  "list_all nibble ns \<Longrightarrow> even (length ns) \<Longrightarrow> concat (map (\<lambda>b. [drop_bit 4 b, b AND 0x0f]) (hp_pairs ns)) = ns"
  by (induction ns rule: hp_pairs.induct) (simp_all del: drop_bit_or)

lemma hp_decode_encode:
  assumes "list_all nibble ns"
  shows "hp_decode (hp_encode ns leaf) = Inr (leaf, ns)"
proof -
  have n: "nibble 0" "nibble 1" "nibble 2" "nibble 3" by (simp_all add: nibble_def)
  note z = split_byte [OF _ n(1), simplified]
  show ?thesis
  proof (cases "even (length ns)")
    case True
    thus ?thesis using assms n hp_pairs_split [OF assms] z [of 0] z [of 2]
      by (auto simp: hp_encode_def hp_decode_def Let_def simp del: drop_bit_or)
  next
    case False
    then obtain a r where r: "ns = a # r" by (cases ns) auto
    hence a: "nibble a" "list_all nibble r" "even (length r)" using assms False by auto
    thus ?thesis using n hp_pairs_split [of r] split_byte [OF n(4) a(1)] split_byte [OF n(2) a(1)]
      by (auto simp: hp_encode_def hp_decode_def Let_def r odd_iff_mod_2_eq_one [symmetric] simp del: drop_bit_or)
  qed
qed

section \<open>Tries\<close>

text \<open>A trie with its encoding into nodes as the format prescribes it: a child is referred to by its hash, or is
  written in place when its encoding is shorter than a hash.\<close>

datatype trie = TLeaf bytes bytes | TExt bytes trie | TBranch "trie option list" bytes

definition hash_ref :: "(bytes \<Rightarrow> bytes) \<Rightarrow> item \<Rightarrow> item" where
  "hash_ref K it = (let e = rlp_encode it in if length e < 32 then it else RString (K e))"

fun node_item :: "(bytes \<Rightarrow> bytes) \<Rightarrow> trie \<Rightarrow> item" where
  "node_item K (TLeaf path value) = RList [RString (hp_encode path True), RString value]"
| "node_item K (TExt path t) = RList [RString (hp_encode path False), hash_ref K (node_item K t)]"
| "node_item K (TBranch children value) =
    RList (map (\<lambda>c. case c of None \<Rightarrow> RString [] | Some t \<Rightarrow> hash_ref K (node_item K t)) children @ [RString value])"

abbreviation node_bytes :: "(bytes \<Rightarrow> bytes) \<Rightarrow> trie \<Rightarrow> bytes" where
  "node_bytes K t \<equiv> rlp_encode (node_item K t)"

definition trie_root :: "(bytes \<Rightarrow> bytes) \<Rightarrow> trie \<Rightarrow> bytes" where
  "trie_root K t = K (node_bytes K t)"

lemma size_child: "i < length cs \<Longrightarrow> cs ! i = Some t \<Longrightarrow> size t < size_list (size_option size) cs"
  by (induction cs arbitrary: i) (auto simp: nth_Cons split: nat.splits intro: less_SucI trans_less_add2)

function (sequential) trie_lookup :: "trie \<Rightarrow> bytes \<Rightarrow> bytes option" where
  "trie_lookup (TLeaf path value) ns = (if ns = path then Some value else None)"
| "trie_lookup (TExt path t) ns = (if take (length path) ns = path then trie_lookup t (drop (length path) ns) else None)"
| "trie_lookup (TBranch children value) [] = (if value = [] then None else Some value)"
| "trie_lookup (TBranch children value) (n # ns) =
    (if unat n < length children
     then (case children ! unat n of None \<Rightarrow> None | Some t \<Rightarrow> trie_lookup t ns) else None)"
  by pat_completeness auto
termination by (relation "measure (\<lambda>(t, _). size t)") (auto dest: size_child)

text \<open>The encodings of the nodes on a path.\<close>

function (sequential) path_nodes :: "(bytes \<Rightarrow> bytes) \<Rightarrow> trie \<Rightarrow> bytes \<Rightarrow> bytes list" where
  "path_nodes K (TLeaf path value) ns = [node_bytes K (TLeaf path value)]"
| "path_nodes K (TExt path t) ns = node_bytes K (TExt path t) #
    (if take (length path) ns = path then path_nodes K t (drop (length path) ns) else [])"
| "path_nodes K (TBranch children value) [] = [node_bytes K (TBranch children value)]"
| "path_nodes K (TBranch children value) (n # ns) = node_bytes K (TBranch children value) #
    (if unat n < length children
     then (case children ! unat n of None \<Rightarrow> [] | Some t \<Rightarrow> path_nodes K t ns) else [])"
  by pat_completeness auto
termination by (relation "measure (\<lambda>(K, t, _). size t)") (auto dest: size_child)

text \<open>Well-formed tries: paths of nibbles, not empty in an extension, sixteen children in a branch, and nodes
  of a length that fits in a machine word.\<close>

fun trie_ok :: "(bytes \<Rightarrow> bytes) \<Rightarrow> trie \<Rightarrow> bool" where
  "trie_ok K (TLeaf path value) \<longleftrightarrow> list_all nibble path \<and> length (node_bytes K (TLeaf path value)) < 2 ^ 64"
| "trie_ok K (TExt path t) \<longleftrightarrow> path \<noteq> [] \<and> list_all nibble path \<and> trie_ok K t \<and> length (node_bytes K (TExt path t)) < 2 ^ 64"
| "trie_ok K (TBranch children value) \<longleftrightarrow> length children = 16 \<and>
    list_all (\<lambda>c. case c of None \<Rightarrow> True | Some t \<Rightarrow> trie_ok K t) children \<and>
    length (node_bytes K (TBranch children value)) < 2 ^ 64"

lemma trie_ok_size: "trie_ok K t \<Longrightarrow> length (node_bytes K t) < 2 ^ 64"
  by (cases t) simp_all

lemma node_bytes_in_path: "node_bytes K t \<in> set (path_nodes K t ns)"
proof (cases t)
  case (TBranch cs v)
  show ?thesis unfolding TBranch by (cases ns) (simp_all only: path_nodes.simps list.set insertI1)
qed (auto simp del: rlp_encode.simps node_item.simps)

lemma node_item_RList: obtains items where "node_item K t = RList items"
  by (cases t) simp_all

lemma item_depth_less: "item_depth it < length (rlp_encode it)"
proof (induction it)
  case (RString q)
  show ?case by (simp add: encode_string_def encode_length_def Let_def)
next
  case (RList items)
  have "item_depth (RList items) \<le> length (concat (map rlp_encode items))"
    using RList by (induction items) fastforce+
  moreover have "0 < length (encode_length n c)" for n c by (rule encode_length_Cons [of n c]) simp
  ultimately show ?case by (simp add: Let_def add_strict_increasing)
qed

lemma hash_ref_depth: "item_depth (hash_ref K it) < 31"
  using item_depth_less [of it] by (simp add: hash_ref_def Let_def)

lemma node_item_depth: "item_depth (node_item K t) \<le> MAX_DEPTH"
proof -
  have d: "item_depth (RList items) \<le> MAX_DEPTH" if "\<forall>it \<in> set items. item_depth it < 31" for items
    using that item_depth_RList [of 0 items MAX_DEPTH] by (fastforce simp: MAX_DEPTH_def)
  show ?thesis
    by (cases t) (auto simp del: item_depth.simps(2) intro!: d simp: hash_ref_depth split: option.splits)
qed

lemma node_decodes: "trie_ok K t \<Longrightarrow> rlp_decode (node_bytes K t) = Inr (node_item K t)"
  by (rule rlp_decode_encode [OF trie_ok_size node_item_depth])

section \<open>Refinement\<close>

lemma resolve_ref_sound:
  assumes "trie_ok K t" "\<forall>x. length (K x) = 32" "inj_on K (set ns \<union> S)" "node_bytes K t \<in> S"
    and "resolve_ref (hash_ref K (node_item K t)) (node_map_of K ns) = Inr it"
  shows "it = node_item K t"
proof (cases "length (node_bytes K t) < 32")
  case True
  thus ?thesis using assms(5) by (cases rule: node_item_RList [of K t]) (simp add: hash_ref_def resolve_ref_def)
next
  case False
  moreover have "K (node_bytes K t) \<noteq> []" using assms(2) by (metis length_0_conv zero_neq_numeral)
  ultimately obtain b where b: "node_map_of K ns (K (node_bytes K t)) = Some b" "rlp_decode b = Inr it"
    using assms(2,5) by (auto simp: hash_ref_def resolve_ref_def Let_def split: option.splits)
  from node_map_sound [OF b(1)] have "b = node_bytes K t" using assms(3,4) by (auto dest: inj_onD)
  thus ?thesis using b(2) node_decodes [OF assms(1)] by simp
qed

lemma resolve_ref_complete:
  assumes "trie_ok K t" "\<forall>x. length (K x) = 32" "inj_on K (set ns)"
    and "32 \<le> length (node_bytes K t) \<longrightarrow> node_bytes K t \<in> set ns"
  shows "resolve_ref (hash_ref K (node_item K t)) (node_map_of K ns) = Inr (node_item K t)"
proof (cases "length (node_bytes K t) < 32")
  case True
  thus ?thesis by (cases rule: node_item_RList [of K t]) (simp add: hash_ref_def resolve_ref_def)
next
  case False
  moreover have "K (node_bytes K t) \<noteq> []" using assms(2) by (metis length_0_conv zero_neq_numeral)
  ultimately show ?thesis using assms node_decodes [OF assms(1)]
    by (simp add: hash_ref_def resolve_ref_def Let_def node_map_complete)
qed

lemma walk_TLeaf:
  "list_all nibble path \<Longrightarrow> walk (node_item K (TLeaf path value)) ns nodes d =
    (if d > MAX_WALK_DEPTH then Inl Mpt_NestingTooDeep else if ns = path then Inr value else Inl PathMismatch)"
  by (subst walk.simps) (auto simp: as_bytes_def hp_decode_encode Let_def take_all_iff)

lemma walk_TExt:
  "list_all nibble path \<Longrightarrow> walk (node_item K (TExt path t)) ns nodes d =
    (if d > MAX_WALK_DEPTH then Inl Mpt_NestingTooDeep
     else if take (length path) ns \<noteq> path then Inl PathMismatch
     else (case resolve_ref (hash_ref K (node_item K t)) nodes of
        Inl e \<Rightarrow> Inl e | Inr child \<Rightarrow> walk child (drop (length path) ns) nodes (d + 1)))"
  by (subst walk.simps) (simp add: as_bytes_def hp_decode_encode Let_def)

lemma walk_TBranch:
  assumes "length cs = 16"
  shows "walk (node_item K (TBranch cs value)) [] nodes d =
      (if d > MAX_WALK_DEPTH then Inl Mpt_NestingTooDeep else if value = [] then Inl KeyNotFound else Inr value)"
    and "nibble n \<Longrightarrow> walk (node_item K (TBranch cs value)) (n # ns) nodes d =
      (if d > MAX_WALK_DEPTH then Inl Mpt_NestingTooDeep
       else case cs ! unat n of
          None \<Rightarrow> Inl KeyNotFound
        | Some t \<Rightarrow>
            (case resolve_ref (hash_ref K (node_item K t)) nodes of
               Inl e \<Rightarrow> Inl e | Inr child \<Rightarrow> walk child ns nodes (d + 1)))"
proof -
  show "walk (node_item K (TBranch cs value)) [] nodes d =
      (if d > MAX_WALK_DEPTH then Inl Mpt_NestingTooDeep else if value = [] then Inl KeyNotFound else Inr value)"
    using assms by (subst walk.simps) (simp add: nth_append as_bytes_def)
  assume "nibble n"
  hence n: "unat n < 16" by (simp add: nibble_def word_less_nat_alt)
  thus "walk (node_item K (TBranch cs value)) (n # ns) nodes d =
      (if d > MAX_WALK_DEPTH then Inl Mpt_NestingTooDeep
       else case cs ! unat n of
          None \<Rightarrow> Inl KeyNotFound
        | Some t \<Rightarrow>
            (case resolve_ref (hash_ref K (node_item K t)) nodes of
               Inl e \<Rightarrow> Inl e | Inr child \<Rightarrow> walk child ns nodes (d + 1)))"
    using assms by (subst walk.simps) (auto simp: nth_append resolve_ref_def split: option.split)
qed

declare node_item.simps [simp del] rlp_encode.simps [simp del]

lemma walk_sound:
  assumes "trie_ok K t" "list_all nibble ns" "\<forall>x. length (K x) = 32" "inj_on K (set pn \<union> set (path_nodes K t ns))"
    and "walk (node_item K t) ns (node_map_of K pn) d = Inr v"
  shows "trie_lookup t ns = Some v"
  using assms(1,2,4,5)
proof (induction t ns arbitrary: d rule: trie_lookup.induct)
  case (1 path val ns)
  thus ?case by (auto simp: walk_TLeaf split: if_splits)
next
  case (2 path t ns)
  have ok: "trie_ok K t" "list_all nibble path" using "2.prems"(1) by auto
  have pre: "take (length path) ns = path" using "2.prems"(4) ok by (auto simp: walk_TExt split: if_splits)
  let ?S = "set (path_nodes K t (drop (length path) ns))"
  have sub: "set pn \<union> ?S \<subseteq> set pn \<union> set (path_nodes K (TExt path t) ns)" using pre by auto
  obtain child where c: "resolve_ref (hash_ref K (node_item K t)) (node_map_of K pn) = Inr child"
      "walk child (drop (length path) ns) (node_map_of K pn) (d + 1) = Inr v"
    using "2.prems"(4) ok by (auto simp: walk_TExt split: if_splits sum.splits)
  have "child = node_item K t"
    by (rule resolve_ref_sound [OF ok(1) assms(3) inj_on_subset [OF "2.prems"(3) sub] node_bytes_in_path c(1)])
  hence "trie_lookup t (drop (length path) ns) = Some v"
    using "2.IH" [OF pre ok(1) _ inj_on_subset [OF "2.prems"(3) sub]] c(2) "2.prems"(2) by (simp add: list.pred_set) (meson in_set_dropD)
  thus ?case using pre by simp
next
  case (3 cs val)
  thus ?case by (auto simp: walk_TBranch split: if_splits)
next
  case (4 cs val n ns)
  have cs: "length cs = 16" and n: "nibble n" using "4.prems"(1,2) by auto
  have lt: "unat n < length cs" using n cs by (simp add: nibble_def word_less_nat_alt)
  obtain t child where c: "cs ! unat n = Some t" "resolve_ref (hash_ref K (node_item K t)) (node_map_of K pn) = Inr child"
      "walk child ns (node_map_of K pn) (d + 1) = Inr v"
    using "4.prems"(4) by (auto simp: walk_TBranch(2) [OF cs n] split: if_splits option.splits sum.splits)
  have sub: "set pn \<union> set (path_nodes K t ns) \<subseteq> set pn \<union> set (path_nodes K (TBranch cs val) (n # ns))"
    using c(1) lt by auto
  have ok: "trie_ok K t" using "4.prems"(1) lt c(1) by (fastforce simp: list_all_length)
  have "child = node_item K t"
    by (rule resolve_ref_sound [OF ok assms(3) inj_on_subset [OF "4.prems"(3) sub] node_bytes_in_path c(2)])
  thus ?case using "4.IH" [OF lt c(1) ok _ inj_on_subset [OF "4.prems"(3) sub]] c lt "4.prems"(2) by simp
qed

lemma walk_complete:
  assumes "trie_ok K t" "list_all nibble ns" "\<forall>x. length (K x) = 32" "inj_on K (set pn)"
    and "\<forall>e \<in> set (path_nodes K t ns). 32 \<le> length e \<longrightarrow> e \<in> set pn"
    and "d + length ns \<le> MAX_WALK_DEPTH" "trie_lookup t ns = Some v"
  shows "walk (node_item K t) ns (node_map_of K pn) d = Inr v"
  using assms(1,2,5-7)
proof (induction t ns arbitrary: d rule: trie_lookup.induct)
  case (1 path val ns)
  thus ?case by (auto simp: walk_TLeaf split: if_splits)
next
  case (2 path t ns)
  have ok: "trie_ok K t" "list_all nibble path" "path \<noteq> []" using "2.prems"(1) by auto
  have pre: "take (length path) ns = path" "trie_lookup t (drop (length path) ns) = Some v"
    using "2.prems"(5) by (auto split: if_splits)
  have nodes: "\<forall>e \<in> set (path_nodes K t (drop (length path) ns)). 32 \<le> length e \<longrightarrow> e \<in> set pn"
    using "2.prems"(3) pre by simp
  have len: "0 < length path" "length path \<le> length ns" using ok(3) arg_cong [OF pre(1), of length] by auto
  have "resolve_ref (hash_ref K (node_item K t)) (node_map_of K pn) = Inr (node_item K t)"
    using nodes node_bytes_in_path by (intro resolve_ref_complete [OF ok(1) assms(3,4)]) blast
  moreover have "d + 1 + length (drop (length path) ns) \<le> MAX_WALK_DEPTH" using "2.prems"(4) len unfolding length_drop by linarith
  hence "walk (node_item K t) (drop (length path) ns) (node_map_of K pn) (d + 1) = Inr v"
    using "2.prems"(2) by (intro "2.IH" [OF pre(1) ok(1) _ nodes _ pre(2)]) (auto simp: list.pred_set dest: in_set_dropD)
  ultimately show ?case using pre(1) ok(2) "2.prems"(4) by (simp add: walk_TExt)
next
  case (3 cs val)
  thus ?case by (auto simp: walk_TBranch split: if_splits)
next
  case (4 cs val n ns)
  have cs: "length cs = 16" and n: "nibble n" using "4.prems"(1,2) by auto
  have lt: "unat n < length cs" using n cs by (simp add: nibble_def word_less_nat_alt)
  obtain t where t: "cs ! unat n = Some t" "trie_lookup t ns = Some v" using "4.prems"(5) by (auto split: if_splits option.splits)
  have ok: "trie_ok K t" using "4.prems"(1) lt t(1) by (fastforce simp: list_all_length)
  have nodes: "\<forall>e \<in> set (path_nodes K t ns). 32 \<le> length e \<longrightarrow> e \<in> set pn"
    using "4.prems"(3) t lt by simp
  have "resolve_ref (hash_ref K (node_item K t)) (node_map_of K pn) = Inr (node_item K t)"
    using nodes node_bytes_in_path by (intro resolve_ref_complete [OF ok assms(3,4)]) blast
  moreover have "walk (node_item K t) ns (node_map_of K pn) (d + 1) = Inr v"
    using "4.prems"(2,4) by (intro "4.IH" [OF lt t(1) ok _ nodes _ t(2)]) auto
  ultimately show ?case using t(1) "4.prems"(4) by (simp add: walk_TBranch(2) [OF cs n])
qed

lemma resolve_ref_agree:
  assumes "inj_on K (set ns \<union> set ms)"
    and "resolve_ref r (node_map_of K ns) = Inr a" "resolve_ref r (node_map_of K ms) = Inr b"
  shows "a = b"
proof -
  have "x = y" if "node_map_of K ns h = Some x" "node_map_of K ms h = Some y" for h x y
    using node_map_sound [OF that(1)] node_map_sound [OF that(2)] assms(1) by (auto dest: inj_onD)
  thus ?thesis using assms(2,3) by (fastforce simp: resolve_ref_def split: item.splits if_splits option.splits)
qed

lemma walk_Inr:
  assumes "walk it path nodes d = Inr v"
  obtains (leaf) items pb np where "it = RList items" "length items = 2" "as_bytes (items ! 0) = Inr pb"
      "hp_decode pb = Inr (True, np)" "as_bytes (items ! 1) = Inr v" "d \<le> MAX_WALK_DEPTH"
  | (extension) items pb np child where "it = RList items" "length items = 2" "as_bytes (items ! 0) = Inr pb"
      "hp_decode pb = Inr (False, np)" "resolve_ref (items ! 1) nodes = Inr child"
      "walk child (drop (length np) path) nodes (d + 1) = Inr v" "d \<le> MAX_WALK_DEPTH"
  | (end_of_path) items where "it = RList items" "length items = 17" "path = []" "as_bytes (items ! 16) = Inr v" "d \<le> MAX_WALK_DEPTH"
  | (branch) items n rest child where "it = RList items" "length items = 17" "path = n # rest"
      "resolve_ref (items ! unat n) nodes = Inr child" "walk child rest nodes (d + 1) = Inr v" "d \<le> MAX_WALK_DEPTH"
proof -
  have "d \<le> MAX_WALK_DEPTH" using assms by (subst (asm) walk.simps) (auto split: if_splits)
  thus ?thesis using assms leaf extension end_of_path branch
    by (subst (asm) walk.simps) (auto simp: Let_def split: if_splits item.splits sum.splits list.splits prod.splits bool.splits)
qed

lemma walk_agree:
  assumes "inj_on K (set ns \<union> set ms)"
    and "walk it path (node_map_of K ns) d = Inr a" "walk it path (node_map_of K ms) d = Inr b"
  shows "a = b"
  using assms(2,3)
proof (induction "MAX_WALK_DEPTH + 1 - d" arbitrary: it path d)
  case 0
  thus ?case by (auto elim: walk_Inr)
next
  case (Suc k)
  note agree = resolve_ref_agree [OF assms(1)]
  have k: "k = MAX_WALK_DEPTH + 1 - (d + 1)" using Suc.hyps(2) by simp
  note IH = Suc.hyps(1) [OF k]
  from Suc.prems(1) show ?case
  proof (cases rule: walk_Inr)
    case (leaf items pb np)
    from Suc.prems(2) show ?thesis by (cases rule: walk_Inr) (use leaf in simp_all)
  next
    case (extension items pb np child)
    from Suc.prems(2) show ?thesis
    proof (cases rule: walk_Inr)
      case ext2: (extension items' pb' np' child')
      hence "child' = child" "np' = np" using extension agree [of "items ! 1" child child'] by auto
      thus ?thesis using IH extension(6) ext2(6) by simp
    qed (use extension in simp_all)
  next
    case (end_of_path items)
    from Suc.prems(2) show ?thesis by (cases rule: walk_Inr) (use end_of_path in simp_all)
  next
    case (branch items n rest child)
    from Suc.prems(2) show ?thesis
    proof (cases rule: walk_Inr)
      case b2: (branch items' n' rest' child')
      hence "child' = child" "rest' = rest" using branch agree [of "items ! unat n" child child'] by auto
      thus ?thesis using IH branch(5) b2(5) by simp
    qed (use branch in simp_all)
  qed
qed

section \<open>Properties\<close>

text \<open>The hash with which the statements below are instantiated: 32 bytes that tell strings of different
  lengths apart.  The trie has an extension over a branch over a leaf, each referred to by its hash.\<close>

definition length_hash :: "bytes \<Rightarrow> bytes" where
  "length_hash bs = replicate 32 (of_nat (length bs))"

definition demo_path :: bytes where
  "demo_path = to_nibbles (length_hash [0x80])"

definition demo_trie :: trie where
  "demo_trie = TExt [0] (TBranch ([None, Some (TLeaf (drop 2 demo_path) [1, 2, 3])] @ replicate 14 None) [])"

definition demo_nodes :: "bytes list" where
  "demo_nodes = path_nodes length_hash demo_trie demo_path"

lemma length_hp_pairs: "length (hp_pairs ns) = length ns div 2"
  by (induction ns rule: hp_pairs.induct) simp_all

lemma length_hp_encode: "length (hp_encode ns leaf) = length ns div 2 + 1"
proof -
  have "(length ns - Suc 0) div 2 = length ns div 2" if "length ns mod 2 = Suc 0" using that by presburger
  thus ?thesis by (simp add: hp_encode_def length_hp_pairs Let_def)
qed

lemma length_encode_string: "length bs \<noteq> 1 \<Longrightarrow> length bs < 56 \<Longrightarrow> length (encode_string bs) = length bs + 1"
  by (simp add: encode_string_def encode_length_def)

lemma length_encode_list:
  "length (concat (map rlp_encode items)) < 56 \<Longrightarrow> length (rlp_encode (RList items)) = length (concat (map rlp_encode items)) + 1"
  by (simp add: rlp_encode.simps encode_length_def Let_def)

lemma demo_path_simps: "length demo_path = 64" "list_all nibble demo_path" "take 2 demo_path = [0, 1]"
proof -
  show "length demo_path = 64" "list_all nibble demo_path" by (simp_all add: demo_path_def length_hash_def)
  have "length_hash [0x80] = 1 # replicate 31 1" by (simp add: length_hash_def numeral_eq_Suc)
  thus "take 2 demo_path = [0, 1]" by (simp add: demo_path_def to_nibbles_def numeral_2_eq_2)
qed

lemma demo_facts:
  "map length demo_nodes = [35, 50, 38]" "trie_ok length_hash demo_trie" "trie_lookup demo_trie demo_path = Some [1, 2, 3]"
proof -
  let ?leaf = "TLeaf (drop 2 demo_path) [1, 2, 3]"
  let ?branch = "TBranch ([None, Some ?leaf] @ replicate 14 None) []"
  have path: "demo_path = 0 # 1 # drop 2 demo_path" using append_take_drop_id [of 2 demo_path] by (simp add: demo_path_simps)
  have hash: "length (encode_string (length_hash e)) = 33" for e by (simp add: length_encode_string length_hash_def)
  have l: "length (node_bytes length_hash ?leaf) = 38"
    by (simp add: node_item.simps length_encode_list rlp_encode.simps(1) length_encode_string length_hp_encode demo_path_simps)
  have b: "length (node_bytes length_hash ?branch) = 50"
    by (simp add: node_item.simps(3) hash_ref_def l length_encode_list rlp_encode.simps(1) hash length_encode_string
        length_concat sum_list_replicate)
  have e: "length (node_bytes length_hash demo_trie) = 35" unfolding demo_trie_def
    by (simp add: node_item.simps(2) hash_ref_def b [simplified] length_encode_list rlp_encode.simps(1) hash
        encode_string_def [of "[16]"] hp_encode_def Let_def)
  show "map length demo_nodes = [35, 50, 38]"
    using e b l unfolding demo_nodes_def demo_trie_def by (subst path) simp
  have "list_all nibble (drop 2 demo_path)" using demo_path_simps(2) by (subst (asm) path) simp
  moreover have "nibble 0" by (simp add: nibble_def)
  ultimately show "trie_ok length_hash demo_trie" using e b l by (simp add: demo_trie_def list.pred_set)
  show "trie_lookup demo_trie demo_path = Some [1, 2, 3]" by (subst path) (simp add: demo_trie_def)
qed

lemma demo_inj: "inj_on length_hash (set demo_nodes)"
proof -
  have "distinct (map length demo_nodes)" "\<forall>n \<in> set (map length demo_nodes). n < 256" by (simp_all add: demo_facts(1))
  hence "inj_on length (set demo_nodes)" "\<forall>e \<in> set demo_nodes. length e < 256" by (auto simp: distinct_map)
  moreover have "length a = length b" if "length_hash a = length_hash b" "length a < 256" "length b < 256" for a b
  proof -
    have "unat (of_nat (length a) :: u8) = unat (of_nat (length b) :: u8)" using that(1) by (simp add: length_hash_def)
    thus ?thesis using that(2,3) by (simp add: unsigned_of_nat take_bit_nat_eq_self)
  qed
  ultimately show ?thesis unfolding inj_on_def by blast
qed

lemma verify_complete:
  assumes "trie_ok K t" "\<forall>x. length (K x) = 32" "inj_on K (set pn)"
    and "trie_lookup t (to_nibbles (K key)) = Some v" "node_bytes K t \<in> set pn"
    and "\<forall>e \<in> set (path_nodes K t (to_nibbles (K key))). 32 \<le> length e \<longrightarrow> e \<in> set pn"
  shows "verify K pn (trie_root K t) key = Inr v"
proof -
  have "0 + length (to_nibbles (K key)) \<le> MAX_WALK_DEPTH" using assms(2) by (simp add: MAX_WALK_DEPTH_def)
  from walk_complete [OF assms(1) _ assms(2,3,6) this assms(4)] show ?thesis
    by (simp add: verify_def trie_root_def node_map_complete [OF assms(3,5)] node_decodes [OF assms(1)])
qed

lemma verify_sound:
  assumes "trie_ok K t" "\<forall>x. length (K x) = 32" "inj_on K (set pn \<union> set (path_nodes K t (to_nibbles (K key))))"
    and "verify K pn (trie_root K t) key = Inr v"
  shows "trie_lookup t (to_nibbles (K key)) = Some v"
proof -
  let ?ns = "to_nibbles (K key)"
  obtain b it where b: "node_map_of K pn (trie_root K t) = Some b" "rlp_decode b = Inr it"
      "walk it ?ns (node_map_of K pn) 0 = Inr v"
    using assms(4) by (auto simp: verify_def Let_def split: option.splits sum.splits)
  from node_map_sound [OF b(1)] have "b = node_bytes K t"
    using assms(3) node_bytes_in_path [of K t ?ns] by (auto simp: trie_root_def dest: inj_onD)
  hence "it = node_item K t" using b(2) node_decodes [OF assms(1)] by simp
  thus ?thesis using walk_sound [OF assms(1) _ assms(2,3)] b(3) by simp
qed

lemma demo_verifies:
  assumes "set nodes = set demo_nodes"
  shows "verify length_hash nodes (trie_root length_hash demo_trie) [0x80] = Inr [1, 2, 3]"
proof (rule verify_complete [OF demo_facts(2)])
  show "node_bytes length_hash demo_trie \<in> set nodes" unfolding assms demo_nodes_def by (rule node_bytes_in_path)
qed (use assms demo_facts(3) demo_inj in \<open>simp_all add: length_hash_def demo_nodes_def demo_path_def\<close>)

text \<open>C34: The verifier implements lookup in the trie that the root commits to.  Under the root of a well-formed
  trie, for a 32-byte hash that does not collide on the nodes involved, whatever nodes a prover supplies, a value
  that is accepted for a key is the value the trie holds there; and when the trie holds a value, the nodes on its
  path are a proof that is accepted, well within the depth limit.\<close>

theorem mpt_verify_refines_trie:
  assumes "trie_ok K t" "\<forall>x. length (K x) = 32"
    and "inj_on K (set proof_nodes \<union> set (path_nodes K t (to_nibbles (K key))))"
  shows "(verify K proof_nodes (trie_root K t) key = Inr v \<longrightarrow> trie_lookup t (to_nibbles (K key)) = Some v) \<and>
    (trie_lookup t (to_nibbles (K key)) = Some v \<longrightarrow> node_bytes K t \<in> set proof_nodes \<longrightarrow>
     (\<forall>e \<in> set (path_nodes K t (to_nibbles (K key))). 32 \<le> length e \<longrightarrow> e \<in> set proof_nodes) \<longrightarrow>
     verify K proof_nodes (trie_root K t) key = Inr v)"
  using verify_sound [OF assms] verify_complete [OF assms(1,2) inj_on_subset [OF assms(3)]] by blast

theorem mpt_verify_refines_trie_witness:
  "verify length_hash demo_nodes (trie_root length_hash demo_trie) [0x80] = Inr [1, 2, 3]"
proof -
  have "node_bytes length_hash demo_trie \<in> set demo_nodes" unfolding demo_nodes_def by (rule node_bytes_in_path)
  moreover have "\<forall>x. length (length_hash x) = 32" by (simp add: length_hash_def)
  ultimately show ?thesis
    using mpt_verify_refines_trie [of length_hash demo_trie demo_nodes "[0x80]" "[1, 2, 3]"] demo_facts demo_inj
    by (simp add: demo_nodes_def demo_path_def)
qed

text \<open>Proofs agree.  Two proofs, of whatever nodes, that are accepted under the same root for the same key show
  the same value, unless the hash collides on their nodes; this does not depend on how the root was built.\<close>

theorem mpt_proofs_agree:
  assumes "inj_on K (set nodes \<union> set nodes')"
    and "verify K nodes root key = Inr v" "verify K nodes' root key = Inr v'"
  shows "v = v'"
proof -
  obtain b it b' it' where b: "node_map_of K nodes root = Some b" "rlp_decode b = Inr it"
      "walk it (to_nibbles (K key)) (node_map_of K nodes) 0 = Inr v"
    and b': "node_map_of K nodes' root = Some b'" "rlp_decode b' = Inr it'"
      "walk it' (to_nibbles (K key)) (node_map_of K nodes') 0 = Inr v'"
    using assms(2,3) by (auto simp: verify_def Let_def split: option.splits sum.splits)
  have "b = b'" using node_map_sound [OF b(1)] node_map_sound [OF b'(1)] assms(1) by (auto dest: inj_onD)
  hence "it' = it" using b(2) b'(2) by simp
  thus ?thesis using walk_agree [OF assms(1) b(3)] b'(3) by simp
qed

theorem mpt_proofs_agree_witness:
  "\<exists>v. verify length_hash demo_nodes (trie_root length_hash demo_trie) [0x80] = Inr v \<and>
     verify length_hash (rev demo_nodes) (trie_root length_hash demo_trie) [0x80] = Inr v"
proof -
  note complete = demo_verifies [of demo_nodes] demo_verifies [of "rev demo_nodes"]
  then obtain v v' where v: "verify length_hash demo_nodes (trie_root length_hash demo_trie) [0x80] = Inr v"
      "verify length_hash (rev demo_nodes) (trie_root length_hash demo_trie) [0x80] = Inr v'" by auto
  moreover have "inj_on length_hash (set demo_nodes \<union> set (rev demo_nodes))" using demo_inj by simp
  from mpt_proofs_agree [OF this v] have "v = v'" .
  ultimately show ?thesis by blast
qed

end
