(* ===== verification/Evm_Receipt.thy ===== *)
theory Evm_Receipt
  imports Mpt
begin

text \<open>
  Ethereum block headers and receipts as the bridge reads them: \<open>src/cross_domain/evm/header.rs\<close> (the front
  fields of a header, the chain of confirmations) and \<open>src/cross_domain/evm/receipt.rs\<close> (status and
  logs of a receipt, the search for a deposit log).  An addition that overflows aborts the node, the
  value \<open>None\<close>.
\<close>

section \<open>Error texts\<close>

fun rlp_error_text :: "rlp_error \<Rightarrow> string" where
  "rlp_error_text UnexpectedEof = ''rlp: unexpected end of input''"
| "rlp_error_text InvalidLengthPrefix = ''rlp: invalid length prefix''"
| "rlp_error_text NonCanonical = ''rlp: non-canonical encoding''"
| "rlp_error_text TrailingBytes = ''rlp: trailing bytes after item''"
| "rlp_error_text NestingTooDeep = ''rlp: nesting too deep''"

text \<open>\<open>iter().map(f).collect::<Result<Vec<_>, _>>()\<close>: the first error ends the iteration.\<close>

fun collect_results :: "('a \<Rightarrow> 'e + 'b) \<Rightarrow> 'a list \<Rightarrow> 'e + 'b list" where
  "collect_results f [] = Inr []"
| "collect_results f (x # xs) =
    (case f x of
       Inl e \<Rightarrow> Inl e
     | Inr y \<Rightarrow> (case collect_results f xs of Inl e \<Rightarrow> Inl e | Inr ys \<Rightarrow> Inr (y # ys)))"

lemma collect_results_Inr: "collect_results f xs = Inr ys \<longleftrightarrow> list_all2 (\<lambda>x y. f x = Inr y) xs ys"
proof (induction xs arbitrary: ys)
  case (Cons x xs)
  show ?case by (cases "f x"; cases "collect_results f xs") (auto simp: list_all2_Cons1 simp flip: Cons)
qed auto

section \<open>Headers\<close>

record eth_header =
  h_parent_hash :: bytes
  h_number :: u64
  h_state_root :: bytes
  h_receipts_root :: bytes
  h_hash :: bytes

datatype header_error = Header_Rlp rlp_error | InvalidHeader | ChainBroken | InsufficientConfirmations

fun header_error_text :: "header_error \<Rightarrow> string" where
  "header_error_text (Header_Rlp e) = ''header rlp error: '' @ rlp_error_text e"
| "header_error_text InvalidHeader = ''header: invalid structure''"
| "header_error_text ChainBroken = ''header: chain broken''"
| "header_error_text InsufficientConfirmations = ''header: insufficient confirmations''"

definition DEFAULT_CONFIRMATIONS :: u32 where
  "DEFAULT_CONFIRMATIONS = 64"

definition arr32 :: "bytes \<Rightarrow> header_error + bytes" where
  "arr32 b = (if length b \<noteq> 32 then Inl InvalidHeader else Inr b)"

text \<open>\<open>arr32(rlp::as_bytes(item)?)?\<close>\<close>

definition hash_field :: "item \<Rightarrow> header_error + bytes" where
  "hash_field it = (case as_bytes it of Inl e \<Rightarrow> Inl (Header_Rlp e) | Inr b \<Rightarrow> arr32 b)"

definition decode_header :: "(bytes \<Rightarrow> bytes) \<Rightarrow> bytes \<Rightarrow> header_error + eth_header" where
  "decode_header K raw =
    (case rlp_decode raw of
       Inl e \<Rightarrow> Inl (Header_Rlp e)
     | Inr (RString _) \<Rightarrow> Inl InvalidHeader
     | Inr (RList lst) \<Rightarrow>
         if length lst < 9 then Inl InvalidHeader
         else (case hash_field (lst ! 0) of
                 Inl e \<Rightarrow> Inl e
               | Inr parent_hash \<Rightarrow>
             (case hash_field (lst ! 3) of
                 Inl e \<Rightarrow> Inl e
               | Inr state_root \<Rightarrow>
             (case hash_field (lst ! 5) of
                 Inl e \<Rightarrow> Inl e
               | Inr receipts_root \<Rightarrow>
             (case decode_uint (lst ! 8) of
                 Inl e \<Rightarrow> Inl (Header_Rlp e)
               | Inr number \<Rightarrow>
                   Inr \<lparr>h_parent_hash = parent_hash, h_number = number, h_state_root = state_root,
                        h_receipts_root = receipts_root, h_hash = K raw\<rparr>)))))"

fun chain_loop :: "bytes \<Rightarrow> u64 \<Rightarrow> eth_header list \<Rightarrow> (header_error + unit) option" where
  "chain_loop prev_hash prev_number [] = Some (Inr ())"
| "chain_loop prev_hash prev_number (hdr # hdrs) =
    (if h_parent_hash hdr \<noteq> prev_hash then Some (Inl ChainBroken)
     else case checked_add prev_number 1 of
       None \<Rightarrow> None
     | Some n \<Rightarrow>
         if h_number hdr \<noteq> n then Some (Inl ChainBroken) else chain_loop (h_hash hdr) (h_number hdr) hdrs)"

definition verify_chain :: "eth_header \<Rightarrow> eth_header list \<Rightarrow> u32 \<Rightarrow> (header_error + unit) option" where
  "verify_chain target confirmations required =
    (if of_nat (length confirmations) < required then Some (Inl InsufficientConfirmations)
     else chain_loop (h_hash target) (h_number target) confirmations)"

section \<open>Receipts\<close>

record eth_log =
  log_address :: bytes
  log_topics :: "bytes list"
  log_data :: bytes

record eth_receipt =
  rcpt_status :: bool
  rcpt_logs :: "eth_log list"

datatype receipt_error = Receipt_Rlp rlp_error | InvalidEnvelope | InvalidLog

definition decode_status :: "bytes \<Rightarrow> receipt_error + bool" where
  "decode_status b =
    (if length b = 0 then Inr False
     else if length b = 1 then Inr (b ! 0 \<noteq> 0)
     else if length b = 32 then Inr True
     else Inl InvalidEnvelope)"

definition receipt_bytes :: "item \<Rightarrow> receipt_error + bytes" where
  "receipt_bytes it = (case as_bytes it of Inl e \<Rightarrow> Inl (Receipt_Rlp e) | Inr b \<Rightarrow> Inr b)"

definition decode_topic :: "item \<Rightarrow> receipt_error + bytes" where
  "decode_topic t =
    (case receipt_bytes t of
       Inl e \<Rightarrow> Inl e
     | Inr tb \<Rightarrow> if length tb \<noteq> 32 then Inl InvalidLog else Inr tb)"

definition decode_log :: "item \<Rightarrow> receipt_error + eth_log" where
  "decode_log log_item =
    (case log_item of
       RString _ \<Rightarrow> Inl InvalidLog
     | RList lst \<Rightarrow>
         if length lst \<noteq> 3 then Inl InvalidLog
         else (case receipt_bytes (lst ! 0) of
                 Inl e \<Rightarrow> Inl e
               | Inr address \<Rightarrow>
             (case lst ! 1 of
                 RString _ \<Rightarrow> Inl InvalidLog
               | RList ts \<Rightarrow>
             (case collect_results decode_topic ts of
                 Inl e \<Rightarrow> Inl e
               | Inr topics \<Rightarrow>
             (case receipt_bytes (lst ! 2) of
                 Inl e \<Rightarrow> Inl e
               | Inr data \<Rightarrow> Inr \<lparr>log_address = address, log_topics = topics, log_data = data\<rparr>)))))"

definition decode_logs :: "item \<Rightarrow> receipt_error + eth_log list" where
  "decode_logs it = (case it of RString _ \<Rightarrow> Inl InvalidLog | RList logs \<Rightarrow> collect_results decode_log logs)"

definition decode_receipt :: "bytes \<Rightarrow> receipt_error + eth_receipt" where
  "decode_receipt envelope =
    (case envelope of
       [] \<Rightarrow> Inl InvalidEnvelope
     | first # tail \<Rightarrow>
         (let payload = (if first \<ge> 0xc0 then envelope else tail)
          in case rlp_decode payload of
               Inl e \<Rightarrow> Inl (Receipt_Rlp e)
             | Inr (RString _) \<Rightarrow> Inl InvalidEnvelope
             | Inr (RList lst) \<Rightarrow>
                 if length lst < 4 then Inl InvalidEnvelope
                 else (case receipt_bytes (lst ! 0) of
                         Inl e \<Rightarrow> Inl e
                       | Inr sb \<Rightarrow>
                     (case decode_status sb of
                         Inl e \<Rightarrow> Inl e
                       | Inr status \<Rightarrow>
                     (case decode_logs (lst ! 3) of
                         Inl e \<Rightarrow> Inl e
                       | Inr logs \<Rightarrow> Inr \<lparr>rcpt_status = status, rcpt_logs = logs\<rparr>)))))"

definition find_log :: "eth_receipt \<Rightarrow> bytes \<Rightarrow> bytes \<Rightarrow> eth_log option" where
  "find_log receipt emitter topic0 =
    find (\<lambda>log. log_address log = emitter \<and>
        (case log_topics log of [] \<Rightarrow> False | t # _ \<Rightarrow> t = topic0)) (rcpt_logs receipt)"

section \<open>The chain of confirmations\<close>

text \<open>Headers in sequence: each names its predecessor by hash and counts one more.\<close>

fun linked :: "eth_header \<Rightarrow> eth_header list \<Rightarrow> bool" where
  "linked prev [] \<longleftrightarrow> True"
| "linked prev (hdr # hdrs) \<longleftrightarrow>
    h_parent_hash hdr = h_hash prev \<and> unat (h_number hdr) = unat (h_number prev) + 1 \<and> linked hdr hdrs"

lemma chain_loop_linked: "chain_loop (h_hash prev) (h_number prev) hdrs = Some (Inr ()) \<longleftrightarrow> linked prev hdrs"
proof (induction hdrs arbitrary: prev)
  case (Cons hdr hdrs)
  have "checked_add (h_number prev) 1 = Some (h_number hdr) \<longleftrightarrow> unat (h_number hdr) = unat (h_number prev) + 1"
  proof
    assume "unat (h_number hdr) = unat (h_number prev) + 1"
    moreover from this have "unat (h_number prev) + 1 < 2 ^ 64" using unsigned_less [of "h_number hdr", where 'a = nat] by simp
    ultimately show "checked_add (h_number prev) 1 = Some (h_number hdr)"
      by (simp add: checked_add_def word_eq_iff_unsigned [where 'a = nat] unat_add_small)
  qed (auto simp: result_simps unat_add_small)
  thus ?case using Cons [of hdr] by (auto split: option.splits)
qed simp

lemma verify_chain_Inr:
  "verify_chain target confs required = Some (Inr ()) \<longleftrightarrow> required \<le> of_nat (length confs) \<and> linked target confs"
  using chain_loop_linked [of target confs] by (auto simp: verify_chain_def not_less)

lemma linked_numbers: "linked prev hdrs \<Longrightarrow> i < length hdrs \<Longrightarrow> unat (h_number (hdrs ! i)) = unat (h_number prev) + 1 + i"
proof (induction hdrs arbitrary: prev i)
  case (Cons hdr hdrs)
  thus ?case by (cases i) auto
qed simp

section \<open>Reading what was written\<close>

text \<open>An upper bound on the length of an encoding: every prefix has at most nine bytes.\<close>

fun item_size :: "item \<Rightarrow> nat" where
  "item_size (RString b) = length b + 9"
| "item_size (RList items) = sum_list (map item_size items) + 9"

lemma length_encode_length: "length (encode_length n c) \<le> 9"
  using trim_simps(2) [of "of_nat n"] by (simp add: encode_length_def Let_def)

lemma length_rlp_encode: "length (rlp_encode it) \<le> item_size it"
proof (induction it)
  case (RString b)
  show ?case using length_encode_length [of "length b" "0x80"] by (simp add: encode_string_def rlp_encode.simps)
next
  case (RList items)
  have "length (concat (map rlp_encode items)) \<le> sum_list (map item_size items)"
    using RList by (induction items) (auto simp: add_mono)
  moreover have "length (encode_length n c) \<le> 9" for n c by (rule length_encode_length)
  ultimately show ?case by (simp add: Let_def rlp_encode.simps add.commute add_mono)
qed

lemma rlp_decode_small: "item_size it < 2 ^ 64 \<Longrightarrow> item_depth it \<le> MAX_DEPTH \<Longrightarrow> rlp_decode (rlp_encode it) = Inr it"
  using length_rlp_encode [of it] by (intro rlp_decode_encode) auto

lemma rlp_encode_RList_first:
  assumes "item_size (RList items) < 2 ^ 64"
  obtains first tail where "rlp_encode (RList items) = first # tail" "first \<ge> 0xc0"
proof -
  let ?p = "concat (map rlp_encode items)"
  obtain f t where e: "encode_length (length ?p) 0xc0 = f # t" by (rule encode_length_Cons)
  have "length ?p < 2 ^ 64" using assms length_rlp_encode [of "RList items"] by (simp add: rlp_encode.simps Let_def)
  hence "192 \<le> unat f" using encode_length_first [OF _ _ e] by (cases "length ?p < 56") auto
  thus ?thesis using that [of f "t @ ?p"] e by (simp add: rlp_encode.simps Let_def word_le_nat_alt)
qed

definition header_item :: "bytes \<Rightarrow> u64 \<Rightarrow> bytes \<Rightarrow> item" where
  "header_item parent number receipts_root = RList
    [RString parent, RString (replicate 32 0), RString (replicate 20 0), RString (replicate 32 0),
     RString (replicate 32 0), RString receipts_root, RString (replicate 256 0), RString [],
     RString (trim_leading_zeros_u64 number)]"

lemma decode_header_item:
  assumes "length parent = 32" "length root = 32"
  shows "decode_header K (rlp_encode (header_item parent number root)) = Inr
    \<lparr>h_parent_hash = parent, h_number = number, h_state_root = replicate 32 0, h_receipts_root = root,
     h_hash = K (rlp_encode (header_item parent number root))\<rparr>"
proof -
  have t: "trim_leading_zeros_u64 number = trim_leading_zeros number"
    by (simp add: trim_leading_zeros_u64_def trim_leading_zeros_def)
  have "length (trim_leading_zeros number) < 9" using trim_simps(2) [of number] by linarith
  hence "item_size (header_item parent number root) < 2 ^ 64" using assms unfolding header_item_def t by simp
  hence "rlp_decode (rlp_encode (header_item parent number root)) = Inr (header_item parent number root)"
    by (rule rlp_decode_small) (simp add: header_item_def MAX_DEPTH_def)
  thus ?thesis using assms decode_uint_trim [of number]
    by (simp add: decode_header_def hash_field_def arr32_def as_bytes_def header_item_def)
qed

definition log_item :: "bytes \<Rightarrow> bytes \<Rightarrow> bytes \<Rightarrow> item" where
  "log_item address topic0 data = RList [RString address, RList [RString topic0], RString data]"

definition receipt_item :: "item list \<Rightarrow> item" where
  "receipt_item logs = RList [RString [1], RString [], RString (replicate 256 0), RList logs]"

lemma decode_receipt_item:
  assumes "length topic0 = 32" "length address + length data < 2 ^ 63"
  shows "decode_receipt (rlp_encode (receipt_item [log_item address topic0 data])) =
    Inr \<lparr>rcpt_status = True, rcpt_logs = [\<lparr>log_address = address, log_topics = [topic0], log_data = data\<rparr>]\<rparr>"
proof -
  let ?r = "receipt_item [log_item address topic0 data]"
  have s: "item_size ?r < 2 ^ 64" using assms by (simp add: receipt_item_def log_item_def)
  hence d: "rlp_decode (rlp_encode ?r) = Inr ?r"
    by (rule rlp_decode_small) (simp add: receipt_item_def log_item_def MAX_DEPTH_def)
  obtain first tail where f: "rlp_encode ?r = first # tail" "first \<ge> 0xc0"
    using rlp_encode_RList_first s unfolding receipt_item_def by blast
  have l: "decode_log (log_item address topic0 data) = Inr \<lparr>log_address = address, log_topics = [topic0], log_data = data\<rparr>"
    using assms(1) by (simp add: decode_log_def log_item_def receipt_bytes_def as_bytes_def decode_topic_def)
  show ?thesis using d f l
    by (simp add: decode_receipt_def receipt_item_def receipt_bytes_def as_bytes_def decode_status_def decode_logs_def)
qed

lemma find_log_Some:
  assumes "find_log receipt emitter topic0 = Some log"
  shows "log \<in> set (rcpt_logs receipt) \<and> log_address log = emitter \<and> (\<exists>ts. log_topics log = topic0 # ts)"
proof -
  have "log \<in> set (rcpt_logs receipt)" "log_address log = emitter" "case log_topics log of [] \<Rightarrow> False | t # _ \<Rightarrow> t = topic0"
    using assms unfolding find_log_def find_Some_iff by auto
  thus ?thesis by (cases "log_topics log") auto
qed

end
