(* ===== verification/Message.thy ===== *)
theory Message
  imports Hashing
begin

text \<open>
  Cross-domain messages, \<open>src/cross_domain/message.rs\<close>, and the registry that deduplicates them,
  \<open>src/cross_domain/message_registry.rs\<close> (its root is in the theory on event trees).  A message's
  identifier is the hash of its other fields.
\<close>

section \<open>Messages\<close>

datatype message_kind = BridgeLock | BridgeMint | BridgeBurn | BridgeUnlock | Custom bytes

fun kind_bytes :: "message_kind \<Rightarrow> bytes" where
  "kind_bytes BridgeLock = ascii ''bridge-lock''"
| "kind_bytes BridgeMint = ascii ''bridge-mint''"
| "kind_bytes BridgeBurn = ascii ''bridge-burn''"
| "kind_bytes BridgeUnlock = ascii ''bridge-unlock''"
| "kind_bytes (Custom bs) = ascii ''custom:'' @ bs"

record cross_domain_message =
  msg_id :: message_id
  correlation_id :: "message_id option"
  msg_source_domain :: domain_id
  msg_target_domain :: domain_id
  msg_source_height :: u64
  msg_event_index :: u32
  msg_nonce :: u64
  msg_sender :: address
  msg_recipient :: address
  msg_payload_hash :: hash32
  msg_kind :: message_kind
  msg_expiry_height :: u64

record message_params =
  par_source_domain :: domain_id
  par_target_domain :: domain_id
  par_source_height :: u64
  par_event_index :: u32
  par_nonce :: u64
  par_sender :: address
  par_recipient :: address
  par_payload_hash :: hash32
  par_kind :: message_kind
  par_expiry_height :: u64

definition message_fields :: "cross_domain_message \<Rightarrow> bytes list" where
  "message_fields m =
     [ascii ''BDLM_CROSS_DOMAIN_MESSAGE_V2'',
      (case correlation_id m of Some c \<Rightarrow> c | None \<Rightarrow> zero32),
      le_bytes 4 (msg_source_domain m), le_bytes 4 (msg_target_domain m),
      le_bytes 8 (msg_source_height m), le_bytes 4 (msg_event_index m), le_bytes 8 (msg_nonce m),
      msg_sender m, msg_recipient m, msg_payload_hash m, kind_bytes (msg_kind m),
      le_bytes 8 (msg_expiry_height m)]"

definition calculate_message_id :: "hash_fn \<Rightarrow> cross_domain_message \<Rightarrow> message_id" where
  "calculate_message_id H m = H (message_fields m)"

definition new_message :: "hash_fn \<Rightarrow> message_params \<Rightarrow> cross_domain_message" where
  "new_message H p =
     (let m = \<lparr>msg_id = zero32, correlation_id = None,
               msg_source_domain = par_source_domain p, msg_target_domain = par_target_domain p,
               msg_source_height = par_source_height p, msg_event_index = par_event_index p,
               msg_nonce = par_nonce p, msg_sender = par_sender p, msg_recipient = par_recipient p,
               msg_payload_hash = par_payload_hash p, msg_kind = par_kind p,
               msg_expiry_height = par_expiry_height p\<rparr>
      in m\<lparr>msg_id := calculate_message_id H m\<rparr>)"

definition new_correlated :: "hash_fn \<Rightarrow> message_params \<Rightarrow> message_id \<Rightarrow> cross_domain_message" where
  "new_correlated H p c =
     (let m = (new_message H p)\<lparr>correlation_id := Some c\<rparr>
      in m\<lparr>msg_id := calculate_message_id H m\<rparr>)"

definition verify_id :: "hash_fn \<Rightarrow> cross_domain_message \<Rightarrow> bool" where
  "verify_id H m \<longleftrightarrow> msg_id m = calculate_message_id H m"

section \<open>The registry\<close>

datatype registry_error = InvalidMessageId | AlreadyRegistered message_id

type_synonym message_registry = "(message_id, cross_domain_message) btree_map"

definition registry_new :: message_registry where
  "registry_new = []"

definition registry_insert ::
    "hash_fn \<Rightarrow> cross_domain_message \<Rightarrow> message_registry \<Rightarrow> (registry_error + unit) \<times> message_registry" where
  "registry_insert H m reg =
     (if \<not> verify_id H m then (Inl InvalidMessageId, reg)
      else if btm_contains reg (msg_id m) then (Inl (AlreadyRegistered (msg_id m)), reg)
      else (Inr (), btm_insert (msg_id m) m reg))"

definition registry_get :: "message_registry \<Rightarrow> message_id \<Rightarrow> cross_domain_message option" where
  "registry_get reg i = btm_get reg i"

section \<open>Identifiers\<close>

lemma message_fields_id [simp]: "message_fields (m\<lparr>msg_id := i\<rparr>) = message_fields m"
  by (simp add: message_fields_def)

lemma verify_stamped: "verify_id H (m\<lparr>msg_id := calculate_message_id H m\<rparr>)"
  by (simp add: verify_id_def calculate_message_id_def)

lemma verify_new [simp]: "verify_id H (new_message H p)" "verify_id H (new_correlated H p c)"
  unfolding new_message_def new_correlated_def Let_def by (rule verify_stamped)+

lemma new_message_simps [simp]:
  "correlation_id (new_message H p) = None"
  "msg_source_domain (new_message H p) = par_source_domain p"
  "msg_target_domain (new_message H p) = par_target_domain p"
  "msg_payload_hash (new_message H p) = par_payload_hash p"
  "msg_kind (new_message H p) = par_kind p"
  "msg_expiry_height (new_message H p) = par_expiry_height p"
  "msg_nonce (new_message H p) = par_nonce p"
  "msg_sender (new_message H p) = par_sender p"
  "msg_recipient (new_message H p) = par_recipient p"
  by (simp_all add: new_message_def Let_def)

lemma new_correlated_simps [simp]:
  "correlation_id (new_correlated H p c) = Some c"
  "msg_source_domain (new_correlated H p c) = par_source_domain p"
  "msg_target_domain (new_correlated H p c) = par_target_domain p"
  "msg_kind (new_correlated H p c) = par_kind p"
  "msg_payload_hash (new_correlated H p c) = par_payload_hash p"
  by (simp_all add: new_correlated_def Let_def)

lemma kind_bytes_inject: "kind_bytes k = kind_bytes k' \<longleftrightarrow> k = k'"
  by (cases k; cases k') (simp_all add: ascii_def)

lemma message_fields_inject:
  assumes "message_fields m = message_fields m'"
  shows "(case correlation_id m of Some c \<Rightarrow> c | None \<Rightarrow> zero32) =
       (case correlation_id m' of Some c \<Rightarrow> c | None \<Rightarrow> zero32)"
    and "m'\<lparr>msg_id := i, correlation_id := c\<rparr> = m\<lparr>msg_id := i, correlation_id := c\<rparr>"
proof -
  show "(case correlation_id m of Some c \<Rightarrow> c | None \<Rightarrow> zero32) =
       (case correlation_id m' of Some c \<Rightarrow> c | None \<Rightarrow> zero32)"
    using assms by (simp only: message_fields_def list.inject)
  show "m'\<lparr>msg_id := i, correlation_id := c\<rparr> = m\<lparr>msg_id := i, correlation_id := c\<rparr>"
    using assms unfolding message_fields_def list.inject le_bytes_inject_iff kind_bytes_inject
    by (intro cross_domain_message.equality) simp_all
qed

text \<open>C19: a message identifier determines the message.  If the hash does not collide on the field lists of
  two messages that both verify, they share an identifier exactly when they agree in every field, except
  that a missing correlation identifier is not distinguished from an all-zero one.\<close>

theorem message_id_binds:
  assumes "verify_id H m" "verify_id H m'" and "inj_on H {message_fields m, message_fields m'}"
  shows "msg_id m = msg_id m' \<longleftrightarrow>
    m' = m\<lparr>msg_id := msg_id m', correlation_id := correlation_id m'\<rparr> \<and>
    (correlation_id m = correlation_id m' \<or> {correlation_id m, correlation_id m'} = {None, Some zero32})"
    (is "_ \<longleftrightarrow> ?same \<and> ?corr")
proof
  have ids: "msg_id m = H (message_fields m)" "msg_id m' = H (message_fields m')"
    using assms(1,2) by (simp_all add: verify_id_def calculate_message_id_def)
  show "?same \<and> ?corr" if "msg_id m = msg_id m'"
  proof -
    have "message_fields m = message_fields m'"
      using that unfolding ids by (rule inj_onD [OF assms(3)]) simp_all
    note eq = message_fields_inject [OF this]
    have "m' = m'\<lparr>msg_id := msg_id m', correlation_id := correlation_id m'\<rparr>" by simp
    also have "\<dots> = m\<lparr>msg_id := msg_id m', correlation_id := correlation_id m'\<rparr>" by (rule eq(2))
    finally have ?same .
    moreover have ?corr using eq(1) by (cases "correlation_id m"; cases "correlation_id m'") auto
    ultimately show ?thesis ..
  qed
  show "msg_id m = msg_id m'" if same: "?same \<and> ?corr"
  proof -
    define i c where "i = msg_id m'" and "c = correlation_id m'"
    have m': "m' = m\<lparr>msg_id := i, correlation_id := c\<rparr>" using same by (simp add: i_def c_def)
    have "(case correlation_id m of Some c \<Rightarrow> c | None \<Rightarrow> zero32) = (case c of Some c \<Rightarrow> c | None \<Rightarrow> zero32)"
      using same by (auto simp: doubleton_eq_iff c_def)
    then have "message_fields m' = message_fields m" by (simp add: m' message_fields_def)
    then show ?thesis by (simp add: ids)
  qed
qed

definition sample_params :: message_params where
  "sample_params =
     \<lparr>par_source_domain = 1, par_target_domain = 2, par_source_height = 42, par_event_index = 7,
      par_nonce = 3, par_sender = replicate 32 1, par_recipient = replicate 32 2,
      par_payload_hash = replicate 32 9, par_kind = BridgeLock, par_expiry_height = 100\<rparr>"

text \<open>Messages that differ in their nonce have different identifiers; a message and its correlated variant
  with the all-zero identifier are different messages with one identifier.\<close>

theorem message_id_binds_witness:
  "msg_id (new_message field_image sample_params) \<noteq> msg_id (new_message field_image (sample_params\<lparr>par_nonce := 4\<rparr>)) \<and>
   new_message field_image sample_params \<noteq> new_correlated field_image sample_params zero32 \<and>
   msg_id (new_message field_image sample_params) = msg_id (new_correlated field_image sample_params zero32)"
proof -
  let ?m = "new_message field_image sample_params"
  let ?n = "new_message field_image (sample_params\<lparr>par_nonce := 4\<rparr>)"
  let ?c = "new_correlated field_image sample_params zero32"
  have inj: "inj_on field_image A" for A by (auto intro!: inj_onI dest: field_image_inject)
  have "?n \<noteq> ?m\<lparr>msg_id := msg_id ?n, correlation_id := correlation_id ?n\<rparr>"
  proof
    assume "?n = ?m\<lparr>msg_id := msg_id ?n, correlation_id := correlation_id ?n\<rparr>"
    from arg_cong [OF this, of msg_nonce] show False by (simp add: sample_params_def)
  qed
  moreover have "?c = ?m\<lparr>msg_id := msg_id ?c, correlation_id := correlation_id ?c\<rparr>"
    by (simp add: new_correlated_def Let_def)
  moreover have "?m \<noteq> ?c"
  proof
    assume "?m = ?c"
    from arg_cong [OF this, of correlation_id] show False by simp
  qed
  ultimately show ?thesis
    using message_id_binds [OF verify_new(1) verify_new(1) inj, of sample_params "sample_params\<lparr>par_nonce := 4\<rparr>"]
      message_id_binds [OF verify_new(1) verify_new(2) inj, of sample_params sample_params zero32] by simp
qed

end
