(* ===== verification/Event_Tree.thy ===== *)
theory Event_Tree
  imports Message
begin

text \<open>
  The Merkle commitments of the ledger: \<open>src/settlement/commitment_tree.rs\<close> (the root of a list of
  leaves) and \<open>src/cross_domain/event_tree.rs\<close> (domain events, inclusion proofs and their
  verification), with the roots of the message registry and of the replay store that use them.
  Indices and lengths (\<open>usize\<close>) are natural numbers; none of the operations on them can overflow.
\<close>

section \<open>The root of a list of leaves\<close>

definition merkle_node :: "hash_fn \<Rightarrow> hash32 \<Rightarrow> hash32 \<Rightarrow> hash32" where
  "merkle_node H l r = H [ascii ''BDLM_MERKLE_NODE_V1'', l, r]"

text \<open>One pass over \<open>level.chunks(2)\<close>; an odd last element is paired with itself.\<close>

fun merkle_next :: "hash_fn \<Rightarrow> hash32 list \<Rightarrow> hash32 list" where
  "merkle_next H [] = []"
| "merkle_next H [a] = [merkle_node H a a]"
| "merkle_next H (a # b # rest) = merkle_node H a b # merkle_next H rest"

lemma length_merkle_next [simp]: "length (merkle_next H xs) = (length xs + 1) div 2"
  by (induction H xs rule: merkle_next.induct) auto

function merkle_loop :: "hash_fn \<Rightarrow> hash32 list \<Rightarrow> hash32 list" where
  "merkle_loop H level = (if length level > 1 then merkle_loop H (merkle_next H level) else level)"
  by pat_completeness auto
termination by (relation "measure (\<lambda>(H, level). length level)") auto

declare merkle_loop.simps [simp del]

definition merkle_root :: "hash_fn \<Rightarrow> hash32 list \<Rightarrow> hash32" where
  "merkle_root H leaves =
     (if leaves = [] then H [ascii ''BDLM_EMPTY_MERKLE_ROOT_V1'']
      else merkle_loop H leaves ! 0)"

section \<open>Events\<close>

datatype domain_event_kind =
    BridgeLocked | BridgeMinted | BridgeBurned | BridgeUnlocked | MessageEmitted | CustomEvent bytes

fun event_kind_bytes :: "domain_event_kind \<Rightarrow> bytes" where
  "event_kind_bytes BridgeLocked = ascii ''bridge-locked''"
| "event_kind_bytes BridgeMinted = ascii ''bridge-minted''"
| "event_kind_bytes BridgeBurned = ascii ''bridge-burned''"
| "event_kind_bytes BridgeUnlocked = ascii ''bridge-unlocked''"
| "event_kind_bytes MessageEmitted = ascii ''message-emitted''"
| "event_kind_bytes (CustomEvent bs) = ascii ''custom:'' @ bs"

record domain_event =
  ev_domain_id :: domain_id
  ev_domain_height :: u64
  ev_event_index :: u32
  ev_kind :: domain_event_kind
  ev_emitter :: address
  ev_message :: "cross_domain_message option"
  ev_payload_hash :: hash32

definition leaf_hash :: "hash_fn \<Rightarrow> domain_event \<Rightarrow> hash32" where
  "leaf_hash H e =
     H [ascii ''BDLM_DOMAIN_EVENT_V1'', le_bytes 4 (ev_domain_id e), le_bytes 8 (ev_domain_height e),
        le_bytes 4 (ev_event_index e), event_kind_bytes (ev_kind e), ev_emitter e,
        (case ev_message e of Some m \<Rightarrow> msg_id m | None \<Rightarrow> zero32), ev_payload_hash e]"

type_synonym domain_event_tree = "domain_event list"

definition tree_push :: "domain_event \<Rightarrow> domain_event_tree \<Rightarrow> domain_event_tree" where
  "tree_push e t = t @ [e]"

definition tree_root :: "hash_fn \<Rightarrow> domain_event_tree \<Rightarrow> hash32" where
  "tree_root H t = merkle_root H (map (leaf_hash H) t)"

section \<open>Inclusion proofs\<close>

record merkle_proof =
  proof_leaf :: hash32
  proof_index :: nat
  proof_siblings :: "hash32 list"

definition sibling_of :: "hash32 list \<Rightarrow> nat \<Rightarrow> hash32" where
  "sibling_of level idx =
     (let sibling_idx = (if even idx then idx + 1 else idx - 1)
      in if sibling_idx < length level then level ! sibling_idx else level ! idx)"

function proof_loop :: "hash_fn \<Rightarrow> hash32 list \<Rightarrow> nat \<Rightarrow> hash32 list \<Rightarrow> hash32 list" where
  "proof_loop H level idx siblings =
     (if length level > 1
      then proof_loop H (merkle_next H level) (idx div 2) (siblings @ [sibling_of level idx])
      else siblings)"
  by pat_completeness auto
termination by (relation "measure (\<lambda>(H, level, idx, siblings). length level)") auto

declare proof_loop.simps [simp del]

definition tree_proof :: "hash_fn \<Rightarrow> domain_event_tree \<Rightarrow> nat \<Rightarrow> merkle_proof option" where
  "tree_proof H t index =
     (if index \<ge> length t then None
      else (let level = map (leaf_hash H) t
            in Some \<lparr>proof_leaf = level ! index, proof_index = index,
                     proof_siblings = proof_loop H level index []\<rparr>))"

fun verify_loop :: "hash_fn \<Rightarrow> hash32 \<Rightarrow> nat \<Rightarrow> hash32 list \<Rightarrow> hash32" where
  "verify_loop H h index [] = h"
| "verify_loop H h index (sibling # rest) =
     verify_loop H (if even index then merkle_node H h sibling else merkle_node H sibling h)
       (index div 2) rest"

definition proof_verify :: "hash_fn \<Rightarrow> merkle_proof \<Rightarrow> hash32 \<Rightarrow> bool" where
  "proof_verify H p expected_root \<longleftrightarrow>
     verify_loop H (proof_leaf p) (proof_index p) (proof_siblings p) = expected_root"

section \<open>Roots of the message registry\<close>

definition message_leaf :: "hash_fn \<Rightarrow> cross_domain_message \<Rightarrow> hash32" where
  "message_leaf H m =
     H [ascii ''BDLM_MESSAGE_LEAF_V1'', msg_id m, le_bytes 4 (msg_source_domain m),
        le_bytes 4 (msg_target_domain m), le_bytes 8 (msg_nonce m), kind_bytes (msg_kind m)]"

definition registry_root :: "hash_fn \<Rightarrow> message_registry \<Rightarrow> hash32" where
  "registry_root H reg = merkle_root H (map (message_leaf H \<circ> snd) reg)"

section \<open>Proofs verify\<close>

lemma merkle_next_nth:
  "i < length xs \<Longrightarrow>
   merkle_next H xs ! (i div 2) =
     (if even i then merkle_node H (xs ! i) (sibling_of xs i) else merkle_node H (sibling_of xs i) (xs ! i))"
proof (induction H xs arbitrary: i rule: merkle_next.induct)
  case (3 H a b rest)
  show ?case
  proof (cases "i < 2")
    case True
    then have "i = 0 \<or> i = 1" by auto
    then show ?thesis by (auto simp: sibling_of_def)
  next
    case False
    then obtain j where j: "i = j + 2" by (metis add.commute le_Suc_ex not_less)
    have "sibling_of (a # b # rest) i = sibling_of rest j"
      using j by (cases "even j") (auto simp: sibling_of_def Let_def nth_Cons' elim: oddE)
    then show ?thesis using "3.IH" [of j] "3.prems" j by simp
  qed
qed (auto simp: sibling_of_def)

lemma proof_loop_acc: "proof_loop H level idx acc = acc @ proof_loop H level idx []"
proof (induction "length level" arbitrary: level idx acc rule: less_induct)
  case less
  show ?case
  proof (cases "length level > 1")
    case True
    then have "length (merkle_next H level) < length level" by simp
    from less [OF this, of "idx div 2" "acc @ [sibling_of level idx]"]
      less [OF this, of "idx div 2" "[sibling_of level idx]"]
    show ?thesis using True proof_loop.simps [of H level] by simp
  next
    case False
    then show ?thesis by (simp add: proof_loop.simps [of H level])
  qed
qed

lemma proof_loop_step:
  "length level > 1 \<Longrightarrow>
   proof_loop H level idx [] = sibling_of level idx # proof_loop H (merkle_next H level) (idx div 2) []"
  by (subst proof_loop.simps) (simp add: proof_loop_acc [of H _ _ "[sibling_of level idx]"])

lemma verify_proof_loop:
  "idx < length level \<Longrightarrow>
   verify_loop H (level ! idx) idx (proof_loop H level idx []) = merkle_loop H level ! 0"
proof (induction H level arbitrary: idx rule: merkle_loop.induct)
  case (1 H level)
  show ?case
  proof (cases "length level > 1")
    case True
    have "idx div 2 < length (merkle_next H level)" using "1.prems" by simp
    from "1.IH" [OF True this] show ?thesis
      using True merkle_next_nth [OF "1.prems", of H]
      by (simp add: proof_loop_step merkle_loop.simps [of H level])
  next
    case False
    then have "idx = 0" using "1.prems" by linarith
    then show ?thesis using False by (simp add: proof_loop.simps merkle_loop.simps)
  qed
qed

lemma tree_proof_in_range:
  assumes "i < length t"
  obtains p where "tree_proof H t i = Some p" "proof_leaf p = leaf_hash H (t ! i)" "proof_index p = i"
    "proof_verify H p (tree_root H t)"
proof -
  have "t \<noteq> []" using assms by auto
  then show ?thesis
    using that [of "\<lparr>proof_leaf = leaf_hash H (t ! i), proof_index = i,
        proof_siblings = proof_loop H (map (leaf_hash H) t) i []\<rparr>"]
      assms verify_proof_loop [of i "map (leaf_hash H) t" H]
    by (simp add: tree_proof_def proof_verify_def tree_root_def merkle_root_def Let_def)
qed

text \<open>C20: every proof the tree hands out verifies: for every index in range the tree produces a proof, the
  proof names the event's leaf and that index, and it verifies against the tree's root; out of
  range there is no proof.\<close>

theorem tree_proof_verifies:
  "(case tree_proof H t i of
      None \<Rightarrow> length t \<le> i
    | Some p \<Rightarrow> i < length t \<and> proof_leaf p = leaf_hash H (t ! i) \<and> proof_index p = i \<and>
               proof_verify H p (tree_root H t))"
proof (cases "i < length t")
  case True
  show ?thesis by (rule tree_proof_in_range [OF True, of H]) (simp add: True)
qed (simp add: tree_proof_def)

section \<open>Proofs bind\<close>

text \<open>Collision-freedom of the hash on node inputs.\<close>

definition node_injective :: "hash_fn \<Rightarrow> bool" where
  "node_injective H \<longleftrightarrow> (\<forall>a b c d. merkle_node H a b = merkle_node H c d \<longrightarrow> a = c \<and> b = d)"

lemma node_injectiveD: "node_injective H \<Longrightarrow> merkle_node H a b = merkle_node H c d \<Longrightarrow> a = c \<and> b = d"
  unfolding node_injective_def by blast

lemma verify_loop_binds:
  "node_injective H \<Longrightarrow> idx < length level \<Longrightarrow> length sibs = length (proof_loop H level idx []) \<Longrightarrow>
   verify_loop H h idx sibs = merkle_loop H level ! 0 \<Longrightarrow> h = level ! idx"
proof (induction H level arbitrary: idx sibs h rule: merkle_loop.induct)
  case (1 H level)
  show ?case
  proof (cases "length level > 1")
    case True
    then obtain s rest where sibs: "sibs = s # rest"
      using "1.prems"(3) by (cases sibs) (simp_all add: proof_loop_step)
    let ?n = "if even idx then merkle_node H h s else merkle_node H s h"
    have "?n = merkle_next H level ! (idx div 2)"
    proof (rule "1.IH" [OF True "1.prems"(1)])
      show "idx div 2 < length (merkle_next H level)" using "1.prems"(2) by simp
      show "length rest = length (proof_loop H (merkle_next H level) (idx div 2) [])"
        using "1.prems"(3) True by (simp add: sibs proof_loop_step)
      show "verify_loop H ?n (idx div 2) rest = merkle_loop H (merkle_next H level) ! 0"
        using "1.prems"(4) True by (simp add: sibs merkle_loop.simps [of H level])
    qed
    also have "\<dots> = (if even idx then merkle_node H (level ! idx) (sibling_of level idx)
        else merkle_node H (sibling_of level idx) (level ! idx))"
      by (rule merkle_next_nth [OF "1.prems"(2)])
    finally have eq: "?n = (if even idx then merkle_node H (level ! idx) (sibling_of level idx)
        else merkle_node H (sibling_of level idx) (level ! idx))" .
    show ?thesis
    proof (cases "even idx")
      case even: True
      have "merkle_node H h s = merkle_node H (level ! idx) (sibling_of level idx)" using eq even by simp
      from node_injectiveD [OF "1.prems"(1) this] show ?thesis by (rule conjunct1)
    next
      case odd: False
      have "merkle_node H s h = merkle_node H (sibling_of level idx) (level ! idx)" using eq odd by simp
      from node_injectiveD [OF "1.prems"(1) this] show ?thesis by (rule conjunct2)
    qed
  next
    case False
    then have "idx = 0" "sibs = []" using "1.prems"(2,3) by (simp_all add: proof_loop.simps)
    then show ?thesis using "1.prems"(4) False by (simp add: merkle_loop.simps)
  qed
qed

text \<open>An accepted proof of the right depth binds its leaf: if the node hash does not collide, a proof for
  an index in range that has as many siblings as the tree's own proof and verifies against the
  tree's root names the hash of the event at that index.\<close>

theorem proof_binds_leaf:
  assumes "node_injective H" "proof_index p < length t" "proof_verify H p (tree_root H t)"
    and "tree_proof H t (proof_index p) = Some q" "length (proof_siblings p) = length (proof_siblings q)"
  shows "proof_leaf p = leaf_hash H (t ! proof_index p)"
proof -
  have "length (proof_siblings p) = length (proof_loop H (map (leaf_hash H) t) (proof_index p) [])"
    using assms(2,4,5) by (auto simp: tree_proof_def Let_def)
  moreover have "t \<noteq> []" using assms(2) by auto
  ultimately show ?thesis
    using verify_loop_binds [OF assms(1), of "proof_index p" "map (leaf_hash H) t" "proof_siblings p" "proof_leaf p"]
      assms(2,3)
    by (simp add: proof_verify_def tree_root_def merkle_root_def)
qed

definition sample_event :: "u32 \<Rightarrow> domain_event" where
  "sample_event i =
     \<lparr>ev_domain_id = 1, ev_domain_height = 9, ev_event_index = i, ev_kind = BridgeLocked,
      ev_emitter = replicate 32 1, ev_message = None, ev_payload_hash = zero32\<rparr>"

lemma field_image_node_injective: "node_injective field_image"
  unfolding node_injective_def merkle_node_def by (auto dest: field_image_inject)

theorem proof_binds_leaf_witness:
  "\<exists>p. tree_proof field_image (map sample_event [0, 1, 2]) 2 = Some p \<and>
     proof_leaf p = leaf_hash field_image (map sample_event [0, 1, 2] ! 2)"
proof -
  let ?t = "map sample_event [0, 1, 2]"
  obtain p where p: "tree_proof field_image ?t 2 = Some p" "proof_index p = 2"
    "proof_verify field_image p (tree_root field_image ?t)"
    by (rule tree_proof_in_range [of 2 ?t field_image]) (simp, blast)
  have "proof_leaf p = leaf_hash field_image (?t ! proof_index p)"
    using p by (intro proof_binds_leaf [OF field_image_node_injective, where q = p]) simp_all
  then show ?thesis using p(1,2) by metis
qed

section \<open>What a root and a proof do not bind\<close>

lemma merkle_next_dup: "odd (length xs) \<Longrightarrow> merkle_next H (xs @ [last xs]) = merkle_next H xs"
  by (induction H xs rule: merkle_next.induct) auto

lemma verify_loop_index: "verify_loop H h (i + 2 ^ length ss) ss = verify_loop H h i ss"
proof (induction ss arbitrary: h i)
  case (Cons s ss)
  have "(i + 2 ^ length (s # ss)) div 2 = i div 2 + 2 ^ length ss" by simp
  then show ?case by (simp only: verify_loop.simps Cons) simp
qed simp

text \<open>Neither the number of leaves nor the index is bound: a list of at least three leaves of odd
  length has the same root as the list with its last leaf repeated, and an accepted proof stays
  accepted when two to the number of its siblings is added to its index.\<close>

theorem root_and_index_not_bound:
  "(odd (length xs) \<longrightarrow> length xs > 1 \<longrightarrow> merkle_root H (xs @ [last xs]) = merkle_root H xs) \<and>
   (proof_verify H p r \<longrightarrow>
      proof_verify H (p\<lparr>proof_index := proof_index p + 2 ^ length (proof_siblings p)\<rparr>) r)"
proof -
  have "merkle_root H (xs @ [last xs]) = merkle_root H xs" if "odd (length xs)" "length xs > 1"
  proof -
    have "xs \<noteq> []" using that(2) by auto
    then show ?thesis
      using that merkle_next_dup [OF that(1), of H]
      by (simp add: merkle_root_def merkle_loop.simps [of H xs] merkle_loop.simps [of H "xs @ [last xs]"])
  qed
  then show ?thesis by (simp add: proof_verify_def verify_loop_index)
qed

theorem root_and_index_not_bound_witness:
  "merkle_root field_image ([[1], [2], [3]] @ [[3]]) = merkle_root field_image [[1], [2], [3]]"
  using root_and_index_not_bound [of "[[1], [2], [3]]" field_image "\<lparr>proof_leaf = [], proof_index = 0, proof_siblings = []\<rparr>" "[]"]
  by simp

section \<open>Registry roots\<close>

text \<open>The registry's root depends on its contents only, not on the order in which messages arrived:
  inserting two messages with different identifiers in either order gives the same root.\<close>

theorem registry_root_order_independent:
  assumes "btm_ok reg" "msg_id m \<noteq> msg_id m'"
  shows "registry_root H (snd (registry_insert H m (snd (registry_insert H m' reg)))) =
    registry_root H (snd (registry_insert H m' (snd (registry_insert H m reg))))"
proof -
  have "btm_insert (msg_id m) m (btm_insert (msg_id m') m' reg) = btm_insert (msg_id m') m' (btm_insert (msg_id m) m reg)"
    by (rule btm.put_commute [OF assms])
  then have "snd (registry_insert H m (snd (registry_insert H m' reg))) =
      snd (registry_insert H m' (snd (registry_insert H m reg)))"
    using assms(2) by (auto simp: registry_insert_def btm_contains_def)
  then show ?thesis by simp
qed

theorem registry_root_order_independent_witness:
  "\<exists>m m'. msg_id m \<noteq> msg_id m' \<and>
     registry_root field_image (snd (registry_insert field_image m (snd (registry_insert field_image m' registry_new)))) =
     registry_root field_image (snd (registry_insert field_image m' (snd (registry_insert field_image m registry_new))))"
proof -
  let ?m = "new_message field_image sample_params"
    and ?m' = "new_message field_image (sample_params\<lparr>par_nonce := 4\<rparr>)"
  have "message_fields ?m \<noteq> message_fields ?m'"
    by (simp add: message_fields_def new_message_def Let_def sample_params_def)
  then have "msg_id ?m \<noteq> msg_id ?m'"
    using field_image_inject verify_new(1) [of field_image] by (auto simp: verify_id_def calculate_message_id_def)
  moreover have "btm_ok registry_new" by (simp add: registry_new_def btm_ok_def)
  ultimately show ?thesis using registry_root_order_independent by blast
qed

end
