(* ===== verification/Evm.thy ===== *)
theory Evm
  imports Evm_Receipt Event_Tree
begin

text \<open>
  Deposits from Ethereum: \<open>src/cross_domain/evm/sync_committee.rs\<close> (attestations of the sync committee, with
  \<open>verify_bls_sig\<close> of \<open>src/chain/finality.rs\<close>), \<open>verify.rs\<close> (the verification of a deposit proof from header
  chain to log) and \<open>adapter.rs\<close> (the chain adapter built on it).  Curve operations of the crate
  \<open>bls12_381\<close> are the parameter \<open>C\<close>, the hash \<open>keccak256\<close> is \<open>K\<close>, the ledger's field hash is \<open>H\<close>.
\<close>

section \<open>BLS signatures\<close>

record curve =
  g2_decodes :: "bytes \<Rightarrow> bool"
  g2_in_subgroup :: "bytes \<Rightarrow> bool"
  g1_decodes :: "bytes \<Rightarrow> bool"
  g1_in_subgroup :: "bytes \<Rightarrow> bool"
  pairing_holds :: "bytes \<Rightarrow> bytes \<Rightarrow> bytes \<Rightarrow> bool"

definition verify_bls_sig :: "curve \<Rightarrow> bytes \<Rightarrow> bytes \<Rightarrow> bytes \<Rightarrow> string + unit" where
  "verify_bls_sig C pk msg sig =
    (if length pk \<noteq> 96 then Inl ''Invalid BLS public key length''
     else if \<not> g2_decodes C pk then Inl ''Invalid BLS public key encoding''
     else if \<not> g2_in_subgroup C pk then Inl ''BLS public key is identity or not in the prime-order subgroup''
     else if length sig \<noteq> 48 then Inl ''Invalid BLS signature length''
     else if \<not> g1_decodes C sig then Inl ''Invalid BLS signature encoding''
     else if \<not> g1_in_subgroup C sig then Inl ''BLS signature is identity or not in the prime-order subgroup''
     else if \<not> pairing_holds C pk msg sig then Inl ''BLS signature verification failed''
     else Inr ())"

section \<open>Sync committee\<close>

datatype sync_committee_error =
    InvalidPubkey | InvalidSignature | InsufficientParticipation nat nat
  | SignatureVerificationFailed | StateMismatch | HeaderMismatch

definition SYNC_COMMITTEE_SIZE :: nat where
  "SYNC_COMMITTEE_SIZE = 512"

definition PARTICIPATION_THRESHOLD :: nat where
  "PARTICIPATION_THRESHOLD = SYNC_COMMITTEE_SIZE * 2 div 3 + 1"

definition BLS_PUBKEY_LEN :: nat where
  "BLS_PUBKEY_LEN = 96"

definition BLS_SIGNATURE_LEN :: nat where
  "BLS_SIGNATURE_LEN = 96"

record sync_committee_state =
  current_period :: u64
  current_sync_committee :: "bytes list"
  next_sync_committee :: "bytes list"

record sync_aggregate =
  sync_committee_bits :: bytes
  sync_committee_signature :: bytes

definition participation_count :: "sync_aggregate \<Rightarrow> nat" where
  "participation_count agg = sum_list (map (\<lambda>b. length (filter (bit b) [0..<8])) (sync_committee_bits agg))"

definition signed_by :: "sync_aggregate \<Rightarrow> nat \<Rightarrow> bool" where
  "signed_by agg index =
    (if index \<ge> SYNC_COMMITTEE_SIZE then False
     else drop_bit (index mod 8) (sync_committee_bits agg ! (index div 8)) AND 1 = 1)"

definition verify_sync_aggregate ::
    "curve \<Rightarrow> sync_committee_state \<Rightarrow> sync_aggregate \<Rightarrow> bytes \<Rightarrow> sync_committee_error + unit" where
  "verify_sync_aggregate C state agg signing_message =
    (let participating = participation_count agg
     in if participating < PARTICIPATION_THRESHOLD
        then Inl (InsufficientParticipation participating PARTICIPATION_THRESHOLD)
        else
          let valid_count = length (filter (\<lambda>(i, pk). signed_by agg i \<and>
                verify_bls_sig C pk signing_message (sync_committee_signature agg) = Inr ())
              (enumerate 0 (current_sync_committee state)))
          in if valid_count < PARTICIPATION_THRESHOLD
             then Inl (InsufficientParticipation valid_count PARTICIPATION_THRESHOLD)
             else Inr ())"

definition rotate_period :: "sync_committee_state \<Rightarrow> sync_committee_state" where
  "rotate_period state = state\<lparr>current_sync_committee := next_sync_committee state,
     current_period := saturating_add (current_period state) 1\<rparr>"

text \<open>The lengths of the arrays in the types of \<open>SyncCommitteeState\<close> and \<open>SyncAggregate\<close>.\<close>

definition sync_state_ok :: "sync_committee_state \<Rightarrow> bool" where
  "sync_state_ok state \<longleftrightarrow>
    length (current_sync_committee state) = SYNC_COMMITTEE_SIZE \<and>
    length (next_sync_committee state) = SYNC_COMMITTEE_SIZE \<and>
    (\<forall>pk \<in> set (current_sync_committee state @ next_sync_committee state). length pk = BLS_PUBKEY_LEN)"

definition sync_aggregate_ok :: "sync_aggregate \<Rightarrow> bool" where
  "sync_aggregate_ok agg \<longleftrightarrow>
    length (sync_committee_bits agg) = SYNC_COMMITTEE_SIZE div 8 \<and>
    length (sync_committee_signature agg) = BLS_SIGNATURE_LEN"

section \<open>Deposit proofs\<close>

datatype verify_error =
    V_Header string | V_Mpt mpt_error | V_Receipt receipt_error | TxFailed | LogNotFound | PayloadMismatch
  | V_SyncCommittee sync_committee_error

record verified_deposit =
  dep_tx_hash :: string
  deposit_log_data :: bytes
  block_number :: u64

record sync_attestation =
  att_state :: sync_committee_state
  att_aggregate :: sync_aggregate
  signing_message :: bytes

record evm_deposit_proof =
  target_header :: bytes
  confirmation_headers :: "bytes list"
  required_confirmations :: u32
  proof_nodes :: "bytes list"
  receipt_key :: bytes
  tx_hash :: string
  emitter_address :: bytes
  deposit_topic0 :: bytes
  sync_attestation :: "sync_attestation option"

definition decode_header_or_err :: "(bytes \<Rightarrow> bytes) \<Rightarrow> bytes \<Rightarrow> verify_error + eth_header" where
  "decode_header_or_err K raw =
    (case decode_header K raw of Inl e \<Rightarrow> Inl (V_Header (header_error_text e)) | Inr h \<Rightarrow> Inr h)"

definition verify_evm_receipt ::
    "(bytes \<Rightarrow> bytes) \<Rightarrow> curve \<Rightarrow> evm_deposit_proof \<Rightarrow> (verify_error + verified_deposit) option" where
  "verify_evm_receipt K C pf =
    (case decode_header_or_err K (target_header pf) of
       Inl e \<Rightarrow> Some (Inl e)
     | Inr target \<Rightarrow>
    (case collect_results (decode_header_or_err K) (confirmation_headers pf) of
       Inl e \<Rightarrow> Some (Inl e)
     | Inr confs \<Rightarrow>
    (case verify_chain target confs (required_confirmations pf) of
       None \<Rightarrow> None
     | Some (Inl e) \<Rightarrow> Some (Inl (V_Header (header_error_text e)))
     | Some (Inr _) \<Rightarrow>
    (case verify K (proof_nodes pf) (h_receipts_root target) (receipt_key pf) of
       Inl e \<Rightarrow> Some (Inl (V_Mpt e))
     | Inr bs \<Rightarrow>
    (case decode_receipt bs of
       Inl e \<Rightarrow> Some (Inl (V_Receipt e))
     | Inr receipt \<Rightarrow>
         if \<not> rcpt_status receipt then Some (Inl TxFailed)
         else
    (case find_log receipt (emitter_address pf) (deposit_topic0 pf) of
       None \<Rightarrow> Some (Inl LogNotFound)
     | Some log \<Rightarrow>
         let ok = Some (Inr \<lparr>dep_tx_hash = tx_hash pf, deposit_log_data = log_data log, block_number = h_number target\<rparr>)
         in case sync_attestation pf of
              None \<Rightarrow> ok
            | Some att \<Rightarrow>
                (case verify_sync_aggregate C (att_state att) (att_aggregate att) (signing_message att) of
                   Inl e \<Rightarrow> Some (Inl (V_SyncCommittee e))
                 | Inr _ \<Rightarrow> ok)))))))"

section \<open>The adapter\<close>

record evm_chain_adapter =
  bridge_address :: bytes
  adapter_topic0 :: bytes
  adapter_confirmations :: u32

definition DEFAULT_DEPOSIT_TOPIC0 :: bytes where
  "DEFAULT_DEPOSIT_TOPIC0 = replicate 32 0"

definition adapter_new :: "bytes \<Rightarrow> bytes \<Rightarrow> evm_chain_adapter" where
  "adapter_new addr topic =
    \<lparr>bridge_address = addr, adapter_topic0 = topic, adapter_confirmations = DEFAULT_CONFIRMATIONS\<rparr>"

definition test_default :: evm_chain_adapter where
  "test_default = adapter_new (replicate 20 0) DEFAULT_DEPOSIT_TOPIC0"

text \<open>The two refusals of \<open>check_fit_for_relay\<close>, whose texts are long.\<close>

datatype unfit = Zero_bridge_address | Zero_confirmations

definition check_fit_for_relay :: "evm_chain_adapter \<Rightarrow> unfit + unit" where
  "check_fit_for_relay a =
    (if list_all (\<lambda>b. b = 0) (bridge_address a) then Inl Zero_bridge_address
     else if adapter_confirmations a = 0 then Inl Zero_confirmations
     else Inr ())"

definition derive_receipt_leaf :: "hash_fn \<Rightarrow> string \<Rightarrow> bytes \<Rightarrow> hash32" where
  "derive_receipt_leaf H tx addr = H [ascii ''BDLM_EVM_RECEIPT_LEAF_V1'', ascii tx, addr]"

datatype proof_failure = Root_mismatch | Empty_tx_hash | Leaf_mismatch

definition verify_receipt_proof ::
    "hash_fn \<Rightarrow> evm_chain_adapter \<Rightarrow> merkle_proof \<Rightarrow> hash32 \<Rightarrow> string \<Rightarrow> proof_failure + unit" where
  "verify_receipt_proof H a pf external_state_root expected_tx_hash =
    (if \<not> proof_verify H pf external_state_root then Inl Root_mismatch
     else if expected_tx_hash = [] then Inl Empty_tx_hash
     else if proof_leaf pf \<noteq> derive_receipt_leaf H expected_tx_hash (bridge_address a) then Inl Leaf_mismatch
     else Inr ())"

definition verify_deposit ::
    "(bytes \<Rightarrow> bytes) \<Rightarrow> curve \<Rightarrow> evm_chain_adapter \<Rightarrow> evm_deposit_proof \<Rightarrow> (verify_error + eth_receipt) option" where
  "verify_deposit K C a pf =
    (case verify_evm_receipt K C pf of
       None \<Rightarrow> None
     | Some (Inl e) \<Rightarrow> Some (Inl e)
     | Some (Inr _) \<Rightarrow>
    (case decode_header_or_err K (target_header pf) of
       Inl e \<Rightarrow> Some (Inl e)
     | Inr target \<Rightarrow>
    (case collect_results (decode_header_or_err K) (confirmation_headers pf) of
       Inl e \<Rightarrow> Some (Inl e)
     | Inr confs \<Rightarrow>
    (case verify_chain target confs (required_confirmations pf) of
       None \<Rightarrow> None
     | Some (Inl e) \<Rightarrow> Some (Inl (V_Header (header_error_text e)))
     | Some (Inr _) \<Rightarrow>
    (case verify K (proof_nodes pf) (h_receipts_root target) (receipt_key pf) of
       Inl e \<Rightarrow> Some (Inl (V_Mpt e))
     | Inr bs \<Rightarrow>
         Some (case decode_receipt bs of Inl e \<Rightarrow> Inl (V_Receipt e) | Inr r \<Rightarrow> Inr r))))))"

section \<open>What a proof establishes\<close>

lemma decode_header_or_err_Inr: "decode_header_or_err K raw = Inr h \<longleftrightarrow> decode_header K raw = Inr h"
  by (auto simp: decode_header_or_err_def split: sum.splits)

lemma verify_evm_receipt_cases:
  assumes "verify_evm_receipt K C pf = Some (Inr d)"
  obtains target confs bs receipt log where "decode_header K (target_header pf) = Inr target"
    "collect_results (decode_header_or_err K) (confirmation_headers pf) = Inr confs"
    "verify_chain target confs (required_confirmations pf) = Some (Inr ())"
    "verify K (proof_nodes pf) (h_receipts_root target) (receipt_key pf) = Inr bs"
    "decode_receipt bs = Inr receipt" "rcpt_status receipt"
    "find_log receipt (emitter_address pf) (deposit_topic0 pf) = Some log"
    "d = \<lparr>dep_tx_hash = tx_hash pf, deposit_log_data = log_data log, block_number = h_number target\<rparr>"
    "\<forall>att. sync_attestation pf = Some att \<longrightarrow>
      verify_sync_aggregate C (att_state att) (att_aggregate att) (signing_message att) = Inr ()"
  using assms
  by (auto simp: verify_evm_receipt_def decode_header_or_err_Inr Let_def split: sum.splits option.splits if_splits)

lemma verify_evm_receipt_intro:
  assumes "decode_header K (target_header pf) = Inr target"
    "collect_results (decode_header_or_err K) (confirmation_headers pf) = Inr confs"
    "verify_chain target confs (required_confirmations pf) = Some (Inr ())"
    "verify K (proof_nodes pf) (h_receipts_root target) (receipt_key pf) = Inr bs"
    "decode_receipt bs = Inr receipt" "rcpt_status receipt"
    "find_log receipt (emitter_address pf) (deposit_topic0 pf) = Some log" "sync_attestation pf = None"
  shows "verify_evm_receipt K C pf =
      Some (Inr \<lparr>dep_tx_hash = tx_hash pf, deposit_log_data = log_data log, block_number = h_number target\<rparr>)"
    and "verify_deposit K C a pf = Some (Inr receipt)"
  using assms decode_header_or_err_Inr [of K "target_header pf" target]
  by (simp_all add: verify_evm_receipt_def verify_deposit_def Let_def)

section \<open>Building a proof\<close>

text \<open>The proof that the tests of \<open>verify.rs\<close> build: one receipt in a trie of its own, a header over it, and a
  chain of further headers.\<close>

fun conf_chain :: "(bytes \<Rightarrow> bytes) \<Rightarrow> bytes \<Rightarrow> u64 \<Rightarrow> bytes \<Rightarrow> nat \<Rightarrow> bytes list" where
  "conf_chain K prev number root 0 = []"
| "conf_chain K prev number root (Suc n) =
    (let raw = rlp_encode (header_item prev number root) in raw # conf_chain K (K raw) (number + 1) root n)"

lemma conf_chain_linked:
  assumes "\<forall>x. length (K x) = 32" "length root = 32" "length (h_hash prev) = 32"
    and "unat (h_number prev) + n < 2 ^ 64"
  shows "\<exists>hs. collect_results (decode_header_or_err K) (conf_chain K (h_hash prev) (h_number prev + 1) root n) = Inr hs \<and>
    length hs = n \<and> linked prev hs"
  using assms(3,4)
proof (induction n arbitrary: prev)
  case (Suc n)
  let ?raw = "rlp_encode (header_item (h_hash prev) (h_number prev + 1) root)"
  let ?hdr = "\<lparr>h_parent_hash = h_hash prev, h_number = h_number prev + 1, h_state_root = replicate 32 0,
    h_receipts_root = root, h_hash = K ?raw\<rparr>"
  have d: "decode_header_or_err K ?raw = Inr ?hdr"
    using assms(2) Suc.prems(1) by (simp add: decode_header_or_err_Inr decode_header_item)
  have u: "unat (h_number prev + 1) = unat (h_number prev) + 1" using Suc.prems(2) by (simp add: unat_add_small)
  have "\<exists>hs. collect_results (decode_header_or_err K) (conf_chain K (h_hash ?hdr) (h_number ?hdr + 1) root n) = Inr hs \<and>
      length hs = n \<and> linked ?hdr hs"
    using Suc.prems(2) assms(1) u by (intro Suc.IH) simp_all
  thus ?case using d u by (auto simp: Let_def)
qed simp

definition leaf_bytes :: "(bytes \<Rightarrow> bytes) \<Rightarrow> bytes \<Rightarrow> bytes \<Rightarrow> bytes" where
  "leaf_bytes K key v = node_bytes K (TLeaf (to_nibbles (K key)) v)"

lemma single_leaf_verifies:
  assumes "\<forall>x. length (K x) = 32" "length v < 2 ^ 63"
  shows "verify K [leaf_bytes K key v] (K (leaf_bytes K key v)) key = Inr v"
proof -
  let ?t = "TLeaf (to_nibbles (K key)) v"
  have "item_size (node_item K ?t) < 2 ^ 64"
    using assms by (simp add: node_item.simps length_hp_encode)
  hence "trie_ok K ?t" using length_rlp_encode [of "node_item K ?t"] by simp
  from verify_complete [OF this assms(1), of "[leaf_bytes K key v]" key v] show ?thesis
    by (simp add: leaf_bytes_def trie_root_def)
qed

definition deposit_pf :: "(bytes \<Rightarrow> bytes) \<Rightarrow> bytes \<Rightarrow> bytes \<Rightarrow> bytes \<Rightarrow> nat \<Rightarrow> evm_deposit_proof" where
  "deposit_pf K emitter topic data n =
    (let receipt = rlp_encode (receipt_item [log_item emitter topic data]);
         leaf = leaf_bytes K [0x80] receipt;
         target = rlp_encode (header_item (replicate 32 9) 100 (K leaf))
     in \<lparr>target_header = target, confirmation_headers = conf_chain K (K target) 101 (K leaf) n,
         required_confirmations = of_nat n, proof_nodes = [leaf], receipt_key = [0x80], tx_hash = [],
         emitter_address = emitter, deposit_topic0 = topic, sync_attestation = None\<rparr>)"

lemma deposit_pf_verifies:
  assumes K: "\<forall>x. length (K x) = 32" and topic: "length topic = 32"
    and size: "length emitter + length data < 2 ^ 62" and n: "n < 2 ^ 32"
  shows "verify_evm_receipt K C (deposit_pf K emitter topic data n\<lparr>tx_hash := tx\<rparr>) =
      Some (Inr \<lparr>dep_tx_hash = tx, deposit_log_data = data, block_number = 100\<rparr>) \<and>
    (\<exists>r. verify_deposit K C a (deposit_pf K emitter topic data n\<lparr>tx_hash := tx\<rparr>) = Some (Inr r))"
proof -
  let ?pf = "deposit_pf K emitter topic data n\<lparr>tx_hash := tx\<rparr>"
  define receipt where "receipt = rlp_encode (receipt_item [log_item emitter topic data])"
  define leaf where "leaf = leaf_bytes K [0x80] receipt"
  define raw where "raw = rlp_encode (header_item (replicate 32 9) 100 (K leaf))"
  define target where "target = \<lparr>h_parent_hash = replicate 32 9, h_number = 100, h_state_root = replicate 32 0,
    h_receipts_root = K leaf, h_hash = K raw\<rparr>"
  have pf: "?pf = \<lparr>target_header = raw, confirmation_headers = conf_chain K (K raw) 101 (K leaf) n,
      required_confirmations = of_nat n, proof_nodes = [leaf], receipt_key = [0x80], tx_hash = tx,
      emitter_address = emitter, deposit_topic0 = topic, sync_attestation = None\<rparr>"
    by (simp add: deposit_pf_def Let_def receipt_def leaf_def raw_def)
  have target: "decode_header K (target_header ?pf) = Inr target"
    unfolding pf using K by (simp add: target_def decode_header_item raw_def)
  obtain confs where confs: "collect_results (decode_header_or_err K) (confirmation_headers ?pf) = Inr confs"
      "length confs = n" "linked target confs"
    unfolding pf using conf_chain_linked [OF K, of "K leaf" target n] K n by (auto simp: target_def)
  have chain: "verify_chain target confs (required_confirmations ?pf) = Some (Inr ())"
    unfolding pf using confs by (simp add: verify_chain_Inr)
  have "item_size (receipt_item [log_item emitter topic data]) < 2 ^ 63"
    using size topic by (simp add: receipt_item_def log_item_def)
  hence "length receipt < 2 ^ 63" unfolding receipt_def using length_rlp_encode le_less_trans by blast
  hence mpt: "verify K (proof_nodes ?pf) (h_receipts_root target) (receipt_key ?pf) = Inr receipt"
    unfolding pf using single_leaf_verifies [OF K, of receipt "[0x80]"] by (simp add: target_def leaf_def)
  have rcpt: "decode_receipt receipt =
      Inr \<lparr>rcpt_status = True, rcpt_logs = [\<lparr>log_address = emitter, log_topics = [topic], log_data = data\<rparr>]\<rparr>"
    unfolding receipt_def using topic size by (intro decode_receipt_item) simp_all
  let ?log = "\<lparr>log_address = emitter, log_topics = [topic], log_data = data\<rparr>"
  have log: "find_log \<lparr>rcpt_status = True, rcpt_logs = [?log]\<rparr> (emitter_address ?pf) (deposit_topic0 ?pf) = Some ?log"
    unfolding pf by (simp add: find_log_def)
  have "rcpt_status \<lparr>rcpt_status = True, rcpt_logs = [?log]\<rparr>" "sync_attestation ?pf = None" unfolding pf by simp_all
  note accepted = verify_evm_receipt_intro [OF target confs(1) chain mpt rcpt this(1) log this(2)]
  show ?thesis using accepted(1) accepted(2) unfolding pf by (simp add: target_def)
qed

text \<open>A curve whose every check succeeds, with which statements are instantiated.\<close>

definition demo_curve :: curve where
  "demo_curve = \<lparr>g2_decodes = \<lambda>_. True, g2_in_subgroup = \<lambda>_. True, g1_decodes = \<lambda>_. True,
     g1_in_subgroup = \<lambda>_. True, pairing_holds = \<lambda>_ _ _. True\<rparr>"

definition full_attestation :: sync_attestation where
  "full_attestation =
    \<lparr>att_state = \<lparr>current_period = 0, current_sync_committee = replicate 512 (replicate 96 1),
       next_sync_committee = replicate 512 (replicate 96 1)\<rparr>,
     att_aggregate = \<lparr>sync_committee_bits = replicate 64 0xff, sync_committee_signature = replicate 96 1\<rparr>,
     signing_message = []\<rparr>"

lemma sync_aggregate_rejected:
  assumes "sync_aggregate_ok agg"
  shows "verify_sync_aggregate C state agg msg = Inl (InsufficientParticipation
    (if participation_count agg < PARTICIPATION_THRESHOLD then participation_count agg else 0) PARTICIPATION_THRESHOLD)"
proof -
  have "verify_bls_sig C pk msg (sync_committee_signature agg) \<noteq> Inr ()" for pk
    using assms by (simp add: verify_bls_sig_def sync_aggregate_ok_def BLS_SIGNATURE_LEN_def)
  moreover have "0 < PARTICIPATION_THRESHOLD" by (simp add: PARTICIPATION_THRESHOLD_def)
  ultimately show ?thesis by (simp add: verify_sync_aggregate_def case_prod_beta)
qed

lemma chain_loop_aborts:
  "chain_loop (h_hash (prev :: eth_header)) (h_number prev) hdrs = None \<Longrightarrow> 2 ^ 64 \<le> unat (h_number prev) + length hdrs"
proof (induction hdrs arbitrary: prev)
  case (Cons hdr hdrs)
  show ?case
  proof (cases "checked_add (h_number prev) 1")
    case None
    thus ?thesis by (auto simp: checked_add_def split: if_splits)
  next
    case (Some n)
    hence n: "unat n = unat (h_number prev) + 1" by (auto simp: result_simps unat_add_small)
    have "h_number hdr = n" "chain_loop (h_hash hdr) (h_number hdr) hdrs = None"
      using Cons.prems Some by (auto split: if_splits)
    thus ?thesis using Cons.IH [of hdr] n by simp
  qed
qed simp

section \<open>Properties\<close>

text \<open>C35: An accepted deposit is in the receipts trie.  When a proof is accepted, its headers decode, at least the
  required number of them follow the target in sequence, and, if the target's receipts root is the root of a trie,
  for a hash that does not collide on the nodes involved, the trie holds at the proof's key a successful receipt with
  a log of the named contract and topic whose data is the deposit's; the block number is the target's.\<close>

theorem evm_deposit_sound:
  assumes "verify_evm_receipt K C pf = Some (Inr d)" "decode_header K (target_header pf) = Inr target"
    and "trie_ok K t" "trie_root K t = h_receipts_root target" "\<forall>x. length (K x) = 32"
    and "inj_on K (set (proof_nodes pf) \<union> set (path_nodes K t (to_nibbles (K (receipt_key pf)))))"
  shows "block_number d = h_number target \<and>
    (\<exists>confs. list_all2 (\<lambda>raw h. decode_header K raw = Inr h) (confirmation_headers pf) confs \<and>
       required_confirmations pf \<le> of_nat (length confs) \<and>
       linked target confs) \<and>
    (\<exists>bs receipt log. trie_lookup t (to_nibbles (K (receipt_key pf))) = Some bs \<and> decode_receipt bs = Inr receipt \<and>
       rcpt_status receipt \<and> log \<in> set (rcpt_logs receipt) \<and> log_address log = emitter_address pf \<and>
       (\<exists>ts. log_topics log = deposit_topic0 pf # ts) \<and> log_data log = deposit_log_data d)"
  using assms(1)
proof (cases rule: verify_evm_receipt_cases)
  case (1 target' confs bs receipt log)
  have t: "target' = target" using 1(1) assms(2) by simp
  have "trie_lookup t (to_nibbles (K (receipt_key pf))) = Some bs"
    using verify_sound [OF assms(3,5,6)] 1(4) by (simp add: assms(4) t)
  moreover have "list_all2 (\<lambda>raw h. decode_header K raw = Inr h) (confirmation_headers pf) confs"
    using 1(2) by (simp add: collect_results_Inr decode_header_or_err_Inr)
  ultimately show ?thesis using 1(3,5-8) find_log_Some [OF 1(7)] t by (auto simp: verify_chain_Inr)
qed

theorem evm_deposit_sound_witness:
  "\<exists>d receipt bs. verify_evm_receipt length_hash demo_curve (deposit_pf length_hash [7] (replicate 32 5) [1, 2] 3) = Some (Inr d) \<and>
     block_number d = 100 \<and> deposit_log_data d = [1, 2] \<and> decode_receipt bs = Inr receipt \<and> rcpt_status receipt"
proof -
  let ?pf = "deposit_pf length_hash [7] (replicate 32 5) [1, 2] 3"
  let ?v = "rlp_encode (receipt_item [log_item [7] (replicate 32 5) [1, 2]])"
  let ?leaf = "leaf_bytes length_hash [0x80] ?v"
  let ?t = "TLeaf (to_nibbles (length_hash [0x80])) ?v"
  have K: "\<forall>x. length (length_hash x) = 32" by (simp add: length_hash_def)
  have pf: "?pf\<lparr>tx_hash := []\<rparr> = ?pf" by (simp add: deposit_pf_def Let_def)
  have v: "verify_evm_receipt length_hash demo_curve ?pf = Some (Inr \<lparr>dep_tx_hash = [], deposit_log_data = [1, 2], block_number = 100\<rparr>)"
    using deposit_pf_verifies [OF K, of "replicate 32 5" "[7]" "[1, 2]" 3 demo_curve "[]"] pf by simp
  obtain target where target: "decode_header length_hash (target_header ?pf) = Inr target" "h_receipts_root target = length_hash ?leaf"
    using decode_header_item [of "replicate 32 9" "length_hash ?leaf" length_hash 100] K by (simp add: deposit_pf_def Let_def)
  have "item_size (node_item length_hash ?t) < 2 ^ 64"
    using length_rlp_encode [of "receipt_item [log_item [7] (replicate 32 5) [1, 2]]"] K
    by (simp add: node_item.simps length_hp_encode receipt_item_def log_item_def)
  hence ok: "trie_ok length_hash ?t" using length_rlp_encode [of "node_item length_hash ?t"] by simp
  have "trie_root length_hash ?t = h_receipts_root target" by (simp add: target(2) trie_root_def leaf_bytes_def)
  moreover have "inj_on length_hash (set (proof_nodes ?pf) \<union> set (path_nodes length_hash ?t (to_nibbles (length_hash (receipt_key ?pf)))))"
    by (simp add: deposit_pf_def Let_def leaf_bytes_def)
  ultimately show ?thesis using evm_deposit_sound [OF v target(1) ok _ K] v by auto
qed

text \<open>C36: A deposit proof carries no authority of its own.  For every contract, topic and deposit data, and for every
  number of confirmations, a proof can be built from the hash function alone that is accepted with that data, and
  it is accepted with whatever transaction hash is written into it, so neither the transaction hash
  returned as the key of replay protection nor the chain of headers is bound to anything.  The adapter's configured
  address, topic and confirmation depth play no part in \<open>verify_deposit\<close>.\<close>

theorem evm_deposit_unanchored:
  assumes "\<forall>x. length (K x) = 32" "length topic = 32" "length emitter + length data < 2 ^ 62" "n < 2 ^ 32"
  shows "\<exists>pf. emitter_address pf = emitter \<and> deposit_topic0 pf = topic \<and> required_confirmations pf = of_nat n \<and>
    (\<forall>tx a. verify_evm_receipt K C (pf\<lparr>tx_hash := tx\<rparr>) =
        Some (Inr \<lparr>dep_tx_hash = tx, deposit_log_data = data, block_number = 100\<rparr>) \<and>
      (\<exists>r. verify_deposit K C a (pf\<lparr>tx_hash := tx\<rparr>) = Some (Inr r)))"
proof (intro exI [of _ "deposit_pf K emitter topic data n"] conjI allI)
  fix tx a
  show "verify_evm_receipt K C (deposit_pf K emitter topic data n\<lparr>tx_hash := tx\<rparr>) =
      Some (Inr \<lparr>dep_tx_hash = tx, deposit_log_data = data, block_number = 100\<rparr>)"
    and "\<exists>r. verify_deposit K C a (deposit_pf K emitter topic data n\<lparr>tx_hash := tx\<rparr>) = Some (Inr r)"
    using deposit_pf_verifies [OF assms] by blast+
qed (simp_all add: deposit_pf_def Let_def)

theorem evm_deposit_unanchored_witness:
  "\<exists>pf. required_confirmations pf = 64 \<and>
    verify_evm_receipt length_hash demo_curve (pf\<lparr>tx_hash := ''0xabc''\<rparr>) =
      Some (Inr \<lparr>dep_tx_hash = ''0xabc'', deposit_log_data = [1, 2], block_number = 100\<rparr>)"
proof -
  have "\<forall>x. length (length_hash x) = 32" by (simp add: length_hash_def)
  from evm_deposit_unanchored [OF this, of "replicate 32 5" "[7]" "[1, 2]" 64 demo_curve] show ?thesis by auto
qed

text \<open>C37: An attestation is never accepted.  The signature of a sync aggregate is an array of 96 bytes, and
  \<open>verify_bls_sig\<close> takes signatures of 48 bytes only; so no member's signature counts, every aggregate is refused
  for want of participation, and a proof that carries an attestation is never accepted.\<close>

theorem sync_attestation_never_accepted:
  assumes "sync_attestation pf = Some att" "sync_aggregate_ok (att_aggregate att)"
  shows "verify_sync_aggregate C state (att_aggregate att) msg \<noteq> Inr () \<and>
    verify_evm_receipt K C pf \<noteq> Some (Inr d)"
  using sync_aggregate_rejected [OF assms(2)] assms(1) by (auto elim: verify_evm_receipt_cases)

theorem sync_attestation_never_accepted_witness:
  "verify_sync_aggregate demo_curve (att_state full_attestation) (att_aggregate full_attestation) [] \<noteq> Inr ()"
  using sync_attestation_never_accepted
    [of "deposit_pf length_hash [7] (replicate 32 5) [1, 2] 3\<lparr>sync_attestation := Some full_attestation\<rparr>" full_attestation]
  by (simp add: full_attestation_def sync_aggregate_ok_def SYNC_COMMITTEE_SIZE_def BLS_SIGNATURE_LEN_def)

text \<open>C38: Verification aborts the node only on a block number that overflows, and a proof that makes it abort exists.
  Whenever the number of the target header plus the number of confirmations fits in 64 bits, verification returns a
  result; a target with the largest number and one confirmation that names it aborts the process.\<close>

theorem evm_verification_aborts:
  assumes "\<forall>x. length (K x) = 32"
  shows "(verify_evm_receipt K C pf = None \<longrightarrow>
      (\<exists>target. decode_header K (target_header pf) = Inr target \<and>
         2 ^ 64 \<le> unat (h_number target) + length (confirmation_headers pf))) \<and>
    (\<exists>pf. verify_evm_receipt K C pf = None)"
proof
  show "verify_evm_receipt K C pf = None \<longrightarrow> (\<exists>target. decode_header K (target_header pf) = Inr target \<and>
      2 ^ 64 \<le> unat (h_number target) + length (confirmation_headers pf))"
  proof
    assume "verify_evm_receipt K C pf = None"
    then obtain target confs where t: "decode_header K (target_header pf) = Inr target"
        "collect_results (decode_header_or_err K) (confirmation_headers pf) = Inr confs"
        "verify_chain target confs (required_confirmations pf) = None"
      by (auto simp: verify_evm_receipt_def decode_header_or_err_Inr Let_def split: sum.splits option.splits if_splits)
    have "length confs = length (confirmation_headers pf)" using t(2) by (auto simp: collect_results_Inr dest: list_all2_lengthD)
    thus "\<exists>target. decode_header K (target_header pf) = Inr target \<and>
        2 ^ 64 \<le> unat (h_number target) + length (confirmation_headers pf)"
      using t chain_loop_aborts [of target confs] by (auto simp: verify_chain_def split: if_splits)
  qed
  let ?raw = "rlp_encode (header_item (replicate 32 9) (- 1) (replicate 32 0))"
  let ?conf = "rlp_encode (header_item (K ?raw) 0 (replicate 32 0))"
  let ?pf = "deposit_pf K [] [] [] 0\<lparr>target_header := ?raw, confirmation_headers := [?conf], required_confirmations := 1\<rparr>"
  have "verify_evm_receipt K C ?pf = None"
    using assms by (simp add: verify_evm_receipt_def decode_header_or_err_def decode_header_item verify_chain_def
        checked_add_def unat_max_word)
  thus "\<exists>pf. verify_evm_receipt K C pf = None" by blast
qed

theorem evm_verification_aborts_witness:
  "\<exists>pf. verify_evm_receipt length_hash demo_curve pf = None"
  using evm_verification_aborts [of length_hash demo_curve] by (simp add: length_hash_def)

end
