(* ===== verification/Replay_Spec.thy ===== *)
theory Replay_Spec
  imports Main
begin

text \<open>
  The contract of replay protection, as the bridge relies on it: marking a message succeeds exactly
  when it has not been seen, and makes it seen without changing any other message.  A marked
  message can then never be marked again, whatever is marked in between.
\<close>

locale replay_guard =
  fixes seen :: "'s \<Rightarrow> 'm \<Rightarrow> bool"
    and mark :: "'m \<Rightarrow> 's \<Rightarrow> 's option"
  assumes mark_None: "mark m s = None \<longleftrightarrow> seen s m"
    and mark_Some: "mark m s = Some s' \<Longrightarrow> seen s' m' \<longleftrightarrow> m' = m \<or> seen s m'"
begin

fun mark_all :: "'m list \<Rightarrow> 's \<Rightarrow> 's option" where
  "mark_all [] s = Some s"
| "mark_all (m # ms) s = (case mark m s of None \<Rightarrow> None | Some s' \<Rightarrow> mark_all ms s')"

lemma mark_all_seen: "mark_all ms s = Some s' \<Longrightarrow> seen s' m \<longleftrightarrow> m \<in> set ms \<or> seen s m"
  by (induction ms arbitrary: s) (auto simp: mark_Some split: option.splits)

lemma mark_all_distinct: "mark_all ms s = Some s' \<Longrightarrow> distinct ms \<and> (\<forall>m \<in> set ms. \<not> seen s m)"
proof (induction ms arbitrary: s)
  case (Cons m ms)
  then obtain s1 where s1: "mark m s = Some s1" and rest: "mark_all ms s1 = Some s'"
    by (auto split: option.splits)
  then have "\<not> seen s m" using mark_None by (metis option.distinct(1))
  then show ?case using Cons.IH [OF rest] mark_Some [OF s1] by auto
qed simp

lemma never_twice: "mark m s = Some s1 \<Longrightarrow> mark_all ms s1 = Some s2 \<Longrightarrow> mark m s2 = None"
  by (simp add: mark_None mark_all_seen mark_Some)

end

end
