(* ===== verification/Relayer.thy ===== *)
theory Relayer
  imports Event_Tree Replay_Spec Invariant_Spec
begin

text \<open>
  The relayer, \<open>src/cross_domain/relayer.rs\<close>: the ledger of relayed messages, pending relays and the checks of a
  submission.  The serialisation of a proof, by the crate \<open>bincode\<close>, is the parameter \<open>ser\<close>: the bytes or an
  error text.
\<close>

section \<open>Data\<close>

datatype relayer_error =
    NotActiveRelayer address
  | AlreadyRelayed message_id
  | InvalidProof string
  | Expired message_id u64 u64
  | InvalidTransferState message_id
  | SourceDomainMismatch domain_id domain_id
  | RelayOther string

definition hex_digit :: "u8 \<Rightarrow> char" where
  "hex_digit d = ''0123456789abcdef'' ! unat d"

definition hex_encode :: "bytes \<Rightarrow> string" where
  "hex_encode bs = concat (map (\<lambda>b. [hex_digit (drop_bit 4 b), hex_digit (b AND 0x0f)]) bs)"

record relay_record =
  rr_relayer :: address
  rr_height :: u64
  rr_proof_hash :: hash32

type_synonym relay_ledger = "(message_id, relay_record) btree_map"

definition ledger_new :: relay_ledger where
  "ledger_new = []"

definition ledger_record ::
    "message_id \<Rightarrow> address \<Rightarrow> u64 \<Rightarrow> hash32 \<Rightarrow> relay_ledger \<Rightarrow> (relayer_error + unit) \<times> relay_ledger" where
  "ledger_record mid relayer height proof_hash l =
    (if btm_contains l mid then (Inl (AlreadyRelayed mid), l)
     else (Inr (), btm_insert mid \<lparr>rr_relayer = relayer, rr_height = height, rr_proof_hash = proof_hash\<rparr> l))"

definition ledger_is_relayed :: "relay_ledger \<Rightarrow> message_id \<Rightarrow> bool" where
  "ledger_is_relayed l mid = btm_contains l mid"

definition get_record :: "relay_ledger \<Rightarrow> message_id \<Rightarrow> relay_record option" where
  "get_record l mid = btm_get l mid"

definition ledger_root :: "hash_fn \<Rightarrow> relay_ledger \<Rightarrow> hash32" where
  "ledger_root H l =
    merkle_root H (map (\<lambda>(mid, rec). H [ascii ''BDLM_RELAY_RECORD_V1'', mid, rr_relayer rec,
      le_bytes 8 (rr_height rec), rr_proof_hash rec]) l)"

record relayer_config =
  relay_window_blocks :: u64
  min_relayer_stake :: u64
  slash_ratio_invalid :: u64
  slash_ratio_expired :: u64

definition default_relayer_config :: relayer_config where
  "default_relayer_config =
    \<lparr>relay_window_blocks = 100, min_relayer_stake = 10000000, slash_ratio_invalid = 50, slash_ratio_expired = 25\<rparr>"

record pending_relay =
  pr_message_id :: message_id
  pr_source_domain :: domain_id
  pr_target_domain :: domain_id
  pr_source_event :: domain_event
  pr_created_height :: u64
  pr_expiry_height :: u64

record universal_relayer =
  rel_config :: relayer_config
  rel_ledger :: relay_ledger
  pending :: "(message_id, pending_relay) btree_map"

definition relayer_new :: "relayer_config \<Rightarrow> universal_relayer" where
  "relayer_new config = \<lparr>rel_config = config, rel_ledger = ledger_new, pending = []\<rparr>"

section \<open>Operations\<close>

definition enqueue_relay :: "domain_event \<Rightarrow> cross_domain_message \<Rightarrow> u64 \<Rightarrow> universal_relayer \<Rightarrow> universal_relayer" where
  "enqueue_relay source_event message created_height s =
    (let relay = \<lparr>pr_message_id = msg_id message, pr_source_domain = msg_source_domain message,
           pr_target_domain = msg_target_domain message, pr_source_event = source_event,
           pr_created_height = created_height, pr_expiry_height = msg_expiry_height message\<rparr>
     in s\<lparr>pending := btm_insert (msg_id message) relay (pending s)\<rparr>)"

definition expired_at :: "pending_relay \<Rightarrow> u64 \<Rightarrow> bool" where
  "expired_at r current_height \<longleftrightarrow> pr_expiry_height r > 0 \<and> current_height > pr_expiry_height r"

definition process_relay ::
    "hash_fn \<Rightarrow> (merkle_proof \<Rightarrow> string + bytes) \<Rightarrow> message_id \<Rightarrow> address \<Rightarrow> merkle_proof \<Rightarrow> hash32 \<Rightarrow> u64 \<Rightarrow>
     universal_relayer \<Rightarrow> (relayer_error + cross_domain_message) \<times> universal_relayer" where
  "process_relay H ser mid relayer pf event_tree_root current_height s =
    (if ledger_is_relayed (rel_ledger s) mid then (Inl (AlreadyRelayed mid), s)
     else case btm_get (pending s) mid of
       None \<Rightarrow> (Inl (RelayOther (''no pending relay for message '' @ hex_encode mid)), s)
     | Some p \<Rightarrow>
         if expired_at p current_height then (Inl (Expired mid (pr_expiry_height p) current_height), s)
         else if \<not> proof_verify H pf event_tree_root
         then (Inl (InvalidProof ''Merkle proof does not verify against event tree root''), s)
         else if proof_leaf pf \<noteq> leaf_hash H (pr_source_event p)
         then (Inl (InvalidProof ''proof leaf does not match source event hash''), s)
         else case ser pf of
           Inl e \<Rightarrow> (Inl (RelayOther (''proof serialization failed: '' @ e)), s)
         | Inr proof_bytes \<Rightarrow>
             (let proof_hash = H [ascii ''BDLM_RELAY_PROOF_HASH_V1'', proof_bytes]
              in case ledger_record mid relayer current_height proof_hash (rel_ledger s) of
                   (Inl e, l) \<Rightarrow> (Inl e, s\<lparr>rel_ledger := l\<rparr>)
                 | (Inr _, l) \<Rightarrow>
                     (let s = s\<lparr>rel_ledger := l\<rparr>
                      in case ev_message (pr_source_event p) of
                           None \<Rightarrow> (Inl (RelayOther ''source event has no cross-domain message''), s)
                         | Some message \<Rightarrow>
                             if \<not> verify_id H message
                             then (Inl (InvalidProof ''Relayed message ID does not match computed ID (tamper check)''), s)
                             else (Inr message, s\<lparr>pending := btm_remove mid (pending s)\<rparr>))))"

definition get_pending :: "universal_relayer \<Rightarrow> message_id \<Rightarrow> pending_relay option" where
  "get_pending s mid = btm_get (pending s) mid"

definition is_relayed :: "universal_relayer \<Rightarrow> message_id \<Rightarrow> bool" where
  "is_relayed s mid = ledger_is_relayed (rel_ledger s) mid"

definition pending_count :: "universal_relayer \<Rightarrow> nat" where
  "pending_count s = length (pending s)"

definition expired_relays :: "universal_relayer \<Rightarrow> u64 \<Rightarrow> pending_relay list" where
  "expired_relays s current_height = filter (\<lambda>r. expired_at r current_height) (map snd (pending s))"

definition relayer_ledger_root :: "hash_fn \<Rightarrow> universal_relayer \<Rightarrow> hash32" where
  "relayer_ledger_root H s = ledger_root H (rel_ledger s)"

section \<open>Replay protection\<close>

text \<open>The ledger keeps the contract of replay protection that the bridge's nonce store keeps.\<close>

definition try_record :: "address \<Rightarrow> u64 \<Rightarrow> hash32 \<Rightarrow> message_id \<Rightarrow> relay_ledger \<Rightarrow> relay_ledger option" where
  "try_record relayer height proof_hash mid l =
    (case ledger_record mid relayer height proof_hash l of (Inl _, _) \<Rightarrow> None | (Inr _, l') \<Rightarrow> Some l')"

interpretation relay_guard: replay_guard ledger_is_relayed "try_record relayer height proof_hash"
  for relayer height proof_hash
  by unfold_locales
    (auto simp: ledger_is_relayed_def try_record_def ledger_record_def btm_contains_def split: if_splits)

lemma process_relay_cases:
  assumes "process_relay H ser mid relayer pf root height s = (r, s')"
  obtains (err) e where "r = Inl e" "s' = s"
  | (late_err) e l p where "r = Inl e" "btm_get (pending s) mid = Some p" "s' = s\<lparr>rel_ledger := l\<rparr>"
      "\<not> is_relayed s mid" "\<And>k. ledger_is_relayed l k \<longleftrightarrow> k = mid \<or> is_relayed s k"
      "case ev_message (pr_source_event p) of None \<Rightarrow> True | Some m \<Rightarrow> \<not> verify_id H m"
  | (ok) p m l where "r = Inr m" "btm_get (pending s) mid = Some p" "\<not> is_relayed s mid"
      "\<not> expired_at p height" "proof_verify H pf root" "proof_leaf pf = leaf_hash H (pr_source_event p)"
      "ev_message (pr_source_event p) = Some m" "verify_id H m"
      "\<And>k. ledger_is_relayed l k \<longleftrightarrow> k = mid \<or> is_relayed s k"
      "s' = s\<lparr>rel_ledger := l, pending := btm_remove mid (pending s)\<rparr>"
proof (cases "ledger_is_relayed (rel_ledger s) mid \<or> btm_get (pending s) mid = None")
  case True
  thus ?thesis using assms err by (auto simp: process_relay_def split: option.splits if_splits)
next
  case False
  then obtain p where p: "btm_get (pending s) mid = Some p" "\<not> ledger_is_relayed (rel_ledger s) mid" by blast
  show ?thesis
  proof (cases "expired_at p height \<or> \<not> proof_verify H pf root \<or> proof_leaf pf \<noteq> leaf_hash H (pr_source_event p) \<or> isl (ser pf)")
    case True
    thus ?thesis using assms p err by (auto simp: process_relay_def split: if_splits sum.splits)
  next
    case False
    then obtain bs where bs: "ser pf = Inr bs" by (cases "ser pf") auto
    let ?hash = "H [ascii ''BDLM_RELAY_PROOF_HASH_V1'', bs]"
    obtain l where tr: "try_record relayer height ?hash mid (rel_ledger s) = Some l"
      using p(2) relay_guard.mark_None [of relayer height ?hash mid "rel_ledger s"] by auto
    hence rec: "ledger_record mid relayer height ?hash (rel_ledger s) = (Inr (), l)"
      by (auto simp: try_record_def split: prod.splits sum.splits)
    have l: "ledger_is_relayed l k \<longleftrightarrow> k = mid \<or> is_relayed s k" for k
      using relay_guard.mark_Some [OF tr] by (simp add: is_relayed_def)
    show ?thesis
      using assms p False bs rec late_err [OF _ p(1) _ _ l] ok [OF _ p(1) _ _ _ _ _ _ l]
      by (auto simp: process_relay_def is_relayed_def Let_def split: option.splits if_splits)
  qed
qed

section \<open>Runs\<close>

inductive relayer_step :: "hash_fn \<Rightarrow> (merkle_proof \<Rightarrow> string + bytes) \<Rightarrow> universal_relayer \<Rightarrow> universal_relayer \<Rightarrow> bool"
  for H ser where
  step_enqueue: "relayer_step H ser s (enqueue_relay ev m h s)"
| step_process: "process_relay H ser mid r pf root h s = (res, s') \<Longrightarrow> relayer_step H ser s s'"

lemma is_relayed_enqueue [simp]: "is_relayed (enqueue_relay ev m h s) k = is_relayed s k"
  by (simp add: is_relayed_def enqueue_relay_def Let_def)

lemma is_relayed_step: "relayer_step H ser s s' \<Longrightarrow> is_relayed s k \<Longrightarrow> is_relayed s' k"
proof (induction rule: relayer_step.induct)
  case (step_process mid r pf root h s res s')
  from step_process.hyps step_process.prems show ?case
    by (cases rule: process_relay_cases) (auto simp: is_relayed_def)
qed simp

interpretation relayed: inductive_invariant "relayer_step H ser" "\<lambda>s. is_relayed s k" for H ser k
  by unfold_locales (rule is_relayed_step)

section \<open>Inclusion\<close>

lemma merkle_next_in: "v \<in> set (merkle_next H xs) \<Longrightarrow> \<exists>a \<in> set xs. \<exists>b \<in> set xs. v = merkle_node H a b"
  by (induction H xs rule: merkle_next.induct) auto

definition tree_level :: "hash_fn \<Rightarrow> hash32 list \<Rightarrow> nat \<Rightarrow> hash32 set" where
  "tree_level H xs k = set ((merkle_next H ^^ k) xs)"

lemma merkle_loop_level: "xs \<noteq> [] \<Longrightarrow> \<exists>k. merkle_loop H xs ! 0 \<in> tree_level H xs k"
proof (induction H xs rule: merkle_loop.induct)
  case (1 H xs)
  show ?case
  proof (cases "length xs > 1")
    case True
    hence "0 < length (merkle_next H xs)" unfolding length_merkle_next by linarith
    hence "merkle_next H xs \<noteq> []" by blast
    then obtain k where "merkle_loop H (merkle_next H xs) ! 0 \<in> tree_level H (merkle_next H xs) k" using 1 True by blast
    thus ?thesis using True by (intro exI [of _ "Suc k"]) (simp add: merkle_loop.simps [of H xs] tree_level_def funpow_swap1)
  next
    case False
    thus ?thesis using "1.prems" by (intro exI [of _ 0]) (simp add: merkle_loop.simps [of H xs] tree_level_def)
  qed
qed

lemma verify_loop_snoc:
  "verify_loop H h i (ss @ [s]) =
    (let y = verify_loop H h i ss in if even (i div 2 ^ length ss) then merkle_node H y s else merkle_node H s y)"
  by (induction ss arbitrary: h i) (simp_all add: Let_def div_mult2_eq)

lemma verify_loop_level:
  assumes "node_injective H" "\<And>v a b. v \<in> set xs \<Longrightarrow> v \<noteq> merkle_node H a b"
  shows "verify_loop H h i ss \<in> tree_level H xs k \<Longrightarrow> \<exists>k. h \<in> tree_level H xs k"
proof (induction ss arbitrary: k rule: rev_induct)
  case (snoc s ss)
  let ?y = "verify_loop H h i ss"
  obtain a b where v: "verify_loop H h i (ss @ [s]) = merkle_node H a b" "?y = a \<or> ?y = b"
    by (cases "even (i div 2 ^ length ss)") (auto simp: verify_loop_snoc Let_def)
  show ?case
  proof (cases k)
    case 0
    thus ?thesis using snoc.prems assms(2) [of "merkle_node H a b" a b] v(1) by (simp add: tree_level_def)
  next
    case (Suc k')
    then obtain c d where "c \<in> tree_level H xs k'" "d \<in> tree_level H xs k'" "merkle_node H a b = merkle_node H c d"
      using snoc.prems merkle_next_in unfolding tree_level_def v(1) by fastforce
    thus ?thesis using node_injectiveD [OF assms(1)] v(2) snoc.IH by metis
  qed
qed auto

lemma inj_node_injective: "inj H \<Longrightarrow> node_injective H"
  unfolding node_injective_def merkle_node_def by (simp add: inj_eq)

lemma leaf_not_node: "inj H \<Longrightarrow> leaf_hash H e \<noteq> merkle_node H a b"
  by (simp add: leaf_hash_def merkle_node_def inj_eq)

text \<open>A proof for the hash of an event that verifies against the root of a tree is about an event of the tree,
  whatever index and however many siblings it carries.\<close>

lemma proof_in_tree:
  assumes "inj H" "proof_verify H p (tree_root H t)" "proof_leaf p = leaf_hash H e"
  shows "leaf_hash H e \<in> leaf_hash H ` set t"
proof -
  let ?xs = "map (leaf_hash H) t"
  have v: "verify_loop H (leaf_hash H e) (proof_index p) (proof_siblings p) = merkle_root H ?xs"
    using assms(2,3) by (simp add: proof_verify_def tree_root_def)
  have "t \<noteq> []"
  proof
    assume "t = []"
    hence r: "merkle_root H ?xs = H [ascii ''BDLM_EMPTY_MERKLE_ROOT_V1'']" by (simp add: merkle_root_def)
    show False
    proof (cases "proof_siblings p" rule: rev_cases)
      case Nil
      thus ?thesis using v r assms(1) by (simp add: leaf_hash_def inj_eq)
    next
      case (snoc ss s)
      thus ?thesis using v r assms(1) by (simp add: verify_loop_snoc merkle_node_def Let_def inj_eq split: if_splits)
    qed
  qed
  hence r: "merkle_root H ?xs = merkle_loop H ?xs ! 0" "?xs \<noteq> []" by (simp_all add: merkle_root_def)
  have leaves: "x \<noteq> merkle_node H a b" if "x \<in> set ?xs" for x a b using that leaf_not_node [OF assms(1)] by auto
  obtain k0 where "merkle_loop H ?xs ! 0 \<in> tree_level H ?xs k0" using merkle_loop_level [OF r(2)] by blast
  hence "verify_loop H (leaf_hash H e) (proof_index p) (proof_siblings p) \<in> tree_level H ?xs k0" by (simp only: v r(1))
  from verify_loop_level [OF inj_node_injective [OF assms(1)] leaves this]
  obtain k where k: "leaf_hash H e \<in> tree_level H ?xs k" by blast
  show ?thesis
  proof (cases k)
    case (Suc k')
    thus ?thesis using k merkle_next_in [of "leaf_hash H e" H "(merkle_next H ^^ k') ?xs"] leaf_not_node [OF assms(1)]
      by (auto simp: tree_level_def)
  qed (use k in \<open>simp add: tree_level_def\<close>)
qed

lemma leaf_hash_fields:
  assumes "inj H" "leaf_hash H e = leaf_hash H e'"
  shows "ev_domain_id e = ev_domain_id e'" "ev_domain_height e = ev_domain_height e'" "ev_event_index e = ev_event_index e'"
    "event_kind_bytes (ev_kind e) = event_kind_bytes (ev_kind e')" "ev_emitter e = ev_emitter e'"
    "ev_payload_hash e = ev_payload_hash e'"
    "(case ev_message e of Some m \<Rightarrow> msg_id m | None \<Rightarrow> zero32) = (case ev_message e' of Some m \<Rightarrow> msg_id m | None \<Rightarrow> zero32)"
  using assms by (simp_all add: leaf_hash_def inj_eq)

section \<open>Properties\<close>

definition demo_message :: cross_domain_message where
  "demo_message = new_message field_image
    \<lparr>par_source_domain = 1, par_target_domain = 2, par_source_height = 10, par_event_index = 0, par_nonce = 0,
     par_sender = replicate 32 1, par_recipient = replicate 32 2, par_payload_hash = replicate 32 3,
     par_kind = BridgeLock, par_expiry_height = 50\<rparr>"

definition demo_event :: domain_event where
  "demo_event = \<lparr>ev_domain_id = 1, ev_domain_height = 10, ev_event_index = 0, ev_kind = BridgeLocked,
     ev_emitter = replicate 32 1, ev_message = Some demo_message, ev_payload_hash = replicate 32 3\<rparr>"

definition demo_relayer :: universal_relayer where
  "demo_relayer = enqueue_relay demo_event demo_message 10 (relayer_new default_relayer_config)"

definition demo_proof :: merkle_proof where
  "demo_proof = \<lparr>proof_leaf = leaf_hash field_image demo_event, proof_index = 0, proof_siblings = []\<rparr>"

lemma demo_relay:
  "\<exists>s. process_relay field_image (\<lambda>_. Inr []) (msg_id demo_message) (replicate 32 9) demo_proof
    (tree_root field_image [demo_event]) 20 demo_relayer = (Inr demo_message, s)"
proof -
  have "verify_id field_image demo_message" unfolding demo_message_def by simp
  moreover have "tree_root field_image [demo_event] = leaf_hash field_image demo_event"
    by (simp add: tree_root_def merkle_root_def merkle_loop.simps)
  moreover have "msg_expiry_height demo_message = 50" by (simp add: demo_message_def)
  ultimately show ?thesis
    by (simp add: process_relay_def demo_relayer_def enqueue_relay_def relayer_new_def ledger_new_def ledger_is_relayed_def
        btm_contains_def btm_get_def expired_at_def proof_verify_def demo_proof_def ledger_record_def Let_def)
      (simp add: demo_event_def)
qed

text \<open>C40: A relayed message comes from an event of the source domain.  For a hash without collisions, when a submission
  against the root of a domain's event tree is accepted, the tree contains an event with the hash of the pending
  event: the same domain, height, index, hashed kind, emitter and payload, and the same identifier of any message it carries;
  the message returned is the pending event's, its identifier is genuine, the relay had not expired, and afterwards the
  message is recorded as relayed and no longer pending.\<close>

theorem relayed_message_from_event:
  assumes "inj H" "process_relay H ser mid relayer pf (tree_root H t) height s = (Inr m, s')"
  shows "\<exists>p e. get_pending s mid = Some p \<and> ev_message (pr_source_event p) = Some m \<and> verify_id H m \<and>
    \<not> expired_at p height \<and> e \<in> set t \<and> leaf_hash H e = leaf_hash H (pr_source_event p) \<and>
    ev_domain_id e = ev_domain_id (pr_source_event p) \<and> ev_domain_height e = ev_domain_height (pr_source_event p) \<and>
    ev_event_index e = ev_event_index (pr_source_event p) \<and>
    event_kind_bytes (ev_kind e) = event_kind_bytes (ev_kind (pr_source_event p)) \<and>
    ev_emitter e = ev_emitter (pr_source_event p) \<and> ev_payload_hash e = ev_payload_hash (pr_source_event p) \<and>
    (\<forall>m'. ev_message e = Some m' \<longrightarrow> msg_id m' = msg_id m) \<and> is_relayed s' mid \<and> get_pending s' mid = None"
  using assms(2)
proof (cases rule: process_relay_cases)
  case (ok p m'' l)
  from proof_in_tree [OF assms(1) ok(5,6)] obtain e where e: "e \<in> set t" "leaf_hash H e = leaf_hash H (pr_source_event p)"
    by force
  show ?thesis using ok e leaf_hash_fields [OF assms(1) e(2)]
    by (intro exI [of _ p] exI [of _ e]) (auto simp: get_pending_def is_relayed_def)
qed simp_all

theorem relayed_message_from_event_witness:
  "\<exists>p e. get_pending demo_relayer (msg_id demo_message) = Some p \<and> e \<in> set [demo_event] \<and>
     leaf_hash field_image e = leaf_hash field_image (pr_source_event p)"
proof -
  have "inj field_image" by (rule injI) (rule field_image_inject)
  with demo_relay show ?thesis using relayed_message_from_event by blast
qed

text \<open>A message is relayed at most once.  After a submission has been accepted, whatever is enqueued or submitted
  afterwards, every further submission for the same message is refused as a replay and changes nothing.\<close>

theorem relayed_at_most_once:
  assumes "process_relay H ser mid relayer pf root height s = (Inr m, s1)" "(relayer_step H ser)\<^sup>*\<^sup>* s1 s2"
  shows "process_relay H ser' mid relayer' pf' root' height' s2 = (Inl (AlreadyRelayed mid), s2)"
proof -
  have "is_relayed s1 mid" using assms(1) by (cases rule: process_relay_cases) (auto simp: is_relayed_def)
  from relayed.inv_reachable [OF assms(2) this] show ?thesis by (simp add: process_relay_def is_relayed_def)
qed

theorem relayed_at_most_once_witness:
  "\<exists>s. process_relay field_image (\<lambda>_. Inr []) (msg_id demo_message) (replicate 32 9) demo_proof
      (tree_root field_image [demo_event]) 20 demo_relayer = (Inr demo_message, s) \<and>
    process_relay field_image (\<lambda>_. Inr []) (msg_id demo_message) (replicate 32 8) demo_proof
      (tree_root field_image [demo_event]) 21 (enqueue_relay demo_event demo_message 21 s) =
        (Inl (AlreadyRelayed (msg_id demo_message)), enqueue_relay demo_event demo_message 21 s)"
proof -
  obtain s where s: "process_relay field_image (\<lambda>_. Inr []) (msg_id demo_message) (replicate 32 9) demo_proof
      (tree_root field_image [demo_event]) 20 demo_relayer = (Inr demo_message, s)" using demo_relay by blast
  have "(relayer_step field_image (\<lambda>_. Inr []))\<^sup>*\<^sup>* s (enqueue_relay demo_event demo_message 21 s)"
    by (rule r_into_rtranclp) (rule step_enqueue)
  from relayed_at_most_once [OF s this] s show ?thesis by blast
qed

end
