(* ===== verification/Codec_Spec.thy ===== *)
theory Codec_Spec
  imports Main
begin

text \<open>
  The contract between a fallible decoder and its encoder, as the code generator (which encodes,
  decodes and patches instruction words) and the virtual machine (which decodes them) rely on it:
  valid values survive encoding, decoding yields valid values only, and a decoded word encodes back
  to its normal form.
\<close>

locale codec =
  fixes enc :: "'i \<Rightarrow> 'w" and dec :: "'w \<Rightarrow> 'e + 'i"
    and valid :: "'i \<Rightarrow> bool" and norm :: "'w \<Rightarrow> 'w"
  assumes dec_enc: "valid i \<Longrightarrow> dec (enc i) = Inr i"
    and dec_valid: "dec w = Inr i \<Longrightarrow> valid i"
    and enc_dec: "dec w = Inr i \<Longrightarrow> enc i = norm w"
    and dec_norm: "dec (norm w) = dec w"
begin

lemma enc_inject:
  assumes "valid i" "valid j" and "enc i = enc j"
  shows "i = j"
proof -
  have "dec (enc i) = Inr j" unfolding assms(3) by (rule dec_enc [OF assms(2)])
  then show ?thesis unfolding dec_enc [OF assms(1)] by (rule sum.inject(2) [THEN iffD1])
qed

lemma norm_enc: "valid i \<Longrightarrow> norm (enc i) = enc i"
  by (rule enc_dec [symmetric]) (rule dec_enc)

lemma dec_iff: "dec w = Inr i \<longleftrightarrow> valid i \<and> enc i = norm w"
proof
  assume "valid i \<and> enc i = norm w"
  then have v: "valid i" and e: "norm w = enc i" by simp_all
  have "dec (norm w) = Inr i" unfolding e by (rule dec_enc [OF v])
  then show "dec w = Inr i" by (simp only: dec_norm)
next
  assume d: "dec w = Inr i"
  show "valid i \<and> enc i = norm w" by (rule conjI) (rule dec_valid [OF d], rule enc_dec [OF d])
qed

end

end
