(* ===== verification/Isa.thy ===== *)
theory Isa
  imports Prelude Codec_Spec
begin

text \<open>
  The instruction set, \<open>budzero/bud-isa/src/lib.rs\<close>: the opcodes with their byte values, the
  mainnet activation gates, the instruction word and its encoding into 64 bits, and the three
  decoders.  The lemmas establish which words round-trip, that decoding always yields register
  indices below 32, and what the activation gates let through.
\<close>

section \<open>Opcodes and activation gates\<close>

datatype opcode =
    Op_Halt | Op_Add | Op_Sub | Op_Mul | Op_Div | Op_Inv
  | Op_And | Op_Not | Op_Eq | Op_Neq | Op_Lt | Op_Gt
  | Op_Lte | Op_Gte | Op_Jmp | Op_Jnz | Op_Call | Op_Ret
  | Op_Load | Op_Store | Op_Push | Op_Pop | Op_Assert | Op_Poseidon
  | Op_Log | Op_SRead | Op_SWrite | Op_Syscall | Op_VerifyMerkle | Op_VerifyInference
  | Op_PrivacyCommit | Op_NullifierCheck | Op_SumConservation

text \<open>The enum's discriminants (\<open>self.opcode as u64\<close>).\<close>

fun opcode_u8 :: "opcode \<Rightarrow> u8" where
  "opcode_u8 Op_Halt = 0x00"
| "opcode_u8 Op_Add = 0x01"
| "opcode_u8 Op_Sub = 0x02"
| "opcode_u8 Op_Mul = 0x03"
| "opcode_u8 Op_Div = 0x04"
| "opcode_u8 Op_Inv = 0x05"
| "opcode_u8 Op_And = 0x06"
| "opcode_u8 Op_Not = 0x09"
| "opcode_u8 Op_Eq = 0x0A"
| "opcode_u8 Op_Neq = 0x0B"
| "opcode_u8 Op_Lt = 0x0C"
| "opcode_u8 Op_Gt = 0x0D"
| "opcode_u8 Op_Lte = 0x0E"
| "opcode_u8 Op_Gte = 0x0F"
| "opcode_u8 Op_Jmp = 0x10"
| "opcode_u8 Op_Jnz = 0x11"
| "opcode_u8 Op_Call = 0x12"
| "opcode_u8 Op_Ret = 0x13"
| "opcode_u8 Op_Load = 0x14"
| "opcode_u8 Op_Store = 0x15"
| "opcode_u8 Op_Push = 0x16"
| "opcode_u8 Op_Pop = 0x17"
| "opcode_u8 Op_Assert = 0x18"
| "opcode_u8 Op_Poseidon = 0x19"
| "opcode_u8 Op_Log = 0x1A"
| "opcode_u8 Op_SRead = 0x1B"
| "opcode_u8 Op_SWrite = 0x1C"
| "opcode_u8 Op_Syscall = 0x1D"
| "opcode_u8 Op_VerifyMerkle = 0x1E"
| "opcode_u8 Op_VerifyInference = 0x1F"
| "opcode_u8 Op_PrivacyCommit = 0x20"
| "opcode_u8 Op_NullifierCheck = 0x21"
| "opcode_u8 Op_SumConservation = 0x22"

definition is_experimental :: "opcode \<Rightarrow> bool" where
  "is_experimental op = False"

definition requires_mainnet_activation :: "opcode \<Rightarrow> bool" where
  "requires_mainnet_activation op =
     (op \<in> {Op_VerifyMerkle, Op_VerifyInference, Op_PrivacyCommit, Op_NullifierCheck,
            Op_SumConservation})"

datatype isa_profile = Production | Experimental | Testing

record mainnet_activation =
  verify_merkle_enabled :: bool
  verify_inference_enabled :: bool
  privacy_commit_enabled :: bool
  nullifier_check_enabled :: bool
  sum_conservation_enabled :: bool

definition activation_default :: mainnet_activation where
  "activation_default =
     \<lparr>verify_merkle_enabled = False, verify_inference_enabled = False,
      privacy_commit_enabled = True, nullifier_check_enabled = True,
      sum_conservation_enabled = True\<rparr>"

definition activation_full :: mainnet_activation where
  "activation_full =
     \<lparr>verify_merkle_enabled = True, verify_inference_enabled = True,
      privacy_commit_enabled = True, nullifier_check_enabled = True,
      sum_conservation_enabled = True\<rparr>"

definition allows :: "mainnet_activation \<Rightarrow> opcode \<Rightarrow> bool" where
  "allows act op =
     (if requires_mainnet_activation op then
        (case op of
           Op_VerifyMerkle \<Rightarrow> verify_merkle_enabled act
         | Op_VerifyInference \<Rightarrow> verify_inference_enabled act
         | Op_PrivacyCommit \<Rightarrow> privacy_commit_enabled act
         | Op_NullifierCheck \<Rightarrow> nullifier_check_enabled act
         | Op_SumConservation \<Rightarrow> sum_conservation_enabled act
         | _ \<Rightarrow> False)
      else True)"

datatype decode_error =
    InvalidOpcodeByte u8
  | ExperimentalOpcodeDisabled opcode isa_profile
  | MainnetActivationRequired opcode

section \<open>Instructions and their encoding\<close>

record instruction =
  opcode :: opcode
  rd :: u8
  rs1 :: u8
  rs2 :: u8
  imm :: i32

definition encode :: "instruction \<Rightarrow> u64" where
  "encode self =
     (let res = ucast (opcode_u8 (opcode self));
          res = res OR push_bit 8 (ucast (rd self));
          res = res OR push_bit 13 (ucast (rs1 self));
          res = res OR push_bit 18 (ucast (rs2 self));
          res = res OR push_bit 23 (ucast (imm self))
      in res)"

definition opcode_of_u8 :: "u8 \<Rightarrow> opcode option" where
  "opcode_of_u8 b =
     (if b = 0x00 then Some Op_Halt
      else if b = 0x01 then Some Op_Add
      else if b = 0x02 then Some Op_Sub
      else if b = 0x03 then Some Op_Mul
      else if b = 0x04 then Some Op_Div
      else if b = 0x05 then Some Op_Inv
      else if b = 0x06 then Some Op_And
      else if b = 0x09 then Some Op_Not
      else if b = 0x0A then Some Op_Eq
      else if b = 0x0B then Some Op_Neq
      else if b = 0x0C then Some Op_Lt
      else if b = 0x0D then Some Op_Gt
      else if b = 0x0E then Some Op_Lte
      else if b = 0x0F then Some Op_Gte
      else if b = 0x10 then Some Op_Jmp
      else if b = 0x11 then Some Op_Jnz
      else if b = 0x12 then Some Op_Call
      else if b = 0x13 then Some Op_Ret
      else if b = 0x14 then Some Op_Load
      else if b = 0x15 then Some Op_Store
      else if b = 0x16 then Some Op_Push
      else if b = 0x17 then Some Op_Pop
      else if b = 0x18 then Some Op_Assert
      else if b = 0x19 then Some Op_Poseidon
      else if b = 0x1A then Some Op_Log
      else if b = 0x1B then Some Op_SRead
      else if b = 0x1C then Some Op_SWrite
      else if b = 0x1D then Some Op_Syscall
      else if b = 0x1E then Some Op_VerifyMerkle
      else if b = 0x1F then Some Op_VerifyInference
      else if b = 0x20 then Some Op_PrivacyCommit
      else if b = 0x21 then Some Op_NullifierCheck
      else if b = 0x22 then Some Op_SumConservation
      else None)"

definition decode_any :: "u64 \<Rightarrow> decode_error + instruction" where
  "decode_any val =
     (let op_u8 = ucast (val AND 0xFF) in
      case opcode_of_u8 op_u8 of
        None \<Rightarrow> Inl (InvalidOpcodeByte op_u8)
      | Some op \<Rightarrow>
          Inr \<lparr>opcode = op,
               rd = ucast (drop_bit 8 val AND 0x1F),
               rs1 = ucast (drop_bit 13 val AND 0x1F),
               rs2 = ucast (drop_bit 18 val AND 0x1F),
               imm = ucast (drop_bit 23 val AND 0xFFFFFFFF)\<rparr>)"

definition decode_for_profile :: "u64 \<Rightarrow> isa_profile \<Rightarrow> decode_error + instruction" where
  "decode_for_profile val profile =
     (case decode_any val of
        Inl e \<Rightarrow> Inl e
      | Inr inst \<Rightarrow>
          if is_experimental (opcode inst) \<and> profile = Production
          then Inl (ExperimentalOpcodeDisabled (opcode inst) profile)
          else Inr inst)"

definition decode_for_mainnet :: "u64 \<Rightarrow> mainnet_activation \<Rightarrow> decode_error + instruction" where
  "decode_for_mainnet val activation =
     (case decode_for_profile val Production of
        Inl e \<Rightarrow> Inl e
      | Inr inst \<Rightarrow>
          if \<not> allows activation (opcode inst)
          then Inl (MainnetActivationRequired (opcode inst))
          else Inr inst)"

text \<open>\<open>Instruction::decode\<close> in the shipped build: neither the \<open>experimental\<close> feature nor \<open>cfg(test)\<close>,
  so the profile is \<open>Production\<close>.\<close>

definition decode :: "u64 \<Rightarrow> decode_error + instruction" where
  "decode val = decode_for_profile val Production"

section \<open>Round trips\<close>

text \<open>The instructions the 64-bit format can hold: every register index fits in five bits.\<close>

definition encodable :: "instruction \<Rightarrow> bool" where
  "encodable i \<longleftrightarrow> rd i < 32 \<and> rs1 i < 32 \<and> rs2 i < 32"

lemma opcode_of_u8_opcode_u8 [simp]: "opcode_of_u8 (opcode_u8 op) = Some op"
  by (cases op) (simp_all add: opcode_of_u8_def)

lemma opcode_of_u8_Some: "opcode_of_u8 b = Some op \<longleftrightarrow> opcode_u8 op = b"
proof
  assume "opcode_of_u8 b = Some op"
  then show "opcode_u8 op = b" by (auto simp: opcode_of_u8_def split: if_splits)
qed auto

lemma bit_u8: "bit (x :: u8) n \<Longrightarrow> n < 8"
  using bit_imp_le_length [of x n] by simp

lemma bit_reg: "(r :: u8) < 32 \<Longrightarrow> bit r n \<Longrightarrow> n < 5"
proof (rule ccontr)
  assume r: "r < 32" and b: "bit r n" and "\<not> n < 5"
  then have "drop_bit 5 r = 0"
    by (simp add: drop_bit_eq_div word_unat_eq_iff unat_div word_less_nat_alt)
  then have "\<not> bit (drop_bit 5 r) (n - 5)" by simp
  then show False using b \<open>\<not> n < 5\<close> by (simp add: bit_drop_bit_eq)
qed

lemma bit_31: "bit (31 :: int) n \<longleftrightarrow> n < 5"
proof -
  have "(31 :: int) = mask 5" by (simp add: mask_eq_exp_minus_1)
  then show ?thesis by (simp only: bit_mask_iff) auto
qed

lemma bit_255: "bit (255 :: int) n \<longleftrightarrow> n < 8"
proof -
  have "(255 :: int) = mask 8" by (simp add: mask_eq_exp_minus_1)
  then show ?thesis by (simp only: bit_mask_iff) auto
qed

lemma bit_mask32: "bit (4294967295 :: int) n \<longleftrightarrow> n < 32"
proof -
  have "(4294967295 :: int) = mask 32" by (simp add: mask_eq_exp_minus_1)
  then show ?thesis by (simp only: bit_mask_iff) auto
qed

lemmas encode_bits = bit_or_iff bit_and_iff bit_push_bit_iff bit_drop_bit_eq bit_ucast_iff
  bit_31 bit_255 bit_mask32

lemma bit_encode:
  "n < 64 \<Longrightarrow> bit (encode i) n \<longleftrightarrow>
     bit (opcode_u8 (opcode i)) n \<or> (8 \<le> n \<and> bit (rd i) (n - 8)) \<or>
     (13 \<le> n \<and> bit (rs1 i) (n - 13)) \<or> (18 \<le> n \<and> bit (rs2 i) (n - 18)) \<or>
     (23 \<le> n \<and> bit (imm i) (n - 23))"
  by (simp add: encode_def Let_def encode_bits) auto

lemma encode_opcode: "encodable i \<Longrightarrow> ucast (encode i AND 0xFF) = opcode_u8 (opcode i)"
  by (rule bit_word_eqI) (auto simp: encode_bits bit_encode)

lemma encode_rd: "encodable i \<Longrightarrow> ucast (drop_bit 8 (encode i) AND 0x1F) = rd i"
  by (rule bit_word_eqI) (auto simp: encode_bits bit_encode encodable_def dest: bit_reg bit_u8)

lemma encode_rs1: "encodable i \<Longrightarrow> ucast (drop_bit 13 (encode i) AND 0x1F) = rs1 i"
  by (rule bit_word_eqI) (auto simp: encode_bits bit_encode encodable_def dest: bit_reg bit_u8)

lemma encode_rs2: "encodable i \<Longrightarrow> ucast (drop_bit 18 (encode i) AND 0x1F) = rs2 i"
  by (rule bit_word_eqI) (auto simp: encode_bits bit_encode encodable_def dest: bit_reg bit_u8)

lemma encode_imm: "encodable i \<Longrightarrow> ucast (drop_bit 23 (encode i) AND 0xFFFFFFFF) = imm i"
  by (rule bit_word_eqI) (auto simp: encode_bits bit_encode encodable_def dest: bit_reg bit_u8)

lemma decode_any_encode: "encodable i \<Longrightarrow> decode_any (encode i) = Inr i"
  by (simp add: decode_any_def encode_opcode encode_rd encode_rs1 encode_rs2 encode_imm)

text \<open>The decoder reads 55 of the 64 bits; the other nine are ignored.\<close>

lemma ucast_and_bound: "ucast (x AND (0x1F :: u64)) < (32 :: u8)"
proof -
  have "unat (x AND 0x1F) \<le> unat (0x1F :: u64)" by (rule word_le_nat_alt [THEN iffD1]) (rule word_and_le1)
  then have "unat (x AND 0x1F) < 32" by simp
  then show ?thesis by (simp add: word_less_nat_alt unsigned_ucast_eq take_bit_nat_eq_self)
qed

lemma decode_any_encodable: "decode_any v = Inr i \<Longrightarrow> encodable i"
  by (auto simp: decode_any_def Let_def encodable_def ucast_and_bound split: option.splits)

lemma decode_any_take_bit: "decode_any (take_bit 55 v) = decode_any v"
proof -
  have "ucast (take_bit 55 v AND 0xFF) = (ucast (v AND 0xFF) :: u8)"
    and "ucast (drop_bit 8 (take_bit 55 v) AND 0x1F) = (ucast (drop_bit 8 v AND 0x1F) :: u8)"
    and "ucast (drop_bit 13 (take_bit 55 v) AND 0x1F) = (ucast (drop_bit 13 v AND 0x1F) :: u8)"
    and "ucast (drop_bit 18 (take_bit 55 v) AND 0x1F) = (ucast (drop_bit 18 v AND 0x1F) :: u8)"
    and "ucast (drop_bit 23 (take_bit 55 v) AND 0xFFFFFFFF) = (ucast (drop_bit 23 v AND 0xFFFFFFFF) :: i32)"
    by (rule bit_word_eqI, auto simp: encode_bits bit_take_bit_iff)+
  then show ?thesis by (simp only: decode_any_def)
qed

lemma encode_decode_any: "decode_any v = Inr i \<Longrightarrow> encode i = take_bit 55 v"
proof -
  assume "decode_any v = Inr i"
  then have op: "opcode_u8 (opcode i) = ucast (v AND 0xFF)"
    and f: "rd i = ucast (drop_bit 8 v AND 0x1F)" "rs1 i = ucast (drop_bit 13 v AND 0x1F)"
      "rs2 i = ucast (drop_bit 18 v AND 0x1F)" "imm i = ucast (drop_bit 23 v AND 0xFFFFFFFF)"
    by (auto simp: decode_any_def Let_def opcode_of_u8_Some split: option.splits)
  show ?thesis
  proof (rule bit_word_eqI)
    fix n assume "n < LENGTH(64)"
    then have n: "n < 64" by simp
    consider "n < 8" | "8 \<le> n" "n < 13" | "13 \<le> n" "n < 18" | "18 \<le> n" "n < 23" | "23 \<le> n" "n < 55"
      | "55 \<le> n" by linarith
    then show "bit (encode i) n = bit (take_bit 55 v) n"
      using n by cases (auto simp: bit_encode op f encode_bits bit_take_bit_iff)
  qed
qed

interpretation isa: codec encode decode_any encodable "take_bit 55"
  by unfold_locales
    (fact decode_any_encode decode_any_encodable encode_decode_any decode_any_take_bit)+

lemma decode_any_iff: "decode_any v = Inr i \<longleftrightarrow> encodable i \<and> encode i = take_bit 55 v"
  by (rule isa.dec_iff)

lemma decode_profile_irrelevant: "decode_for_profile v p = decode_any v"
  by (simp add: decode_for_profile_def is_experimental_def split: sum.splits)

lemma decode_eq [simp]: "decode v = decode_any v"
  by (simp add: decode_def decode_profile_irrelevant)

lemma decode_for_mainnet_Inr:
  "decode_for_mainnet v act = Inr i \<longleftrightarrow> decode_any v = Inr i \<and> allows act (opcode i)"
  by (auto simp: decode_for_mainnet_def decode_profile_irrelevant split: sum.splits)

lemma allows_full: "allows activation_full op"
  by (cases op) (simp_all add: allows_def activation_full_def requires_mainnet_activation_def)

lemma allows_default: "allows activation_default op \<longleftrightarrow> op \<noteq> Op_VerifyMerkle \<and> op \<noteq> Op_VerifyInference"
  by (cases op) (simp_all add: allows_def activation_default_def requires_mainnet_activation_def)

end
