(* ===== verification/Proth.thy ===== *)
theory Proth
  imports Prelude
begin

text \<open>
  The number theory the field arithmetic rests on: Fermat's little theorem and Proth's
  primality criterion, on natural numbers and \<open>mod\<close>.  No code is modelled here; the theory
  serves the proof that the modulus of the virtual machine's field is prime, and hence that the
  exponentiation in \<open>field_inverse_goldilocks\<close> is an inversion.
\<close>

definition is_prime :: "nat \<Rightarrow> bool" where
  "is_prime p \<longleftrightarrow> 1 < p \<and> (\<forall>d. d dvd p \<longrightarrow> d = 1 \<or> d = p)"

lemma is_prime_gt_1: "is_prime p \<Longrightarrow> 1 < p"
  by (simp add: is_prime_def)

lemma is_prime_coprime:
  assumes "is_prime p" and "\<not> p dvd a"
  shows "coprime p a"
proof -
  have "gcd p a dvd p" by simp
  then have "gcd p a = 1 \<or> gcd p a = p" using assms(1) by (auto simp: is_prime_def)
  moreover have "gcd p a \<noteq> p" using assms(2) by (metis gcd_dvd2)
  ultimately show ?thesis by (simp add: coprime_iff_gcd_eq_1)
qed

lemma is_prime_dvd_multD:
  assumes "is_prime p" and "p dvd a * b"
  shows "p dvd a \<or> p dvd b"
proof (cases "p dvd a")
  case False
  then have "coprime p a" by (rule is_prime_coprime [OF assms(1)])
  then show ?thesis using assms(2) by (simp add: coprime_dvd_mult_right_iff)
qed simp

lemma mod_mult_cancel:
  fixes a x y p :: nat
  assumes "coprime p a" and "(a * x) mod p = (a * y) mod p"
  shows "x mod p = y mod p"
  using assms(2)
proof (induction x y rule: linorder_wlog)
  case (le x y)
  then have "p dvd a * y - a * x" by (metis mod_eq_dvd_iff_nat mult_le_mono2)
  then have "p dvd a * (y - x)" by (simp add: diff_mult_distrib2)
  then have "p dvd y - x" using assms(1) by (simp add: coprime_dvd_mult_right_iff)
  then show ?case using le(1) by (metis mod_eq_dvd_iff_nat)
next
  case (sym x y)
  then show ?case by simp
qed

section \<open>Fermat's little theorem\<close>

lemma is_prime_prod_not_dvd:
  assumes "is_prime p" and "finite S" and "\<forall>x \<in> S. \<not> p dvd x"
  shows "\<not> p dvd \<Prod>S"
  using assms(2,3)
proof (induction rule: finite_induct)
  case empty
  then show ?case using is_prime_gt_1 [OF assms(1)] by simp
next
  case (insert x S)
  then show ?case using is_prime_dvd_multD [OF assms(1)] by (auto simp: prod.insert)
qed

lemma times_bij_residues:
  assumes "is_prime p" and "\<not> p dvd a"
  shows "bij_betw (\<lambda>x. (a * x) mod p) {1..<p} {1..<p}"
proof -
  have cop: "coprime p a" using is_prime_coprime [OF assms] .
  have inj: "inj_on (\<lambda>x. (a * x) mod p) {1..<p}"
  proof (rule inj_onI)
    fix x y assume "x \<in> {1..<p}" "y \<in> {1..<p}" "(a * x) mod p = (a * y) mod p"
    then show "x = y" using mod_mult_cancel [OF cop, of x y] by simp
  qed
  have "(\<lambda>x. (a * x) mod p) ` {1..<p} \<subseteq> {1..<p}"
  proof
    fix y assume "y \<in> (\<lambda>x. (a * x) mod p) ` {1..<p}"
    then obtain x where x: "1 \<le> x" "x < p" "y = (a * x) mod p" by auto
    have "\<not> p dvd x" using x by (auto dest: dvd_imp_le)
    then have "\<not> p dvd a * x" using is_prime_dvd_multD [OF assms(1)] assms(2) by blast
    then have "y \<noteq> 0" using x by (simp add: dvd_eq_mod_eq_0)
    moreover have "y < p" using x is_prime_gt_1 [OF assms(1)] by simp
    ultimately show "y \<in> {1..<p}" by simp
  qed
  then have "(\<lambda>x. (a * x) mod p) ` {1..<p} = {1..<p}"
    using inj by (simp add: endo_inj_surj)
  with inj show ?thesis by (simp add: bij_betw_def)
qed

theorem fermat_little:
  assumes "is_prime p" and "\<not> p dvd a"
  shows "a ^ (p - 1) mod p = 1"
proof -
  let ?S = "{1..<p}" and ?f = "\<lambda>x. (a * x) mod p"
  have "(\<Prod>x\<in>?S. ?f x) = \<Prod>?S"
    using prod.reindex_bij_betw [OF times_bij_residues [OF assms], of "\<lambda>x. x"] by simp
  then have "\<Prod>?S mod p = (\<Prod>x\<in>?S. a * x) mod p"
    by (metis mod_prod_eq)
  also have "\<dots> = (\<Prod>?S * a ^ (p - 1)) mod p"
    by (simp add: prod.distrib mult.commute)
  finally have "(\<Prod>?S * 1) mod p = (\<Prod>?S * a ^ (p - 1)) mod p" by simp
  moreover have "\<not> p dvd \<Prod>?S"
    by (rule is_prime_prod_not_dvd [OF assms(1)]) (auto dest: dvd_imp_le)
  ultimately have "1 mod p = a ^ (p - 1) mod p"
    using mod_mult_cancel [OF is_prime_coprime [OF assms(1)]] by blast
  then show ?thesis using is_prime_gt_1 [OF assms(1)] by simp
qed

section \<open>Proth's criterion\<close>

lemma least_divisor_prime:
  assumes "1 < n" and "\<not> is_prime n"
  obtains q where "is_prime q" "q dvd n" "q * q \<le> n"
proof -
  obtain d where d: "d dvd n" "d \<noteq> 1" "d \<noteq> n" using assms by (auto simp: is_prime_def)
  define q where "q = (LEAST d. d dvd n \<and> 1 < d)"
  have "n dvd n \<and> 1 < n" using assms(1) by simp
  then have q: "q dvd n" "1 < q" unfolding q_def by (metis (mono_tags, lifting) LeastI)+
  have least: "q \<le> e" if "e dvd n" "1 < e" for e
    unfolding q_def using that by (simp add: Least_le)
  have "is_prime q" unfolding is_prime_def
  proof (intro conjI allI impI)
    fix e assume e: "e dvd q"
    then have "e dvd n" using q(1) by (rule dvd_trans)
    moreover have "e \<le> q" "e \<noteq> 0" using e q(2) by (auto intro: dvd_imp_le intro!: Nat.gr0I)
    ultimately show "e = 1 \<or> e = q" using least [of e] by linarith
  qed (rule q(2))
  moreover have "q * q \<le> n"
  proof -
    obtain e where e: "n = d * e" using d(1) by blast
    have "1 < d" "1 < e" using d e assms(1) by (auto simp: nat_neq_iff)
    then have "q \<le> d" "q \<le> e" using least e by simp_all
    then show ?thesis using e by (simp add: mult_le_mono)
  qed
  ultimately show thesis using that q(1) by blast
qed

lemma odd_part: "0 < (n::nat) \<Longrightarrow> \<exists>j m. n = 2 ^ j * m \<and> odd m"
proof (induction n rule: less_induct)
  case (less n)
  show ?case
  proof (cases "odd n")
    case True
    then have "n = 2 ^ 0 * n \<and> odd n" by simp
    then show ?thesis by blast
  next
    case False
    then obtain k where k: "n = 2 * k" by blast
    then obtain j m where "k = 2 ^ j * m" "odd m" using less.IH [of k] less.prems by auto
    then have "n = 2 ^ Suc j * m \<and> odd m" using k by simp
    then show ?thesis by blast
  qed
qed

lemma minus_one_odd_power:
  fixes b q m :: nat
  assumes "q dvd b + 1" and "odd m"
  shows "q dvd b ^ m + 1"
  using assms(2)
proof (induction m rule: nat_induct2)
  case (step n)
  then have IH: "q dvd b ^ n + 1" by simp
  have "b ^ (n + 2) + 1 + b * (b + 1) = b ^ 2 * (b ^ n + 1) + (b + 1)"
    by (simp add: power_add algebra_simps power2_eq_square)
  moreover have "q dvd b ^ 2 * (b ^ n + 1) + (b + 1)" using IH assms(1) by (meson dvd_add dvd_mult)
  ultimately show ?case using assms(1) by (metis dvd_add_left_iff dvd_mult)
qed (use assms(1) in auto)

lemma two_power_dvd_pred:
  fixes b q n :: nat
  assumes q: "is_prime q" "odd q" and b: "q dvd b ^ 2 ^ (n - 1) + 1" and n: "0 < n"
  shows "2 ^ n dvd q - 1"
proof -
  have q1: "1 < q" using q(1) by (rule is_prime_gt_1)
  obtain j m where jm: "q - 1 = 2 ^ j * m" "odd m" using odd_part [of "q - 1"] q1 by auto
  have "n \<le> j"
  proof (rule ccontr)
    assume "\<not> n \<le> j"
    then have j: "j + (n - 1 - j) = n - 1" by simp
    have "\<not> q dvd b"
    proof
      assume "q dvd b"
      then have "q dvd b ^ 2 ^ (n - 1)" by (rule dvd_trans) (simp add: dvd_power)
      then have "q dvd 1" using b dvd_add_right_iff by blast
      then show False using q1 by simp
    qed
    then have "b ^ (2 ^ j * m) mod q = 1" using fermat_little [OF q(1)] jm by metis
    then have "(b ^ (2 ^ j * m)) ^ 2 ^ (n - 1 - j) mod q = 1"
      using q1 power_mod [of "b ^ (2 ^ j * m)" q "2 ^ (n - 1 - j)"] by (simp only: power_one mod_less)
    moreover have "2 ^ j * m * 2 ^ (n - 1 - j) = 2 ^ (n - 1) * m"
      using j by (metis mult.assoc mult.commute power_add)
    ultimately have one: "(b ^ 2 ^ (n - 1)) ^ m mod q = 1"
      by (simp only: power_mult [symmetric])
    have "q dvd (b ^ 2 ^ (n - 1)) ^ m + 1" using b jm(2) by (rule minus_one_odd_power)
    then have "((b ^ 2 ^ (n - 1)) ^ m mod q + 1) mod q = 0" by (simp only: mod_add_left_eq dvd_eq_mod_eq_0)
    then have "q dvd 2" using one by (simp add: dvd_eq_mod_eq_0 numeral_2_eq_2)
    then have "q \<le> 2" by (simp add: dvd_imp_le)
    then have "q = 2" using q1 by simp
    then show False using q(2) by simp
  qed
  then show ?thesis using jm(1) by (metis dvd_mult2 le_imp_power_dvd)
qed

theorem proth:
  fixes N k n a :: nat
  assumes N: "N = k * 2 ^ n + 1" and k: "k < 2 ^ n" "0 < k" and n: "0 < n"
    and a: "a ^ ((N - 1) div 2) mod N = N - 1"
  shows "is_prime N"
proof (rule ccontr)
  assume "\<not> is_prime N"
  moreover have "1 < N" using N k by simp
  ultimately obtain q where q: "is_prime q" "q dvd N" "q * q \<le> N"
    using least_divisor_prime by blast
  have half: "(N - 1) div 2 = k * 2 ^ (n - 1)" using N n by (cases n) auto
  have "(a ^ ((N - 1) div 2) + 1) mod N = (N - 1 + 1) mod N"
    using a by (metis mod_add_left_eq)
  then have "N dvd a ^ ((N - 1) div 2) + 1" using \<open>1 < N\<close> by (simp add: dvd_eq_mod_eq_0)
  then have "N dvd (a ^ k) ^ 2 ^ (n - 1) + 1" by (simp only: half power_mult)
  then have "q dvd (a ^ k) ^ 2 ^ (n - 1) + 1" using q(2) by (rule dvd_trans [rotated])
  moreover have "odd N" using N n by simp
  then have "odd q" using dvd_trans [of 2 q N] q(2) by blast
  ultimately have "2 ^ n dvd q - 1" using two_power_dvd_pred q(1) n by blast
  then have "2 ^ n \<le> q - 1" using is_prime_gt_1 [OF q(1)] by (auto dest: dvd_imp_le)
  then have "2 ^ n + 1 \<le> q" using is_prime_gt_1 [OF q(1)] by simp
  then have "(2 ^ n + 1) * (2 ^ n + 1) \<le> q * q" by (intro mult_le_mono)
  moreover have "k * 2 ^ n < 2 ^ n * 2 ^ n" using k by simp
  ultimately show False using q(3) N by (simp add: algebra_simps)
qed

end
