(* ===== verification/Field_Spec.thy ===== *)
theory Field_Spec
  imports Main
begin

text \<open>
  The contract of a prime-field unit, as the virtual machine's arithmetic opcodes rely on it: the
  operations take any machine word, return canonical representatives, and satisfy the field laws
  on canonical operands.  The consequences the instruction set needs (cancellation, absence of zero
  divisors, division as the inverse of multiplication) are proved here once.
\<close>

locale field_ops =
  fixes canon :: "'a \<Rightarrow> bool"
    and zero one :: 'a
    and add sub mul :: "'a \<Rightarrow> 'a \<Rightarrow> 'a"
    and inverse_of :: "'a \<Rightarrow> 'a"
  assumes canon_zero: "canon zero" and canon_one: "canon one" and one_not_zero: "one \<noteq> zero"
    and canon_add: "canon (add a b)" and canon_sub: "canon (sub a b)"
    and canon_mul: "canon (mul a b)" and canon_inverse: "canon (inverse_of a)"
    and add_commute: "add a b = add b a"
    and add_assoc: "add (add a b) c = add a (add b c)"
    and add_zero: "canon a \<Longrightarrow> add a zero = a"
    and sub_add: "canon a \<Longrightarrow> add (sub a b) b = a"
    and mul_commute: "mul a b = mul b a"
    and mul_assoc: "mul (mul a b) c = mul a (mul b c)"
    and mul_one: "canon a \<Longrightarrow> mul a one = a"
    and mul_add: "mul a (add b c) = add (mul a b) (mul a c)"
    and mul_inverse: "canon a \<Longrightarrow> a \<noteq> zero \<Longrightarrow> mul a (inverse_of a) = one"
begin

lemma add_left_cancel:
  assumes "canon b" "canon c" and "add a b = add a c"
  shows "b = c"
proof -
  let ?n = "sub zero a"
  have n: "add ?n a = zero" by (rule sub_add [OF canon_zero])
  have "add ?n (add a b) = add ?n (add a c)" using assms(3) by simp
  then have "add zero b = add zero c" by (simp add: add_assoc [symmetric] n)
  then show ?thesis using assms(1,2) by (simp add: add_commute [of zero] add_zero)
qed

lemma sub_self: "canon a \<Longrightarrow> sub a a = zero"
  using add_left_cancel [OF canon_sub canon_zero, of a a a] sub_add [of a a]
  by (simp add: add_commute add_zero)

lemma mul_zero: "mul a zero = zero"
proof -
  have "add (mul a zero) (mul a zero) = add (mul a zero) zero"
    by (metis add_zero canon_mul canon_zero mul_add)
  then show ?thesis by (rule add_left_cancel [OF canon_mul canon_zero])
qed

lemma mul_left_cancel:
  assumes "canon a" "a \<noteq> zero" "canon b" "canon c" and "mul a b = mul a c"
  shows "b = c"
proof -
  have "mul (mul (inverse_of a) a) b = mul (mul (inverse_of a) a) c"
    using assms(5) by (simp add: mul_assoc)
  then show ?thesis using assms
    by (metis mul_commute mul_inverse mul_one)
qed

lemma no_zero_divisors: "canon a \<Longrightarrow> canon b \<Longrightarrow> mul a b = zero \<Longrightarrow> a = zero \<or> b = zero"
  using mul_left_cancel [of a b zero] by (auto simp: mul_zero canon_zero)

lemma div_mul_cancel:
  "canon a \<Longrightarrow> canon b \<Longrightarrow> b \<noteq> zero \<Longrightarrow> mul (mul a (inverse_of b)) b = a"
  by (metis mul_assoc mul_commute mul_inverse mul_one)

lemma div_unique:
  assumes "canon a" "canon b" "b \<noteq> zero" "canon q"
  shows "mul q b = a \<longleftrightarrow> q = mul a (inverse_of b)"
  using assms div_mul_cancel mul_left_cancel [of b q "mul a (inverse_of b)"]
  by (metis canon_mul mul_commute)

end

end
