(* ===== verification/Goldilocks.thy ===== *)
theory Goldilocks
  imports Proth Field_Spec
begin

text \<open>
  The field arithmetic of the virtual machine, \<open>budzero/bud-vm/src/lib.rs\<close>: the Goldilocks
  modulus and \<open>field_add\<close>, \<open>field_sub\<close>, \<open>field_mul\<close> and \<open>field_inverse\<close>.  The sources compute
  in \<open>u128\<close> and cast back to \<open>u64\<close>; the definitions keep both widths, and the lemmas show that
  no intermediate value wraps and what each operation is on the residues mod \<open>P\<close>.
\<close>

definition GOLDILOCKS_P :: u64 where
  "GOLDILOCKS_P = 18446744069414584321"

abbreviation gP :: nat where
  "gP \<equiv> 18446744069414584321"

text \<open>\<open>x as u128\<close> and \<open>x as u64\<close>.\<close>

abbreviation as_u128 :: "u64 \<Rightarrow> u128" where
  "as_u128 x \<equiv> ucast x"

abbreviation as_u64 :: "u128 \<Rightarrow> u64" where
  "as_u64 x \<equiv> ucast x"

definition field_add_goldilocks :: "u64 \<Rightarrow> u64 \<Rightarrow> u64" where
  "field_add_goldilocks a b = as_u64 ((as_u128 a + as_u128 b) mod as_u128 GOLDILOCKS_P)"

definition field_sub_goldilocks :: "u64 \<Rightarrow> u64 \<Rightarrow> u64" where
  "field_sub_goldilocks a b =
     as_u64 ((as_u128 a + as_u128 GOLDILOCKS_P - (as_u128 b mod as_u128 GOLDILOCKS_P))
             mod as_u128 GOLDILOCKS_P)"

definition field_mul_goldilocks :: "u64 \<Rightarrow> u64 \<Rightarrow> u64" where
  "field_mul_goldilocks a b = as_u64 ((as_u128 a * as_u128 b) mod as_u128 GOLDILOCKS_P)"

text \<open>The square-and-multiply loop of \<open>field_inverse_goldilocks\<close>, on its three variables.\<close>

function field_inverse_loop :: "u64 \<Rightarrow> u128 \<Rightarrow> u128 \<Rightarrow> u128" where
  "field_inverse_loop ex bs res =
     (if 0 < ex then
        field_inverse_loop (drop_bit 1 ex)
          ((bs * bs) mod as_u128 GOLDILOCKS_P)
          (if ex AND 1 = 1 then (res * bs) mod as_u128 GOLDILOCKS_P else res)
      else res)"
  by pat_completeness auto
termination
proof (relation "measure (\<lambda>(ex, bs, res). unat ex)")
  fix ex :: u64
  assume "0 < ex"
  then have "0 < unat ex" by (simp add: unat_gt_0)
  then show "((drop_bit 1 ex, x, y), ex, bs, res) \<in> measure (\<lambda>(ex, bs, res). unat ex)" for x y bs res :: u128
    by (simp only: in_measure prod.case unat_drop_bit_eq) (simp add: drop_bit_nat_def)
qed simp

declare field_inverse_loop.simps [simp del]

definition field_inverse_goldilocks :: "u64 \<Rightarrow> u64" where
  "field_inverse_goldilocks val =
     (if val = 0 then 0
      else as_u64 (field_inverse_loop (GOLDILOCKS_P - 2) (as_u128 val) 1))"

section \<open>No intermediate value wraps\<close>

lemma unat_gP [simp]: "unat GOLDILOCKS_P = gP"
  by (simp add: GOLDILOCKS_P_def)

lemma unat_as_u128 [simp]: "unat (as_u128 x) = unat x"
  by (simp add: unsigned_ucast_eq take_bit_nat_eq_self_iff less_trans [OF unsigned_less])

lemma unat_as_u64_mod [simp]: "unat (as_u64 (x mod as_u128 GOLDILOCKS_P)) = unat x mod gP"
proof -
  have "unat (x mod as_u128 GOLDILOCKS_P) = unat x mod gP" by (simp add: unat_mod)
  moreover have "unat x mod gP < 2 ^ 64" by (rule less_trans [of _ gP]) simp_all
  ultimately show ?thesis by (simp add: unsigned_ucast_eq take_bit_nat_eq_self)
qed

lemma u64_less: "unat (x :: u64) < 18446744073709551616"
  using unsigned_less [of x, where 'a = nat] by simp

lemma u64_mult_less: "unat (x :: u64) * unat (y :: u64) < 2 ^ 128"
proof -
  have "unat x * unat y < 2 ^ 64 * 2 ^ 64"
    using u64_less [of x] u64_less [of y] by (intro mult_strict_mono) simp_all
  then show ?thesis by simp
qed

lemma field_add_nat: "unat (field_add_goldilocks a b) = (unat a + unat b) mod gP"
  using u64_less [of a] u64_less [of b]
  by (simp add: field_add_goldilocks_def unat_add_small)

lemma field_mul_nat: "unat (field_mul_goldilocks a b) = (unat a * unat b) mod gP"
  using u64_mult_less [of a b]
  by (simp add: field_mul_goldilocks_def unat_mult_small)

lemma field_sub_nat:
  "unat (field_sub_goldilocks a b) = (unat a + (gP - unat b mod gP)) mod gP"
proof -
  let ?s = "as_u128 a + as_u128 GOLDILOCKS_P" and ?d = "as_u128 b mod as_u128 GOLDILOCKS_P"
  have s: "unat ?s = unat a + gP" using u64_less [of a] by (simp add: unat_add_small)
  have d: "unat ?d = unat b mod gP" by (simp add: unat_mod)
  have le: "unat b mod gP \<le> gP" by (rule less_imp_le) simp
  then have "?d \<le> ?s" by (simp only: word_le_nat_alt s d)
  then have "unat (?s - ?d) = unat a + (gP - unat b mod gP)" using s d le by (simp add: unat_sub)
  then show ?thesis by (simp add: field_sub_goldilocks_def)
qed

section \<open>The inversion loop computes a power\<close>

lemma mod_mult_power_sq:
  "(r * ((b * b) mod m) ^ e) mod m = (r * b ^ (2 * e)) mod (m::nat)"
  by (metis mod_mult_right_eq power_mod power_mult power2_eq_square)

lemma field_inverse_loop_nat:
  "unat bs < 2 ^ 64 \<Longrightarrow> unat res < gP \<Longrightarrow>
   unat (field_inverse_loop ex bs res) = (unat res * unat bs ^ unat ex) mod gP"
proof (induction ex bs res rule: field_inverse_loop.induct)
  case (1 ex bs res)
  show ?case
  proof (cases "0 < ex")
    case False
    then have "ex = 0" by (simp add: word_neq_0_conv [symmetric])
    then show ?thesis using "1.prems" by (simp add: field_inverse_loop.simps [of 0])
  next
    case True
    let ?P = "as_u128 GOLDILOCKS_P" and ?bs' = "(bs * bs) mod as_u128 GOLDILOCKS_P"
    let ?res' = "if ex AND 1 = 1 then (res * bs) mod ?P else res"
    have "unat bs * unat bs < 2 ^ 64 * 2 ^ 64" using "1.prems" by (intro mult_strict_mono) simp_all
    then have bs': "unat ?bs' = (unat bs * unat bs) mod gP" by (simp add: unat_mod unat_mult_small)
    have "unat res * unat bs < 2 ^ 64 * 2 ^ 64" using "1.prems" by (intro mult_strict_mono) simp_all
    then have rb: "unat ((res * bs) mod ?P) = (unat res * unat bs) mod gP"
      by (simp add: unat_mod unat_mult_small)
    have odd_ex: "ex AND 1 = 1 \<longleftrightarrow> odd (unat ex)"
      by (simp add: and_one_eq word_unat_eq_iff unat_mod odd_iff_mod_2_eq_one)
    have ex': "unat (drop_bit 1 ex) = unat ex div 2" by (simp only: unat_drop_bit_eq) (simp add: drop_bit_nat_def)
    have "unat ?bs' < 2 ^ 64" unfolding bs' by (rule less_trans [of _ gP]) simp_all
    moreover have "unat ?res' < gP" using "1.prems" rb by simp
    ultimately have "unat (field_inverse_loop (drop_bit 1 ex) ?bs' ?res')
        = (unat ?res' * unat ?bs' ^ (unat ex div 2)) mod gP"
      using "1.IH" [OF True] ex' by simp
    also have "\<dots> = (unat ?res' * unat bs ^ (2 * (unat ex div 2))) mod gP"
      unfolding bs' by (rule mod_mult_power_sq)
    also have "\<dots> = (unat res * unat bs ^ unat ex) mod gP"
    proof (cases "odd (unat ex)")
      case True
      then have "unat ex = Suc (2 * (unat ex div 2))" by simp
      then have "unat res * unat bs ^ unat ex = unat res * unat bs * unat bs ^ (2 * (unat ex div 2))"
        by (metis mult.assoc power_Suc)
      moreover have "unat ?res' = (unat res * unat bs) mod gP" using True odd_ex rb by (simp only: not_False_eq_True if_True)
      ultimately show ?thesis by (simp only: mod_mult_left_eq)
    next
      case False
      then show ?thesis using odd_ex by simp
    qed
    finally show ?thesis using True by (simp add: field_inverse_loop.simps [of ex])
  qed
qed

lemma field_inverse_nat:
  "unat (field_inverse_goldilocks x) = unat x ^ (gP - 2) mod gP"
proof (cases "x = 0")
  case True
  then show ?thesis by (simp add: field_inverse_goldilocks_def zero_power)
next
  case False
  have e: "unat (GOLDILOCKS_P - 2) = gP - 2" by (simp add: GOLDILOCKS_P_def)
  have "unat (field_inverse_loop (GOLDILOCKS_P - 2) (as_u128 x) 1)
      = (unat (1::u128) * unat (as_u128 x) ^ unat (GOLDILOCKS_P - 2)) mod gP"
    using u64_less [of x] by (intro field_inverse_loop_nat) simp_all
  then have l: "unat (field_inverse_loop (GOLDILOCKS_P - 2) (as_u128 x) 1) = unat x ^ (gP - 2) mod gP"
    using e by simp
  have "unat x ^ (gP - 2) mod gP < 2 ^ 64" by (rule less_trans [of _ gP]) simp_all
  then show ?thesis using False l by (simp add: field_inverse_goldilocks_def unsigned_ucast_eq take_bit_nat_eq_self)
qed

section \<open>The modulus is prime\<close>

text \<open>Proth's criterion with \<open>P = (2 ^ 32 - 1) * 2 ^ 32 + 1\<close> and base 7.  The power is computed by
  the loop of \<open>field_inverse_goldilocks\<close> itself, run on the exponent \<open>(P - 1) / 2\<close>.\<close>

lemma seven_non_residue_loop: "field_inverse_loop 9223372034707292160 7 1 = 18446744069414584320"
  by code_simp

lemma seven_non_residue: "7 ^ ((gP - 1) div 2) mod gP = gP - 1"
proof -
  have "unat (field_inverse_loop 9223372034707292160 7 1)
      = (unat (1::u128) * unat (7::u128) ^ unat (9223372034707292160::u64)) mod gP"
    by (rule field_inverse_loop_nat) simp_all
  moreover have "unat (9223372034707292160::u64) = (gP - 1) div 2" by simp
  moreover have "unat (7::u128) = 7" and "unat (18446744069414584320::u128) = gP - 1" by simp_all
  ultimately show ?thesis by (simp only: seven_non_residue_loop unat_1 mult_1)
qed

lemma goldilocks_prime: "is_prime gP"
proof (rule proth [where k = "2 ^ 32 - 1" and n = 32 and a = 7])
  show "7 ^ ((gP - 1) div 2) mod gP = gP - 1" by (rule seven_non_residue)
qed simp_all

section \<open>The operations are those of the prime field\<close>

definition canonical :: "u64 \<Rightarrow> bool" where
  "canonical x \<longleftrightarrow> x < GOLDILOCKS_P"

lemma canonical_iff: "canonical x \<longleftrightarrow> unat x < gP"
  by (simp add: canonical_def word_less_nat_alt)

lemma canonical_eqI: "unat x mod gP = unat y mod gP \<Longrightarrow> canonical x \<Longrightarrow> canonical y \<Longrightarrow> x = y"
  by (simp add: canonical_iff word_unat_eq_iff)

lemma canonical_field [simp]:
  "canonical (field_add_goldilocks a b)" "canonical (field_sub_goldilocks a b)"
  "canonical (field_mul_goldilocks a b)" "canonical (field_inverse_goldilocks a)"
  by (simp_all only: canonical_iff field_add_nat field_sub_nat field_mul_nat field_inverse_nat mod_less_divisor
      zero_less_numeral)

lemma field_mul_inverse_nat:
  assumes "unat x mod gP \<noteq> 0"
  shows "unat (field_mul_goldilocks x (field_inverse_goldilocks x)) = 1"
proof -
  have nd: "\<not> gP dvd unat x" using assms by (simp only: dvd_eq_mod_eq_0 not_False_eq_True)
  have e: "gP - 1 = Suc (gP - 2)" by simp
  have "unat (field_mul_goldilocks x (field_inverse_goldilocks x)) = (unat x * unat x ^ (gP - 2)) mod gP"
    by (simp only: field_mul_nat field_inverse_nat mod_mult_right_eq)
  also have "\<dots> = unat x ^ (gP - 1) mod gP" by (simp only: e power_Suc)
  also have "\<dots> = 1" by (rule fermat_little [OF goldilocks_prime nd])
  finally show ?thesis .
qed

lemma field_sub_add_nat:
  assumes "0 < m"
  shows "((a + (m - b mod m)) mod m + b) mod m = a mod (m::nat)"
proof -
  have le: "b mod m \<le> m" using assms by simp
  have "((a + (m - b mod m)) mod m + b) mod m = (a + (m - b mod m) + b mod m) mod m"
    by (metis mod_add_eq mod_mod_trivial)
  also have "\<dots> = (a + m) mod m" using le by (simp add: add.assoc)
  finally show ?thesis by simp
qed

lemma canonical_small: "canonical 0" "canonical 1"
  by (simp_all add: canonical_iff)

interpretation gf: field_ops canonical 0 1 field_add_goldilocks field_sub_goldilocks
  field_mul_goldilocks field_inverse_goldilocks
proof unfold_locales
  fix a b c :: u64
  show "field_add_goldilocks a b = field_add_goldilocks b a"
    by (simp only: word_unat_eq_iff field_add_nat add.commute)
  show "field_add_goldilocks (field_add_goldilocks a b) c = field_add_goldilocks a (field_add_goldilocks b c)"
    by (simp only: word_unat_eq_iff field_add_nat mod_add_left_eq mod_add_right_eq add.assoc)
  show "field_mul_goldilocks a b = field_mul_goldilocks b a"
    by (simp only: word_unat_eq_iff field_mul_nat mult.commute)
  show "field_mul_goldilocks (field_mul_goldilocks a b) c = field_mul_goldilocks a (field_mul_goldilocks b c)"
    by (simp only: word_unat_eq_iff field_mul_nat mod_mult_left_eq mod_mult_right_eq mult.assoc)
  show "field_mul_goldilocks a (field_add_goldilocks b c) =
      field_add_goldilocks (field_mul_goldilocks a b) (field_mul_goldilocks a c)"
    by (simp only: word_unat_eq_iff field_mul_nat field_add_nat mod_mult_right_eq mod_add_eq distrib_left)
  assume a: "canonical a"
  show "field_add_goldilocks a 0 = a" "field_mul_goldilocks a 1 = a"
    using a by (simp_all add: word_unat_eq_iff field_add_nat field_mul_nat canonical_iff)
  show "field_add_goldilocks (field_sub_goldilocks a b) b = a"
    using a by (simp only: word_unat_eq_iff field_add_nat field_sub_nat field_sub_add_nat
        zero_less_numeral canonical_iff mod_less)
  assume "a \<noteq> 0"
  then have "unat a mod gP \<noteq> 0" using a by (simp add: canonical_iff word_unat_eq_iff)
  then show "field_mul_goldilocks a (field_inverse_goldilocks a) = 1"
    using field_mul_inverse_nat [of a] by (simp add: word_unat_eq_iff)
qed (simp_all add: canonical_small)

end
