(* ===== verification/Poseidon.thy ===== *)
theory Poseidon
  imports Goldilocks
begin

text \<open>
  The hash functions of the virtual machine, \<open>budzero/bud-vm/src/lib.rs\<close>: the Poseidon constants,
  the full 30-round permutation over eight lanes with its two result forms, the hashes built from it,
  and the single round that walks a Merkle path.  The lemmas identify the S-box with the seventh
  power, show that it and the whole permutation are bijections of the canonical states, and bound
  every result by the field modulus.
\<close>

section \<open>Constants\<close>

definition DOMAIN_NULLIFIER :: u64 where
  "DOMAIN_NULLIFIER = 0x4e554c4c49464552"

definition POSEIDON_MDS :: "u64 list list" where
  "POSEIDON_MDS =
     [[7, 1, 3, 8, 8, 3, 4, 9],
      [9, 7, 1, 3, 8, 8, 3, 4],
      [4, 9, 7, 1, 3, 8, 8, 3],
      [3, 4, 9, 7, 1, 3, 8, 8],
      [8, 3, 4, 9, 7, 1, 3, 8],
      [8, 8, 3, 4, 9, 7, 1, 3],
      [3, 8, 8, 3, 4, 9, 7, 1],
      [1, 3, 8, 8, 3, 4, 9, 7]]"

text \<open>\<open>POSEIDON_RC_FULL\<close> by parts of its schedule: the leading full rounds, the partial rounds (in two
  halves) and the trailing full rounds.\<close>

definition RC_FULL_LEADING :: "u64 list list" where
  "RC_FULL_LEADING =
     [[0xdd5743e7f2a5a5d9, 0xcb3a864e58ada44b, 0xffa2449ed32f8cdc, 0x42025f65d6bd13ee,
       0x7889175e25506323, 0x34b98bb03d24b737, 0xbdcc535ecc4faa2a, 0x5b20ad869fc0d033],
      [0xf1dda5b9259dfcb4, 0x27515210be112d59, 0x4227d1718c766c3f, 0x26d333161a5bd794,
       0x49b938957bf4b026, 0x4a56b5938b213669, 0x1120426b48c8353d, 0x6b323c3f10a56cad],
      [0xce57d6245ddca6b2, 0xb1fc8d402bba1eb1, 0xb5c5096ca959bd04, 0x6db55cd306d31f7f,
       0xc49d293a81cb9641, 0x1ce55a4fe979719f, 0xa92e60a9d178a4d1, 0x002cc64973bcfd8c],
      [0xcea721cce82fb11b, 0xe5b55eb8098ece81, 0x4e30525c6f1ddd66, 0x43c6702827070987,
       0xaca68430a7b5762a, 0x3674238634df9c93, 0x88cee1c825e33433, 0xde99ae8d74b57176]]"

definition RC_PARTIAL_A :: "u64 list list" where
  "RC_PARTIAL_A =
     [[0x488897d85ff51f56, 0x1140737ccb162218, 0xa7eeb9215866ed35, 0x9bd2976fee49fcc9,
       0xc0c8f0de580a3fcc, 0x4fb2dae6ee8fc793, 0x343a89f35f37395b, 0x223b525a77ca72c8],
      [0x56ccb62574aaa918, 0xc4d507d8027af9ed, 0xa080673cf0b7e95c, 0xf0184884eb70dcf8,
       0x044f10b0cb3d5c69, 0xe9e3f7993938f186, 0x1b761c80e772f459, 0x606cec607a1b5fac],
      [0x14a0c2e1d45f03cd, 0x4eace8855398574f, 0xf905ca7103eff3e6, 0xf8c8f8d20862c059,
       0xb524fe8bdd678e5a, 0xfbb7865901a1ec41, 0x014ef1197d341346, 0x9725e20825d07394],
      [0xfdb25aef2c5bae3b, 0xbe5402dc598c971e, 0x93a5711f04cdca3d, 0xc45a9a5b2f8fb97b,
       0xfe8946a924933545, 0x2af997a27369091c, 0xaa62c88e0b294011, 0x058eb9d810ce9f74],
      [0xb3cb23eced349ae4, 0xa3648177a77b4a84, 0x43153d905992d95d, 0xf4e2a97cda44aa4b,
       0x5baa2702b908682f, 0x082923bdf4f750d1, 0x98ae09a325893803, 0xf8a6475077968838],
      [0xceb0735bf00b2c5f, 0x0a1a5d953888e072, 0x2fcb190489f94475, 0xb5be06270dec69fc,
       0x739cb934b09acf8b, 0x537750b75ec7f25b, 0xe9dd318bae1f3961, 0xf7462137299efe1a],
      [0xb1f6b8eee9adb940, 0xbdebcc8a809dfe6b, 0x40fc1f791b178113, 0x3ac1c3362d014864,
       0x9a016184bdb8aeba, 0x95f2394459fbc25e, 0xe3f34a07a76a66c2, 0x8df25f9ad98b1b96],
      [0x85ffc27171439d9d, 0xddcb9a2dcfd26910, 0x26b5ba4bf3afb94e, 0xffff9cc7c7651e2f,
       0x8c88364698280b55, 0xebc114167b910501, 0x2d77b4d89ecfb516, 0x332e0828eba151f2],
      [0x46fa6a6450dd4735, 0xd00db7dd92384a33, 0x5fd4fb751f3a5fc5, 0x496fb90c0bb65ea2,
       0xf3baec0bb87cc5c7, 0x862a3c0a7d4c7713, 0xbf5f38336a3f47d8, 0x41ad9dbc1394a20c],
      [0xcc535945b7dbf0f7, 0x82af2bc93685bcec, 0x8e4c8d0c8cebfccd, 0x17cb39417e84597e,
       0xd4a965a8c749b232, 0xa2cab040f33f3ee5, 0xa98811a1fed4e3a6, 0x1cc48b54f377e2a1],
      [0xe40cd4f6c5609a27, 0x11de79ebca97a4a4, 0x9177c73d8b7e929d, 0x2a6fe8085797e792,
       0x3de6e93329f8d5ae, 0x3f7af9125da962ff, 0xd710682cfc77d3ac, 0x48faf05f3b053cf4]]"

definition RC_PARTIAL_B :: "u64 list list" where
  "RC_PARTIAL_B =
     [[0x287db8630da89c8b, 0x4d0de32053cb30e9, 0x8b37a4f20c5ada7b, 0xe7cc6ebe78c84ecf,
       0x240bdc0a66a2610d, 0x8299e7f02caa1650, 0x380a53fefb6e754e, 0x684a1d8cf8eb6810],
      [0xe839452eb4b8a5e1, 0xb03fa62e90626af4, 0x11a688602fbc5efc, 0x30dda75c355a2d62,
       0x0f712adcb73810de, 0xffdc1102187f1ae1, 0x40c34f398254b99c, 0xede021b9dc289a4a],
      [0x8b7b05225c4e7dad, 0x3bc794346f9d9ff9, 0xfccb5a57f2ca86ff, 0xbb1502015a7da9d4,
       0xd7e0a35d4352a015, 0x27af7a44f8160931, 0xc37442f6782f4615, 0xbdf392a9bd095dcb],
      [0xc17f55037cf00de9, 0xbcffedd34c71a874, 0x5eb45d2a8133d1f2, 0xbabe251e1612ebdf,
       0x3efeb9fbe438c536, 0x2d7cef97b4afe1cf, 0xe5de1b4660016c0b, 0xcdcc26c332f5657c],
      [0xe01dd653daf15809, 0xb0a6bdd4b41094b5, 0x27eac858b0b03a05, 0x51d43b5e93adbdc0,
       0x8b89a23b0fea5fc9, 0xdc8ac3b14f7f2fc1, 0xe793f82f1efec039, 0x9f6f2cf8969e7b80],
      [0x49d45382e0f21d4a, 0x5f4ad1797cd72786, 0x4dc3dbebfd45f795, 0x03a3ef84dba6e1bc,
       0x204bc9b3d3fc4c01, 0x9ad706081e89b9ba, 0x638bfb4d840e9f89, 0x5ef2938cd095ae35],
      [0x42cca18ebeb265c8, 0xb7b2ec5c29aecbf8, 0x0d84f9535dc78f0f, 0x04e64ad942e77b8c,
       0xb4880dffffc9da0b, 0x16db16d9c29adeb1, 0x09bbaf2a0590cd1e, 0x76460e74961fcf8d],
      [0xed12a2276dfa1553, 0x0b5acec5de0436fd, 0x3c6cfea033a1f0a8, 0x2b5ecefe546cac15,
       0x6e2d82884cd3bf6f, 0xc134878d1add7b83, 0x997963422eb7a280, 0x5e834537ac648cf6],
      [0x89e779214737c0b7, 0x1a8c05e8581ad95b, 0x8d18b72796437cf7, 0xe7252c949e04b106,
       0x53267c4fd174585a, 0xa16ef5d9c81dad47, 0xda65191937270a46, 0xcb2a5b55f2df664c],
      [0x854aee2dc1924137, 0xf37013c9d479ece6, 0x0e163bc0630c4696, 0x384ee64955048f76,
       0xf65d814e28ee4ec5, 0xe57bc564fd82f1b1, 0x4b338937b6876614, 0x66ee0b04ed43cd8d],
      [0x49884bf25f4ef15d, 0xeb51fe28de1c6f54, 0x2cd64e84fce8dfcc, 0x29164a96a541a013,
       0x173ce7558f4cacb8, 0xeb5b1ce5877c89e9, 0x5faff4b0f5217bf6, 0xac42d0b1c20f205e]]"

definition RC_FULL_TRAILING :: "u64 list list" where
  "RC_FULL_TRAILING =
     [[0xfb1d6bf0ca43221b, 0x97b0a1b01d6a2955, 0x08c60bd622952b30, 0x43f2be0f9e24147c,
       0xfa7268b7d3730f5d, 0x43a6c419a23983bb, 0xcd77c1f7b29b113c, 0xcfa43c9db8eec29f],
      [0xcaaa95a6c7365dec, 0x0a91193f798f3be0, 0x1104497652735dc6, 0x35aecb93663b515e,
       0x8dbc9916065aa858, 0xada8f7a0266579ed, 0x524dee7bec1ea789, 0xa93aee9dd5af9521],
      [0x9d1f1b54750d707e, 0x7c9feab87096d5dc, 0xa2e1fb19f9d4261b, 0xb714deb448de6346,
       0x225d1f0d011c5403, 0x1549b7f1d28cedc0, 0xaef3e46f97d43942, 0x6dfc7ffe0b38bf08],
      [0x7de853fdc542b663, 0xa68ecc96610657b2, 0xe88bb5428af289b1, 0xd7cfa1504c5569f5,
       0x78a9aad0d642d30a, 0xd68315f2353dce52, 0x46e56300f86fcfd5, 0x323d95332b145fd6]]"

definition POSEIDON_RC_FULL :: "u64 list list" where
  "POSEIDON_RC_FULL = RC_FULL_LEADING @ RC_PARTIAL_A @ RC_PARTIAL_B @ RC_FULL_TRAILING"

text \<open>The superseded four-round set.\<close>

definition POSEIDON_RC :: "u64 list list" where
  "POSEIDON_RC =
     [[0xdd5743e7f2a5a5d9, 0xcb3a864e58ada44b, 0xffa2449ed32f8cdc, 0x42025f65d6bd13ee,
       0x7889175e25506323, 0x34b98bb03d24b737, 0xbdcc535ecc4faa2a, 0x5b20ad869fc0d033],
      [0xf1dda5b9259dfcb4, 0x27515210be112d59, 0x4227d1718c766c3f, 0x26d333161a5bd794,
       0x49b938957bf4b026, 0x4a56b5938b213669, 0x1120426b48c8353d, 0x6b323c3f10a56cad],
      [0xce57d6245ddca6b2, 0xb1fc8d402bba1eb1, 0xb5c5096ca959bd04, 0x6db55cd306d31f7f,
       0xc49d293a81cb9641, 0x1ce55a4fe979719f, 0xa92e60a9d178a4d1, 0x002cc64973bcfd8c],
      [0xcea721cce82fb11b, 0xe5b55eb8098ece81, 0x4e30525c6f1ddd66, 0x43c6702827070987,
       0xaca68430a7b5762a, 0x3674238634df9c93, 0x88cee1c825e33433, 0xde99ae8d74b57176]]"

definition POSEIDON_FULL_ROUNDS :: nat where
  "POSEIDON_FULL_ROUNDS = 8"

definition POSEIDON_PARTIAL_ROUNDS :: nat where
  "POSEIDON_PARTIAL_ROUNDS = 22"

definition POSEIDON_ROUNDS_IN_USE :: nat where
  "POSEIDON_ROUNDS_IN_USE = POSEIDON_FULL_ROUNDS + POSEIDON_PARTIAL_ROUNDS"

section \<open>The permutation\<close>

text \<open>The closure \<open>sbox\<close> shared by the round functions.\<close>

definition sbox :: "u64 \<Rightarrow> u64" where
  "sbox x =
     (let x2 = as_u64 ((as_u128 x * as_u128 x) mod as_u128 GOLDILOCKS_P);
          x4 = as_u64 ((as_u128 x2 * as_u128 x2) mod as_u128 GOLDILOCKS_P)
      in as_u64 (((as_u128 x4 * as_u128 x2) mod as_u128 GOLDILOCKS_P * as_u128 x)
                 mod as_u128 GOLDILOCKS_P))"

text \<open>\<open>s[i] = (s[i] + rc[i]) % P\<close> over the eight lanes.\<close>

definition add_round_constants :: "u64 list \<Rightarrow> u64 list \<Rightarrow> u64 list" where
  "add_round_constants rc s =
     map2 (\<lambda>x c. as_u64 ((as_u128 x + as_u128 c) mod as_u128 GOLDILOCKS_P)) s rc"

text \<open>Full rounds apply the S-box to every lane, partial rounds to lane 0.\<close>

definition is_full_round :: "nat \<Rightarrow> bool" where
  "is_full_round round =
     (let half_full = POSEIDON_FULL_ROUNDS div 2
      in round < half_full \<or> length POSEIDON_RC_FULL - half_full \<le> round)"

definition sbox_layer :: "nat \<Rightarrow> u64 list \<Rightarrow> u64 list" where
  "sbox_layer round s = (if is_full_round round then map sbox s else s[0 := sbox (s ! 0)])"

text \<open>One row of the matrix product, accumulated with a reduction at every step.\<close>

definition mds_row :: "u64 list \<Rightarrow> u64 list \<Rightarrow> u64" where
  "mds_row row s =
     as_u64 (foldl (\<lambda>sum (m, x). (sum + as_u128 m * as_u128 x) mod as_u128 GOLDILOCKS_P) 0
               (zip row s))"

definition mds_layer :: "u64 list \<Rightarrow> u64 list" where
  "mds_layer s = map (\<lambda>row. mds_row row s) POSEIDON_MDS"

definition poseidon_round :: "nat \<Rightarrow> u64 list \<Rightarrow> u64 list \<Rightarrow> u64 list" where
  "poseidon_round round rc s = mds_layer (sbox_layer round (add_round_constants rc s))"

definition poseidon_full_state :: "u64 list \<Rightarrow> u64 list" where
  "poseidon_full_state s =
     fold (\<lambda>(round, rc) s. poseidon_round round rc s) (List.enumerate 0 POSEIDON_RC_FULL) s"

definition poseidon_full_hash_state :: "u64 list \<Rightarrow> u64" where
  "poseidon_full_hash_state s =
     fold (\<lambda>(round, rc) s. poseidon_round round rc s) (List.enumerate 0 POSEIDON_RC_FULL) s ! 0"

definition poseidon4_hash_state :: "u64 list \<Rightarrow> u64" where
  "poseidon4_hash_state s = poseidon_full_hash_state s"

definition poseidon4_hash3 :: "u64 \<Rightarrow> u64 \<Rightarrow> u64 \<Rightarrow> u64" where
  "poseidon4_hash3 a b c = poseidon4_hash_state [a, b, c, 0, 0, 0, 0, 0]"

definition poseidon4_hash :: "u64 \<Rightarrow> u64 \<Rightarrow> u64" where
  "poseidon4_hash a b = poseidon4_hash_state [a, b, 0, 0, 0, 0, 0, 0]"

section \<open>The Merkle path round\<close>

definition merkle_poseidon_round :: "u64 \<Rightarrow> u64 \<Rightarrow> u64" where
  "merkle_poseidon_round a b =
     (let s0 = as_u64 ((as_u128 a + as_u128 0xdd5743e7f2a5a5d9) mod as_u128 GOLDILOCKS_P);
          s1 = as_u64 ((as_u128 b + as_u128 0xcb3a864e58ada44b) mod as_u128 GOLDILOCKS_P)
      in as_u64 ((7 * as_u128 (sbox s0) + as_u128 (sbox s1)) mod as_u128 GOLDILOCKS_P))"

section \<open>The S-box is the seventh power, a permutation of the field\<close>

lemma sbox_nat: "unat (sbox x) = unat x ^ 7 mod gP"
proof -
  define x2 where "x2 = field_mul_goldilocks x x"
  define x4 where "x4 = field_mul_goldilocks x2 x2"
  have x2: "unat x2 = unat x ^ 2 mod gP" by (simp only: x2_def field_mul_nat power2_eq_square)
  have x4: "unat x4 = unat x ^ 4 mod gP"
    by (simp only: x4_def field_mul_nat x2 mod_mult_eq flip: power_add) simp
  let ?y = "(as_u128 x4 * as_u128 x2) mod as_u128 GOLDILOCKS_P"
  have y: "unat ?y = (unat x4 * unat x2) mod gP"
    using u64_mult_less [of x4 x2] by (simp add: unat_mod unat_mult_small)
  have "unat ?y * unat (as_u128 x) < 2 ^ 64 * 2 ^ 64"
    unfolding y using u64_less [of x]
    by (intro mult_strict_mono) (auto intro: less_trans [of _ gP])
  then have "unat (?y * as_u128 x) = unat ?y * unat x" by (simp add: unat_mult_small)
  then have "unat (sbox x) = (unat ?y * unat x) mod gP"
    by (simp add: sbox_def Let_def x2_def [symmetric] x4_def [symmetric] field_mul_goldilocks_def [symmetric])
  also have "unat ?y = (unat x ^ 4 * unat x ^ 2) mod gP"
    by (simp only: y x2 x4 mod_mult_eq)
  also have "(\<dots> * unat x) mod gP = (unat x ^ 4 * unat x ^ 2 * unat x) mod gP"
    by (rule mod_mult_left_eq)
  also have "unat x ^ 4 * unat x ^ 2 * unat x = unat x ^ 7"
    by (simp only: flip: power_add power_Suc2) simp
  finally show ?thesis .
qed

lemma canonical_sbox [simp]: "canonical (sbox x)"
  by (simp only: canonical_iff sbox_nat mod_less_divisor zero_less_numeral)

text \<open>\<open>7 * d = 1 + 4 * (P - 1)\<close> for \<open>d\<close> below, so raising to the power \<open>d\<close> undoes the S-box.\<close>

lemma power_root:
  assumes p: "is_prime p" and e: "a * d = (p - 1) * k + 1"
  shows "(n ^ a) ^ d mod p = n mod p"
proof (cases "p dvd n")
  case True
  have "0 < a * d" using e by simp
  then have "n dvd (n ^ a) ^ d" by (simp add: dvd_power flip: power_mult)
  then have "p dvd (n ^ a) ^ d" using True by (rule dvd_trans [rotated])
  then show ?thesis using True by (simp only: dvd_eq_mod_eq_0)
next
  case False
  have "(n ^ a) ^ d = (n ^ (p - 1)) ^ k * n"
    by (simp add: e power_add flip: power_mult)
  also have "\<dots> mod p = ((n ^ (p - 1) mod p) ^ k * n) mod p"
    by (metis mod_mult_left_eq power_mod)
  finally show ?thesis by (simp only: fermat_little [OF p False] power_one mult_1)
qed

lemma seventh_root: "(n ^ 7) ^ 10540996611094048183 mod gP = n mod gP"
  by (rule power_root [OF goldilocks_prime, where k = 4]) simp

lemma power_mod_cong: "a mod m = b mod m \<Longrightarrow> a ^ d mod m = b ^ d mod (m::nat)"
  by (metis power_mod)

lemma sbox_inj: "canonical x \<Longrightarrow> canonical y \<Longrightarrow> sbox x = sbox y \<Longrightarrow> x = y"
proof (rule canonical_eqI)
  assume "sbox x = sbox y"
  then have "unat x ^ 7 mod gP = unat y ^ 7 mod gP" by (simp only: flip: sbox_nat)
  then have "(unat x ^ 7) ^ 10540996611094048183 mod gP = (unat y ^ 7) ^ 10540996611094048183 mod gP"
    by (rule power_mod_cong)
  then show "unat x mod gP = unat y mod gP" by (simp only: seventh_root)
qed

section \<open>The permutation is a bijection of the canonical states\<close>

definition canonical_state :: "u64 list \<Rightarrow> bool" where
  "canonical_state s \<longleftrightarrow> length s = 8 \<and> list_all canonical s"

lemma add_round_constants_nth:
  "length rc = length s \<Longrightarrow> i < length s \<Longrightarrow>
   add_round_constants rc s ! i = field_add_goldilocks (s ! i) (rc ! i)"
  by (simp add: add_round_constants_def field_add_goldilocks_def)

lemma length_add_round_constants [simp]: "length rc = length s \<Longrightarrow> length (add_round_constants rc s) = length s"
  by (simp add: add_round_constants_def)

lemma add_round_constants_canonical:
  "length rc = 8 \<Longrightarrow> length s = 8 \<Longrightarrow> canonical_state (add_round_constants rc s)"
  by (simp add: canonical_state_def list_all_length add_round_constants_nth)

lemma add_round_constants_inj:
  assumes rc: "length rc = 8" and s: "canonical_state s" "canonical_state t"
    and eq: "add_round_constants rc s = add_round_constants rc t"
  shows "s = t"
proof (rule nth_equalityI)
  show "length s = length t" using s by (simp add: canonical_state_def)
  fix i assume i: "i < length s"
  then have "field_add_goldilocks (rc ! i) (s ! i) = field_add_goldilocks (rc ! i) (t ! i)"
    using rc s eq add_round_constants_nth [of rc s i] add_round_constants_nth [of rc t i]
    by (simp add: canonical_state_def gf.add_commute)
  moreover have "canonical (s ! i)" "canonical (t ! i)"
    using i s by (simp_all add: canonical_state_def list_all_length)
  ultimately show "s ! i = t ! i" using gf.add_left_cancel by blast
qed

lemma length_sbox_layer [simp]: "length (sbox_layer r s) = length s"
  by (simp add: sbox_layer_def)

lemma sbox_layer_canonical: "canonical_state s \<Longrightarrow> canonical_state (sbox_layer r s)"
  by (auto simp: canonical_state_def sbox_layer_def list_all_length nth_list_update)

lemma sbox_layer_inj:
  assumes s: "canonical_state s" "canonical_state t" and eq: "sbox_layer r s = sbox_layer r t"
  shows "s = t"
proof (rule nth_equalityI)
  show len: "length s = length t" using s by (simp add: canonical_state_def)
  fix i assume i: "i < length s"
  have "canonical (s ! i)" "canonical (t ! i)"
    using i s by (simp_all add: canonical_state_def list_all_length)
  moreover have "sbox_layer r s ! i = sbox_layer r t ! i" using eq by simp
  ultimately show "s ! i = t ! i"
    using i len sbox_inj by (cases "i = 0") (auto simp: sbox_layer_def split: if_splits)
qed

text \<open>The matrix product on residues.\<close>

definition mds_entry :: "nat \<Rightarrow> nat \<Rightarrow> nat" where
  "mds_entry i j = unat (POSEIDON_MDS ! i ! j)"

lemma mds_row_fold:
  "unat acc < gP \<Longrightarrow>
   unat (foldl (\<lambda>sum (m, x). (sum + as_u128 m * as_u128 x) mod as_u128 GOLDILOCKS_P) acc (zip row s))
     = (unat acc + (\<Sum>(m, x)\<leftarrow>zip row s. unat m * unat x)) mod gP"
proof (induction "zip row s" arbitrary: row s acc)
  case Nil
  then show ?case by (simp flip: Nil(1))
next
  case (Cons p ps)
  obtain m x where p: "p = (m, x)" by force
  obtain row' s' where z: "zip row s = (m, x) # zip row' s'" "ps = zip row' s'"
    using Cons(2) p by (cases row; cases s) auto
  let ?acc = "(acc + as_u128 m * as_u128 x) mod as_u128 GOLDILOCKS_P"
  have "unat m \<le> 2 ^ 64 - 1" "unat x \<le> 2 ^ 64 - 1" using u64_less [of m] u64_less [of x] by simp_all
  then have "unat m * unat x \<le> (2 ^ 64 - 1) * (2 ^ 64 - 1)" by (rule mult_le_mono)
  then have b: "unat acc + unat m * unat x < 2 ^ 128" using Cons.prems by simp
  then have acc: "unat ?acc = (unat acc + unat m * unat x) mod gP"
    by (simp add: unat_mod unat_add_small unat_mult_small)
  then have "unat ?acc < gP" by (simp only: mod_less_divisor zero_less_numeral)
  then have "unat (foldl (\<lambda>sum (m, x). (sum + as_u128 m * as_u128 x) mod as_u128 GOLDILOCKS_P) ?acc (zip row' s'))
      = (unat ?acc + (\<Sum>(m, x)\<leftarrow>zip row' s'. unat m * unat x)) mod gP"
    using Cons(1) [of row' s'] z(2) by blast
  then show ?case by (simp add: z acc mod_add_left_eq add.assoc)
qed

lemma mds_row_nat: "unat (mds_row row s) = (\<Sum>(m, x)\<leftarrow>zip row s. unat m * unat x) mod gP"
proof -
  let ?f = "foldl (\<lambda>sum (m, x). (sum + as_u128 m * as_u128 x) mod as_u128 GOLDILOCKS_P) 0 (zip row s)"
  have f: "unat ?f = (\<Sum>(m, x)\<leftarrow>zip row s. unat m * unat x) mod gP"
    using mds_row_fold [of 0 row s] by simp
  have "unat ?f < 2 ^ 64" unfolding f by (rule less_trans [of _ gP]) simp_all
  then show ?thesis by (simp add: mds_row_def unsigned_ucast_eq take_bit_nat_eq_self f)
qed

lemma canonical_mds_row [simp]: "canonical (mds_row row s)"
  by (simp only: canonical_iff mds_row_nat mod_less_divisor zero_less_numeral)

lemma length_MDS [simp]: "length POSEIDON_MDS = 8"
  by (simp add: POSEIDON_MDS_def)

lemma length_MDS_row [simp]: "i < 8 \<Longrightarrow> length (POSEIDON_MDS ! i) = 8"
proof -
  have "list_all (\<lambda>r. length r = 8) POSEIDON_MDS" by (simp add: POSEIDON_MDS_def)
  then show "i < 8 \<Longrightarrow> length (POSEIDON_MDS ! i) = 8" by (simp add: list_all_length)
qed

lemma length_mds_layer [simp]: "length (mds_layer s) = 8"
  by (simp add: mds_layer_def)

lemma mds_layer_canonical: "canonical_state (mds_layer s)"
  by (simp add: canonical_state_def mds_layer_def list_all_length)

lemma mds_layer_nth_nat:
  assumes "length s = 8" and "i < 8"
  shows "unat (mds_layer s ! i) = (\<Sum>j<8. mds_entry i j * unat (s ! j)) mod gP"
proof -
  have "(\<Sum>(m, x)\<leftarrow>zip (POSEIDON_MDS ! i) s. unat m * unat x)
      = (\<Sum>j<8. mds_entry i j * unat (s ! j))"
    using assms by (simp add: sum_list_sum_nth atLeast0LessThan mds_entry_def)
  then show ?thesis using assms by (simp add: mds_layer_def mds_row_nat)
qed

text \<open>The inverse of the matrix mod \<open>P\<close>, as a certificate of invertibility.\<close>

definition mds_inverse :: "nat list list" where
  "mds_inverse =
     [[4714385741194949836, 17814787424422222165, 12924840119982607538, 16100977321532909610,
       1459077964239434956, 6963761501237172564, 7499327158390082738, 4164848806029355049],
      [4164848806029355049, 4714385741194949836, 17814787424422222165, 12924840119982607538,
       16100977321532909610, 1459077964239434956, 6963761501237172564, 7499327158390082738],
      [7499327158390082738, 4164848806029355049, 4714385741194949836, 17814787424422222165,
       12924840119982607538, 16100977321532909610, 1459077964239434956, 6963761501237172564],
      [6963761501237172564, 7499327158390082738, 4164848806029355049, 4714385741194949836,
       17814787424422222165, 12924840119982607538, 16100977321532909610, 1459077964239434956],
      [1459077964239434956, 6963761501237172564, 7499327158390082738, 4164848806029355049,
       4714385741194949836, 17814787424422222165, 12924840119982607538, 16100977321532909610],
      [16100977321532909610, 1459077964239434956, 6963761501237172564, 7499327158390082738,
       4164848806029355049, 4714385741194949836, 17814787424422222165, 12924840119982607538],
      [12924840119982607538, 16100977321532909610, 1459077964239434956, 6963761501237172564,
       7499327158390082738, 4164848806029355049, 4714385741194949836, 17814787424422222165],
      [17814787424422222165, 12924840119982607538, 16100977321532909610, 1459077964239434956,
       6963761501237172564, 7499327158390082738, 4164848806029355049, 4714385741194949836]]"

lemma mds_columns: "map (\<lambda>j. map (\<lambda>k. mds_entry k j) [0..<8]) [0..<8] =
  [[7, 9, 4, 3, 8, 8, 3, 1], [1, 7, 9, 4, 3, 8, 8, 3], [3, 1, 7, 9, 4, 3, 8, 8], [8, 3, 1, 7, 9, 4, 3, 8],
   [8, 8, 3, 1, 7, 9, 4, 3], [3, 8, 8, 3, 1, 7, 9, 4], [4, 3, 8, 8, 3, 1, 7, 9], [9, 4, 3, 8, 8, 3, 1, 7]]"
  by (simp add: mds_entry_def POSEIDON_MDS_def upt_rec)

lemma mds_inverse_check:
  "map (\<lambda>r. map (\<lambda>c. sum_list (map2 (*) r c) mod gP)
        (map (\<lambda>j. map (\<lambda>k. mds_entry k j) [0..<8]) [0..<8])) mds_inverse
   = map (\<lambda>i. map (\<lambda>j. if i = j then 1 else 0) [0..<8]) [0..<8]"
  unfolding mds_columns by (simp add: mds_inverse_def upt_rec)

lemma mds_inverse_shape: "length mds_inverse = 8" "i < 8 \<Longrightarrow> length (mds_inverse ! i) = 8"
proof -
  show "length mds_inverse = 8" by (simp add: mds_inverse_def)
  have "list_all (\<lambda>r. length r = 8) mds_inverse" by (simp add: mds_inverse_def)
  then show "i < 8 \<Longrightarrow> length (mds_inverse ! i) = 8"
    by (simp add: list_all_length \<open>length mds_inverse = 8\<close>)
qed

lemma mds_inverse_entry:
  assumes "i < 8" "j < 8"
  shows "(\<Sum>k<8. mds_inverse ! i ! k * mds_entry k j) mod gP = (if i = j then 1 else 0)"
proof -
  have "sum_list (map2 (*) (mds_inverse ! i) (map (\<lambda>k. mds_entry k j) [0..<8])) mod gP
      = (if i = j then 1 else 0)"
    using arg_cong [OF mds_inverse_check, of "\<lambda>m. m ! i ! j"] assms
    by (simp only: nth_map mds_inverse_shape length_map length_upt nth_upt diff_zero add_0)
  moreover have "sum_list (map2 (*) (mds_inverse ! i) (map (\<lambda>k. mds_entry k j) [0..<8]))
      = (\<Sum>k<8. mds_inverse ! i ! k * mds_entry k j)"
    using assms by (simp add: sum_list_sum_nth atLeast0LessThan mds_inverse_shape)
  ultimately show ?thesis by simp
qed

lemma sum_mod_cong:
  fixes n m :: nat and f g :: "nat \<Rightarrow> nat"
  shows "(\<And>k. k < n \<Longrightarrow> f k mod m = g k mod m) \<Longrightarrow> (\<Sum>k<n. f k) mod m = (\<Sum>k<n. g k) mod m"
proof (induction n)
  case (Suc n)
  have "(sum f {..<n} + f n) mod m = (sum g {..<n} + g n) mod m"
    by (rule mod_add_cong) (use Suc in auto)
  then show ?case by simp
qed simp

lemma mds_inverse_apply:
  fixes v :: "nat \<Rightarrow> nat"
  assumes i: "i < 8"
  shows "(\<Sum>k<8. mds_inverse ! i ! k * ((\<Sum>j<8. mds_entry k j * v j) mod gP)) mod gP = v i mod gP"
proof -
  have "(\<Sum>k<8. mds_inverse ! i ! k * ((\<Sum>j<8. mds_entry k j * v j) mod gP)) mod gP
      = (\<Sum>k<8. mds_inverse ! i ! k * (\<Sum>j<8. mds_entry k j * v j)) mod gP"
    by (rule sum_mod_cong) (rule mod_mult_right_eq)
  also have "(\<Sum>k<8. mds_inverse ! i ! k * (\<Sum>j<8. mds_entry k j * v j))
      = (\<Sum>j<8. (\<Sum>k<8. mds_inverse ! i ! k * mds_entry k j) * v j)"
    unfolding sum_distrib_left sum_distrib_right mult.assoc by (rule sum.swap)
  also have "\<dots> mod gP = (\<Sum>j<8. (if i = j then 1 else 0) * v j) mod gP"
  proof (rule sum_mod_cong)
    fix j :: nat assume "j < 8"
    then show "(\<Sum>k<8. mds_inverse ! i ! k * mds_entry k j) * v j mod gP
        = (if i = j then 1 else 0) * v j mod gP"
      using mod_mult_left_eq [of "\<Sum>k<8. mds_inverse ! i ! k * mds_entry k j" gP "v j"]
        mds_inverse_entry [OF i, of j] by argo
  qed
  also have "(\<Sum>j<8. (if i = j then 1 else 0) * v j) = v i"
    using i by (simp add: if_distrib [of "\<lambda>x. x * _"] cong: if_cong)
  finally show ?thesis .
qed

lemma mds_layer_inj:
  assumes s: "canonical_state s" "canonical_state t" and eq: "mds_layer s = mds_layer t"
  shows "s = t"
proof (rule nth_equalityI)
  show "length s = length t" using s by (simp add: canonical_state_def)
  fix i assume "i < length s"
  then have i: "i < 8" using s by (simp add: canonical_state_def)
  have len: "length s = 8" "length t = 8" using s by (simp_all add: canonical_state_def)
  have "(\<Sum>j<8. mds_entry k j * unat (s ! j)) mod gP = (\<Sum>j<8. mds_entry k j * unat (t ! j)) mod gP"
    if "k < 8" for k using eq that len by (simp only: flip: mds_layer_nth_nat)
  then have "unat (s ! i) mod gP = unat (t ! i) mod gP"
    using mds_inverse_apply [OF i, of "\<lambda>j. unat (s ! j)"] mds_inverse_apply [OF i, of "\<lambda>j. unat (t ! j)"]
    by (simp cong: sum.cong_simp)
  then show "s ! i = t ! i"
    using i len s by (intro canonical_eqI) (simp_all add: canonical_state_def list_all_length)
qed

section \<open>The whole permutation\<close>

lemma RC_shape: "length POSEIDON_RC_FULL = 30" "list_all (\<lambda>rc. length rc = 8) POSEIDON_RC_FULL"
  by (simp_all add: POSEIDON_RC_FULL_def RC_FULL_LEADING_def RC_PARTIAL_A_def RC_PARTIAL_B_def
      RC_FULL_TRAILING_def)

lemma poseidon_round_canonical: "canonical_state (poseidon_round r rc s)"
  by (simp add: poseidon_round_def mds_layer_canonical)

lemma poseidon_round_inj:
  assumes "length rc = 8" "canonical_state s" "canonical_state t"
    and "poseidon_round r rc s = poseidon_round r rc t"
  shows "s = t"
proof -
  have c: "canonical_state (add_round_constants rc u)" if "canonical_state u" for u
    using that assms(1) by (intro add_round_constants_canonical) (simp_all add: canonical_state_def)
  note cs = c [OF assms(2)] and ct = c [OF assms(3)]
  have "sbox_layer r (add_round_constants rc s) = sbox_layer r (add_round_constants rc t)"
    using assms(4) unfolding poseidon_round_def
    by (rule mds_layer_inj [OF sbox_layer_canonical [OF cs] sbox_layer_canonical [OF ct]])
  then have "add_round_constants rc s = add_round_constants rc t" by (rule sbox_layer_inj [OF cs ct])
  then show ?thesis by (rule add_round_constants_inj [OF assms(1-3)])
qed

lemma poseidon_fold:
  "list_all (\<lambda>rc. length rc = 8) rcs \<Longrightarrow> canonical_state s \<Longrightarrow>
   canonical_state (fold (\<lambda>(round, rc) s. poseidon_round round rc s) (List.enumerate n rcs) s)"
  by (induction rcs arbitrary: n s) (simp_all add: poseidon_round_canonical)

lemma poseidon_fold_inj:
  "list_all (\<lambda>rc. length rc = 8) rcs \<Longrightarrow> canonical_state s \<Longrightarrow> canonical_state t \<Longrightarrow>
   fold (\<lambda>(round, rc) s. poseidon_round round rc s) (List.enumerate n rcs) s =
   fold (\<lambda>(round, rc) s. poseidon_round round rc s) (List.enumerate n rcs) t \<Longrightarrow> s = t"
proof (induction rcs arbitrary: n s t)
  case (Cons rc rcs)
  then have "poseidon_round n rc s = poseidon_round n rc t"
    using Cons.IH [of "poseidon_round n rc s" "poseidon_round n rc t" "Suc n"]
    by (simp add: poseidon_round_canonical)
  then show ?case using Cons.prems by (auto intro: poseidon_round_inj)
qed simp

lemma finite_canonical_states: "finite {s. canonical_state s}"
proof (rule finite_subset)
  show "{s. canonical_state s} \<subseteq> {s. set s \<subseteq> UNIV \<and> length s = 8}" by (auto simp: canonical_state_def)
  show "finite {s :: u64 list. set s \<subseteq> UNIV \<and> length s = 8}" by (rule finite_lists_length_eq) simp
qed

lemma poseidon_full_state_bij: "bij_betw poseidon_full_state {s. canonical_state s} {s. canonical_state s}"
proof -
  have inj: "inj_on poseidon_full_state {s. canonical_state s}"
    by (rule inj_onI) (metis poseidon_fold_inj [OF RC_shape(2)] mem_Collect_eq poseidon_full_state_def)
  moreover have "poseidon_full_state ` {s. canonical_state s} \<subseteq> {s. canonical_state s}"
    by (auto simp: poseidon_full_state_def intro: poseidon_fold [OF RC_shape(2)])
  ultimately show ?thesis
    using finite_canonical_states by (simp add: bij_betw_def endo_inj_surj)
qed

end
