(* ===== verification/Vm.thy ===== *)
theory Vm
  imports Isa Poseidon Invariant_Spec
begin

text \<open>
  The virtual machine, \<open>budzero/bud-vm/src/lib.rs\<close>: its state, the execution trace it writes for
  the prover, one definition per instruction, the step function and the run loop with the
  receipt.  Registers, program counter, memory and gas are kept at their machine widths.
  Errors are the left summand of a sum; every early return of the source is such a branch.
  Decoding yields register indices below 32, so the register array is never indexed outside.
\<close>

section \<open>State\<close>

datatype vm_error =
    OutOfGas
  | AssertionFailed
  | StackUnderflow
  | StackOverflow
  | InvalidOpcode decode_error
  | InvalidPc
  | InvalidMemoryAccess

record execution_receipt =
  success :: bool
  receipt_error :: "vm_error option"
  receipt_gas_used :: u64
  exit_code :: u64
  receipt_events :: "u64 list"
  final_pc :: u64
  trace_len :: u64
  state_writes_digest :: "u8 list"

record vm_context =
  sender :: u64
  nonce :: u64
  block_height :: u64
  initial_state_root :: "u8 list"

text \<open>A row of the execution trace (\<open>struct Step\<close>).\<close>

record trace_row =
  row_pc :: usize
  row_next_pc :: usize
  row_instruction :: instruction
  row_src1_idx :: u8
  row_src2_idx :: u8
  row_dst_idx :: u8
  row_src1_val :: u64
  row_src2_val :: u64
  row_dst_val :: u64
  row_registers :: "u64 list"
  row_memory_addr :: "usize option"
  row_memory_val :: "u64 option"
  row_is_memory_write :: bool
  row_stack_pointer :: usize
  merkle_key :: "u64 option"
  merkle_current :: "u64 option"
  merkle_sibling :: "u64 option"
  merkle_round :: "u8 option"
  merkle_is_expand :: bool
  inference_model_commitment :: "u64 option"
  inference_input_commitment :: "u64 option"
  inference_output_commitment :: "u64 option"
  inference_proof_round :: "u8 option"
  inference_is_expand :: bool

record vm =
  registers :: "u64 list"
  pc :: usize
  stack :: "u64 list"
  memory :: "u8 list"
  storage :: "i32 \<rightharpoonup> u64"
  events :: "u64 list"
  ctx :: vm_context
  trace :: "trace_row list"
  halted :: bool
  gas_used :: u64
  gas_limit :: u64
  error :: "vm_error option"
  state_writes :: "(i32 \<times> u64) list"
  mainnet_mode :: bool

definition with_gas_limit :: "usize \<Rightarrow> u64 \<Rightarrow> vm" where
  "with_gas_limit memory_size limit =
     \<lparr>registers = replicate 32 0, pc = 0, stack = [], memory = replicate (unat memory_size) 0,
      storage = Map.empty, events = [],
      ctx = \<lparr>sender = 0, nonce = 0, block_height = 0, initial_state_root = replicate 32 0\<rparr>,
      trace = [], halted = False, gas_used = 0, gas_limit = limit, error = None,
      state_writes = [], mainnet_mode = False\<rparr>"

definition new_vm :: "usize \<Rightarrow> vm" where
  "new_vm memory_size = with_gas_limit memory_size 1000000"

definition with_mainnet_mode :: "usize \<Rightarrow> u64 \<Rightarrow> bool \<Rightarrow> vm" where
  "with_mainnet_mode memory_size limit mainnet =
     (with_gas_limit memory_size limit)\<lparr>mainnet_mode := mainnet\<rparr>"

section \<open>Decoding, gas and memory addresses\<close>

definition decode_instruction :: "u64 \<Rightarrow> bool \<Rightarrow> decode_error + instruction" where
  "decode_instruction raw mainnet =
     (if mainnet then decode_for_mainnet raw activation_default else decode raw)"

text \<open>Every error path sets \<open>halted\<close> and \<open>error\<close> and returns the error.\<close>

definition vm_fail :: "vm_error \<Rightarrow> vm \<Rightarrow> (vm_error + 'a) \<times> vm" where
  "vm_fail e vm = (Inl e, vm\<lparr>halted := True, error := Some e\<rparr>)"

definition consume_gas :: "vm \<Rightarrow> u64 \<Rightarrow> (vm_error + unit) \<times> vm" where
  "consume_gas vm amount =
     (let vm = vm\<lparr>gas_used := saturating_add (gas_used vm) amount\<rparr>
      in if gas_used vm > gas_limit vm then vm_fail OutOfGas vm else (Inr (), vm))"

fun gas_cost :: "opcode \<Rightarrow> u64" where
  "gas_cost Op_Halt = 0"
| "gas_cost Op_Load = 3"
| "gas_cost Op_Store = 3"
| "gas_cost Op_SRead = 8"
| "gas_cost Op_SWrite = 12"
| "gas_cost Op_Poseidon = 10"
| "gas_cost Op_VerifyMerkle = 10"
| "gas_cost Op_VerifyInference = 10"
| "gas_cost Op_PrivacyCommit = 10"
| "gas_cost Op_NullifierCheck = 10"
| "gas_cost Op_SumConservation = 10"
| "gas_cost Op_Call = 2"
| "gas_cost Op_Ret = 2"
| "gas_cost Op_Push = 2"
| "gas_cost Op_Pop = 2"
| "gas_cost Op_Syscall = 5"
| "gas_cost _ = 1"

text \<open>\<open>base + imm\<close> in \<open>i128\<close>, converted to an address whose eight bytes lie in the memory.\<close>

definition memory_word_addr :: "u64 \<Rightarrow> i32 \<Rightarrow> nat \<Rightarrow> usize option" where
  "memory_word_addr base im memory_len =
     (let addr = uint base + sint im
      in if addr < 0 then None
         else if addr \<ge> 2 ^ 64 then None
         else (case checked_add (word_of_int addr :: usize) 8 of
                 None \<Rightarrow> None
               | Some end_addr \<Rightarrow>
                   if unat end_addr \<le> memory_len then Some (word_of_int addr) else None))"

definition read_u64 :: "u8 list \<Rightarrow> usize \<Rightarrow> u64" where
  "read_u64 mem addr = from_le_bytes (slice (unat addr) 8 mem)"

text \<open>\<open>cur_pc as i64 + imm as i64\<close>, cast back to \<open>usize\<close>.\<close>

definition jump_target :: "usize \<Rightarrow> i32 \<Rightarrow> usize" where
  "jump_target cur_pc im = cur_pc + scast im"

section \<open>The instructions\<close>

text \<open>What one instruction hands to the trace row: \<open>(dst_val, next_pc)\<close> and the three memory
  columns.\<close>

record exec_effect =
  dst_val :: u64
  next_pc :: usize
  memory_addr :: "usize option"
  memory_val :: "u64 option"
  is_memory_write :: bool

definition plain_effect :: "u64 \<Rightarrow> usize \<Rightarrow> exec_effect" where
  "plain_effect v next =
     \<lparr>dst_val = v, next_pc = next, memory_addr = None, memory_val = None, is_memory_write = False\<rparr>"

type_synonym exec_result = "(vm_error + exec_effect) \<times> vm"

text \<open>The common tail: write the destination register, advance the program counter.\<close>

definition set_register :: "u8 \<Rightarrow> u64 \<Rightarrow> vm \<Rightarrow> vm" where
  "set_register idx v vm = vm\<lparr>registers := (registers vm)[unat idx := v]\<rparr>"

definition finish_with :: "instruction \<Rightarrow> u64 \<Rightarrow> vm \<Rightarrow> exec_result" where
  "finish_with inst result vm =
     (let cur_pc = pc vm; vm = set_register (rd inst) result vm; vm = vm\<lparr>pc := pc vm + 1\<rparr>
      in (Inr (plain_effect result (cur_pc + 1)), vm))"

fun arith_result :: "opcode \<Rightarrow> u64 \<Rightarrow> u64 \<Rightarrow> u64 option" where
  "arith_result Op_Add a b = Some (field_add_goldilocks a b)"
| "arith_result Op_Sub a b = Some (field_sub_goldilocks a b)"
| "arith_result Op_Mul a b = Some (field_mul_goldilocks a b)"
| "arith_result Op_Div a b =
     Some (if b \<noteq> 0
           then as_u64 ((as_u128 a * as_u128 (field_inverse_goldilocks b)) mod as_u128 GOLDILOCKS_P)
           else 0)"
| "arith_result Op_Inv a b = Some (if a \<noteq> 0 then field_inverse_goldilocks a else 0)"
| "arith_result Op_And a b = Some (a AND b)"
| "arith_result Op_Not a b = Some (if a = 0 then 1 else 0)"
| "arith_result _ a b = None"

fun compare_result :: "opcode \<Rightarrow> u64 \<Rightarrow> u64 \<Rightarrow> u64 option" where
  "compare_result Op_Eq a b = Some (if a = b then 1 else 0)"
| "compare_result Op_Neq a b = Some (if a \<noteq> b then 1 else 0)"
| "compare_result Op_Lt a b = Some (if a < b then 1 else 0)"
| "compare_result Op_Gt a b = Some (if a > b then 1 else 0)"
| "compare_result Op_Lte a b = Some (if a \<le> b then 1 else 0)"
| "compare_result Op_Gte a b = Some (if a \<ge> b then 1 else 0)"
| "compare_result _ a b = None"

definition exec_load :: "instruction \<Rightarrow> u64 \<Rightarrow> vm \<Rightarrow> exec_result" where
  "exec_load inst src1_val vm =
     (if rs1 inst = 0 then finish_with inst (scast (imm inst)) vm
      else (case memory_word_addr src1_val (imm inst) (length (memory vm)) of
              None \<Rightarrow> vm_fail InvalidMemoryAccess vm
            | Some addr \<Rightarrow>
                (let val = read_u64 (memory vm) addr;
                     cur_pc = pc vm;
                     vm = set_register (rd inst) val vm;
                     vm = vm\<lparr>pc := pc vm + 1\<rparr>
                 in (Inr \<lparr>dst_val = val, next_pc = cur_pc + 1, memory_addr = Some addr,
                          memory_val = Some val, is_memory_write = False\<rparr>, vm))))"

definition exec_store :: "instruction \<Rightarrow> u64 \<Rightarrow> u64 \<Rightarrow> vm \<Rightarrow> exec_result" where
  "exec_store inst src1_val src2_val vm =
     (case memory_word_addr src1_val (imm inst) (length (memory vm)) of
        None \<Rightarrow> vm_fail InvalidMemoryAccess vm
      | Some addr \<Rightarrow>
          (let cur_pc = pc vm;
               vm = vm\<lparr>memory := copy_from_slice (unat addr) (to_le_bytes src2_val) (memory vm)\<rparr>;
               vm = vm\<lparr>pc := pc vm + 1\<rparr>
           in (Inr \<lparr>dst_val = 0, next_pc = cur_pc + 1, memory_addr = Some addr,
                    memory_val = Some src2_val, is_memory_write = True\<rparr>, vm)))"

definition exec_jmp :: "instruction \<Rightarrow> vm \<Rightarrow> exec_result" where
  "exec_jmp inst vm =
     (let target = jump_target (pc vm) (imm inst)
      in (Inr (plain_effect 0 target), vm\<lparr>pc := target\<rparr>))"

definition exec_jnz :: "instruction \<Rightarrow> u64 \<Rightarrow> vm \<Rightarrow> exec_result" where
  "exec_jnz inst src1_val vm =
     (let target = (if src1_val \<noteq> 0 then jump_target (pc vm) (imm inst) else pc vm + 1)
      in (Inr (plain_effect 0 target), vm\<lparr>pc := target\<rparr>))"

definition exec_call :: "instruction \<Rightarrow> vm \<Rightarrow> exec_result" where
  "exec_call inst vm =
     (if length (stack vm) \<ge> 1024 then vm_fail StackOverflow vm
      else (let cur_pc = pc vm;
                target = jump_target cur_pc (imm inst);
                vm = vm\<lparr>stack := stack vm @ [cur_pc + 1]\<rparr>;
                vm = vm\<lparr>pc := target\<rparr>
            in (Inr (plain_effect (cur_pc + 1) target), vm)))"

definition exec_ret :: "vm \<Rightarrow> exec_result" where
  "exec_ret vm =
     (case vec_pop (stack vm) of
        None \<Rightarrow> vm_fail StackUnderflow vm
      | Some (target, rest) \<Rightarrow>
          (Inr (plain_effect target target), vm\<lparr>stack := rest, pc := target\<rparr>))"

definition exec_push :: "u64 \<Rightarrow> vm \<Rightarrow> exec_result" where
  "exec_push src1_val vm =
     (if length (stack vm) \<ge> 1024 then vm_fail StackOverflow vm
      else (let cur_pc = pc vm; vm = vm\<lparr>stack := stack vm @ [src1_val], pc := pc vm + 1\<rparr>
            in (Inr (plain_effect src1_val (cur_pc + 1)), vm)))"

definition exec_pop :: "instruction \<Rightarrow> vm \<Rightarrow> exec_result" where
  "exec_pop inst vm =
     (case vec_pop (stack vm) of
        None \<Rightarrow> vm_fail StackUnderflow vm
      | Some (result, rest) \<Rightarrow> finish_with inst result (vm\<lparr>stack := rest\<rparr>))"

text \<open>Instructions that leave the registers alone and advance the program counter.\<close>

definition finish_plain :: "vm \<Rightarrow> exec_result" where
  "finish_plain vm = (Inr (plain_effect 0 (pc vm + 1)), vm\<lparr>pc := pc vm + 1\<rparr>)"

definition exec_assert :: "u64 \<Rightarrow> vm \<Rightarrow> exec_result" where
  "exec_assert src1_val vm =
     (if src1_val = 0 then vm_fail AssertionFailed vm else finish_plain vm)"

definition storage_slot :: "instruction \<Rightarrow> u64 \<Rightarrow> i32" where
  "storage_slot inst src2_val = (if imm inst = - 1 then ucast src2_val else imm inst)"

definition exec_sread :: "instruction \<Rightarrow> u64 \<Rightarrow> vm \<Rightarrow> exec_result" where
  "exec_sread inst src2_val vm =
     (let slot = storage_slot inst src2_val;
          val = (case storage vm slot of Some v \<Rightarrow> v | None \<Rightarrow> 0)
      in finish_with inst val vm)"

definition exec_swrite :: "instruction \<Rightarrow> u64 \<Rightarrow> u64 \<Rightarrow> vm \<Rightarrow> exec_result" where
  "exec_swrite inst src1_val src2_val vm =
     (let slot = storage_slot inst src2_val;
          vm = vm\<lparr>storage := (storage vm)(slot \<mapsto> src1_val)\<rparr>;
          vm = vm\<lparr>state_writes := state_writes vm @ [(slot, src1_val)]\<rparr>
      in finish_plain vm)"

definition exec_log :: "u64 \<Rightarrow> vm \<Rightarrow> exec_result" where
  "exec_log src1_val vm = finish_plain (vm\<lparr>events := events vm @ [src1_val]\<rparr>)"

definition exec_syscall :: "instruction \<Rightarrow> u64 \<Rightarrow> vm \<Rightarrow> exec_result" where
  "exec_syscall inst src1_val vm =
     (if imm inst = 1 then finish_with inst (sender (ctx vm)) vm
      else if imm inst = 2 then finish_with inst (block_height (ctx vm)) vm
      else if imm inst = 3 then finish_with inst (nonce (ctx vm)) vm
      else if imm inst = 6 then
        (let vm = vm\<lparr>events := events vm @ [0x00A100A1]\<rparr>;
             vm = vm\<lparr>events := events vm @ [src1_val]\<rparr>
         in finish_with inst (saturating_add (block_height (ctx vm)) src1_val) vm)
      else finish_with inst 0 vm)"

section \<open>Merkle paths, inference, privacy\<close>

text \<open>The path in memory is the key followed by 64 siblings, 520 bytes at \<open>imm\<close>.\<close>

definition path_in_memory :: "usize \<Rightarrow> usize \<Rightarrow> nat \<Rightarrow> bool" where
  "path_in_memory addr len memory_len =
     (case checked_add addr len of None \<Rightarrow> False | Some end_addr \<Rightarrow> unat end_addr \<le> memory_len)"

definition sibling_addr :: "usize \<Rightarrow> nat \<Rightarrow> usize" where
  "sibling_addr path_addr i = path_addr + 8 + of_nat i * 8"

definition merkle_hash_step :: "u64 \<Rightarrow> nat \<Rightarrow> u64 \<Rightarrow> u64 \<Rightarrow> u64" where
  "merkle_hash_step key i current sibling =
     (if drop_bit i key AND 1 = 0 then merkle_poseidon_round current sibling
      else merkle_poseidon_round sibling current)"

definition merkle_walk :: "u8 list \<Rightarrow> usize \<Rightarrow> u64 \<Rightarrow> u64 \<Rightarrow> nat \<Rightarrow> u64" where
  "merkle_walk mem path_addr key leaf n =
     fold (\<lambda>i current. merkle_hash_step key i current (read_u64 mem (sibling_addr path_addr i)))
       [0..<n] leaf"

definition exec_verify_merkle :: "instruction \<Rightarrow> u64 \<Rightarrow> u64 \<Rightarrow> vm \<Rightarrow> exec_result" where
  "exec_verify_merkle inst src1_val src2_val vm =
     (let root = src1_val; leaf = src2_val;
          path_addr = scast (imm inst);
          cur_pc = pc vm;
          (result, m_addr, m_val) =
            (if path_in_memory path_addr (8 * 65) (length (memory vm)) then
               (let key = read_u64 (memory vm) path_addr;
                    current = merkle_walk (memory vm) path_addr key leaf 64
                in (if current = root then 1 else 0, Some path_addr, Some key))
             else (0, None, None));
          vm = set_register (rd inst) result vm;
          vm = vm\<lparr>pc := pc vm + 1\<rparr>
      in (Inr \<lparr>dst_val = result, next_pc = cur_pc + 1, memory_addr = m_addr, memory_val = m_val,
               is_memory_write = False\<rparr>, vm))"

text \<open>The privacy instructions write the destination only when it is not \<open>r0\<close>.\<close>

definition finish_nonzero :: "instruction \<Rightarrow> u64 \<Rightarrow> vm \<Rightarrow> exec_result" where
  "finish_nonzero inst result vm =
     (let cur_pc = pc vm;
          vm = (if rd inst > 0 then set_register (rd inst) result vm else vm);
          vm = vm\<lparr>pc := pc vm + 1\<rparr>
      in (Inr (plain_effect result (cur_pc + 1)), vm))"

definition exec_verify_inference :: "instruction \<Rightarrow> vm \<Rightarrow> exec_result" where
  "exec_verify_inference inst vm = finish_nonzero inst 0 vm"

definition privacy_recipient :: "i32 \<Rightarrow> u64" where
  "privacy_recipient im =
     (if sint im < 0 then GOLDILOCKS_P - ucast (- im) else scast im)"

definition exec_privacy_commit :: "instruction \<Rightarrow> u64 \<Rightarrow> u64 \<Rightarrow> vm \<Rightarrow> exec_result" where
  "exec_privacy_commit inst src1_val src2_val vm =
     (let amount = src1_val; blinding = src2_val;
          recipient = privacy_recipient (imm inst);
          result = poseidon4_hash3 amount blinding recipient
      in finish_nonzero inst result vm)"

definition exec_nullifier_check :: "instruction \<Rightarrow> u64 \<Rightarrow> u64 \<Rightarrow> vm \<Rightarrow> exec_result" where
  "exec_nullifier_check inst src1_val src2_val vm =
     (let claimed = src1_val; secret = src2_val;
          derived = poseidon4_hash secret DOMAIN_NULLIFIER
      in finish_nonzero inst (if derived = claimed then 1 else 0) vm)"

definition exec_sum_conservation :: "instruction \<Rightarrow> u64 \<Rightarrow> u64 \<Rightarrow> vm \<Rightarrow> exec_result" where
  "exec_sum_conservation inst src1_val src2_val vm =
     (let sum_in = src1_val; sum_out = src2_val
      in finish_nonzero inst
           (if sum_in < 0xFFFFFFFF00000001 \<and> sum_out < 0xFFFFFFFF00000001 \<and> sum_in = sum_out
            then 1 else 0) vm)"

section \<open>Dispatch and the trace\<close>

definition execute :: "instruction \<Rightarrow> u64 \<Rightarrow> u64 \<Rightarrow> vm \<Rightarrow> exec_result" where
  "execute inst src1_val src2_val vm =
     (case opcode inst of
        Op_Halt \<Rightarrow> (Inr (plain_effect 0 (pc vm)), vm\<lparr>halted := True\<rparr>)
      | Op_Load \<Rightarrow> exec_load inst src1_val vm
      | Op_Store \<Rightarrow> exec_store inst src1_val src2_val vm
      | Op_Jmp \<Rightarrow> exec_jmp inst vm
      | Op_Jnz \<Rightarrow> exec_jnz inst src1_val vm
      | Op_Call \<Rightarrow> exec_call inst vm
      | Op_Ret \<Rightarrow> exec_ret vm
      | Op_Push \<Rightarrow> exec_push src1_val vm
      | Op_Pop \<Rightarrow> exec_pop inst vm
      | Op_Assert \<Rightarrow> exec_assert src1_val vm
      | Op_SRead \<Rightarrow> exec_sread inst src2_val vm
      | Op_SWrite \<Rightarrow> exec_swrite inst src1_val src2_val vm
      | Op_Poseidon \<Rightarrow> finish_with inst (poseidon4_hash src1_val src2_val) vm
      | Op_Log \<Rightarrow> exec_log src1_val vm
      | Op_Syscall \<Rightarrow> exec_syscall inst src1_val vm
      | Op_VerifyMerkle \<Rightarrow> exec_verify_merkle inst src1_val src2_val vm
      | Op_VerifyInference \<Rightarrow> exec_verify_inference inst vm
      | Op_PrivacyCommit \<Rightarrow> exec_privacy_commit inst src1_val src2_val vm
      | Op_NullifierCheck \<Rightarrow> exec_nullifier_check inst src1_val src2_val vm
      | Op_SumConservation \<Rightarrow> exec_sum_conservation inst src1_val src2_val vm
      | op \<Rightarrow>
          (case arith_result op src1_val src2_val of
             Some result \<Rightarrow> finish_with inst result vm
           | None \<Rightarrow> finish_with inst (the (compare_result op src1_val src2_val)) vm))"

definition step_row :: "instruction \<Rightarrow> usize \<Rightarrow> u64 \<Rightarrow> u64 \<Rightarrow> exec_effect \<Rightarrow> vm \<Rightarrow> trace_row" where
  "step_row inst cur_pc src1_val src2_val eff vm =
     \<lparr>row_pc = cur_pc, row_next_pc = next_pc eff, row_instruction = inst,
      row_src1_idx = rs1 inst, row_src2_idx = rs2 inst, row_dst_idx = rd inst,
      row_src1_val = src1_val, row_src2_val = src2_val, row_dst_val = dst_val eff,
      row_registers = registers vm, row_memory_addr = memory_addr eff,
      row_memory_val = memory_val eff, row_is_memory_write = is_memory_write eff,
      row_stack_pointer = of_nat (length (stack vm)),
      merkle_key = None, merkle_current = None, merkle_sibling = None, merkle_round = None,
      merkle_is_expand = False,
      inference_model_commitment = None, inference_input_commitment = None,
      inference_output_commitment = None, inference_proof_round = None,
      inference_is_expand = False\<rparr>"

text \<open>\<open>Vec::last_mut\<close> followed by an assignment through it.\<close>

definition patch_last :: "('a \<Rightarrow> 'a) \<Rightarrow> 'a list \<Rightarrow> 'a list" where
  "patch_last f xs = (if xs = [] then [] else butlast xs @ [f (last xs)])"

definition merkle_expansion_row ::
    "instruction \<Rightarrow> usize \<Rightarrow> u64 \<Rightarrow> nat \<Rightarrow> u64 \<Rightarrow> usize \<Rightarrow> u64 \<Rightarrow> vm \<Rightarrow> trace_row" where
  "merkle_expansion_row inst cur_pc key i input sib_addr sibling vm =
     \<lparr>row_pc = cur_pc, row_next_pc = (if i = 63 then cur_pc + 1 else cur_pc),
      row_instruction =
        \<lparr>opcode = Op_VerifyMerkle, rd = 0, rs1 = 0, rs2 = 0, imm = imm inst\<rparr>,
      row_src1_idx = 0, row_src2_idx = 0, row_dst_idx = 0,
      row_src1_val = 0, row_src2_val = 0, row_dst_val = 0,
      row_registers = registers vm, row_memory_addr = Some sib_addr,
      row_memory_val = Some sibling, row_is_memory_write = False,
      row_stack_pointer = of_nat (length (stack vm)),
      merkle_key = Some key, merkle_current = Some input, merkle_sibling = Some sibling,
      merkle_round = Some (of_nat i), merkle_is_expand = True,
      inference_model_commitment = None, inference_input_commitment = None,
      inference_output_commitment = None, inference_proof_round = None,
      inference_is_expand = False\<rparr>"

text \<open>The loop over the 64 rounds, on the accumulator and the trace.\<close>

definition merkle_expand_round ::
    "instruction \<Rightarrow> usize \<Rightarrow> u64 \<Rightarrow> nat \<Rightarrow> u64 \<times> vm \<Rightarrow> u64 \<times> vm" where
  "merkle_expand_round inst cur_pc key i cv =
     (let (current, vm) = cv;
          sib_addr = sibling_addr (scast (imm inst)) i;
          sibling = read_u64 (memory vm) sib_addr;
          input = current;
          current = merkle_hash_step key i input sibling
      in (current,
          vm\<lparr>trace := trace vm @ [merkle_expansion_row inst cur_pc key i input sib_addr sibling vm]\<rparr>))"

definition push_merkle_expansion :: "instruction \<Rightarrow> usize \<Rightarrow> u64 \<Rightarrow> vm \<Rightarrow> vm" where
  "push_merkle_expansion inst cur_pc src2_val vm =
     (if opcode inst \<in> {Op_VerifyMerkle, Op_VerifyInference} \<and>
         path_in_memory (scast (imm inst)) (8 * 65) (length (memory vm)) then
        (let key = read_u64 (memory vm) (scast (imm inst));
             vm = vm\<lparr>trace := patch_last (\<lambda>last. last\<lparr>merkle_key := Some key\<rparr>) (trace vm)\<rparr>;
             vm = vm\<lparr>trace := patch_last (\<lambda>last. last\<lparr>row_next_pc := cur_pc\<rparr>) (trace vm)\<rparr>;
             (current, vm) = fold (merkle_expand_round inst cur_pc key) [0..<64] (src2_val, vm);
             orig_idx = length (trace vm) - 1 - 64
         in if orig_idx < length (trace vm)
            then vm\<lparr>trace := (trace vm)[orig_idx :=
                     (trace vm ! orig_idx)\<lparr>merkle_current := Some current\<rparr>]\<rparr>
            else vm)
      else vm)"

definition inference_expansion_row ::
    "instruction \<Rightarrow> usize \<Rightarrow> u64 \<Rightarrow> u64 \<Rightarrow> u64 \<Rightarrow> u64 \<Rightarrow> u64 \<Rightarrow> vm \<Rightarrow> nat \<Rightarrow> trace_row" where
  "inference_expansion_row inst cur_pc src1_val src2_val model_c input_c output_c vm round =
     \<lparr>row_pc = cur_pc, row_next_pc = (if round = 7 then cur_pc + 1 else cur_pc),
      row_instruction =
        \<lparr>opcode = Op_VerifyInference, rd = 0, rs1 = rs1 inst, rs2 = rs2 inst, imm = of_nat round\<rparr>,
      row_src1_idx = rs1 inst, row_src2_idx = rs2 inst, row_dst_idx = 0,
      row_src1_val = src1_val, row_src2_val = src2_val, row_dst_val = 0,
      row_registers = registers vm, row_memory_addr = None,
      row_memory_val = None, row_is_memory_write = False,
      row_stack_pointer = of_nat (length (stack vm)),
      merkle_key = None, merkle_current = None, merkle_sibling = None, merkle_round = None,
      merkle_is_expand = False,
      inference_model_commitment = Some model_c, inference_input_commitment = Some input_c,
      inference_output_commitment = Some output_c, inference_proof_round = Some (of_nat round),
      inference_is_expand = True\<rparr>"

definition push_inference_expansion :: "instruction \<Rightarrow> usize \<Rightarrow> u64 \<Rightarrow> u64 \<Rightarrow> vm \<Rightarrow> vm" where
  "push_inference_expansion inst cur_pc src1_val src2_val vm =
     (if opcode inst = Op_VerifyInference \<and> path_in_memory src1_val (8 * 4) (length (memory vm)) then
        (let proof_addr = src1_val;
             model_c = read_u64 (memory vm) proof_addr;
             input_c = read_u64 (memory vm) (proof_addr + 8);
             output_c = read_u64 (memory vm) (proof_addr + 16);
             vm = vm\<lparr>trace := patch_last (\<lambda>last. last\<lparr>inference_model_commitment := Some model_c,
                       inference_input_commitment := Some input_c,
                       inference_output_commitment := Some output_c,
                       row_next_pc := cur_pc\<rparr>) (trace vm)\<rparr>
         in fold (\<lambda>round vm. vm\<lparr>trace := trace vm @
                [inference_expansion_row inst cur_pc src1_val src2_val model_c input_c output_c vm round]\<rparr>)
              [0..<8] vm)
      else vm)"

section \<open>Step and run\<close>

definition step :: "vm \<Rightarrow> u64 list \<Rightarrow> (vm_error + unit) \<times> vm" where
  "step vm program =
     (let vm = set_register 0 0 vm
      in if halted vm then (Inr (), vm)
         else if unat (pc vm) \<ge> length program then vm_fail InvalidPc vm
         else (case decode_instruction (program ! unat (pc vm)) (mainnet_mode vm) of
                 Inl e \<Rightarrow> vm_fail (InvalidOpcode e) vm
               | Inr inst \<Rightarrow>
                   (let cur_pc = pc vm
                    in case consume_gas vm (gas_cost (opcode inst)) of
                         (Inl e, vm) \<Rightarrow> (Inl e, vm)
                       | (Inr _, vm) \<Rightarrow>
                           (let src1_val = registers vm ! unat (rs1 inst);
                                src2_val = registers vm ! unat (rs2 inst)
                            in case execute inst src1_val src2_val vm of
                                 (Inl e, vm) \<Rightarrow> (Inl e, vm)
                               | (Inr eff, vm) \<Rightarrow>
                                   (let vm = set_register 0 0 vm;
                                        vm = vm\<lparr>trace := trace vm @
                                               [step_row inst cur_pc src1_val src2_val eff vm]\<rparr>;
                                        vm = push_merkle_expansion inst cur_pc src2_val vm;
                                        vm = push_inference_expansion inst cur_pc src1_val src2_val vm
                                    in (Inr (), vm))))))"

text \<open>The \<open>while !self.halted\<close> loop; not returning is \<^const>\<open>None\<close>.\<close>

partial_function (option) run_loop :: "u64 list \<Rightarrow> vm \<Rightarrow> (vm_error option \<times> vm) option" where
  "run_loop program vm =
     (if halted vm then Some (None, vm)
      else (case step vm program of
              (Inl e, vm') \<Rightarrow> Some (Some e, vm')
            | (Inr _, vm') \<Rightarrow> run_loop program vm'))"

declare run_loop.simps [code]

definition halt_row :: "vm \<Rightarrow> trace_row" where
  "halt_row vm =
     step_row \<lparr>opcode = Op_Halt, rd = 0, rs1 = 0, rs2 = 0, imm = 0\<rparr> (pc vm) 0 0
       (plain_effect 0 (pc vm)) vm"

definition terminate_trace :: "vm_error option \<Rightarrow> vm \<Rightarrow> vm" where
  "terminate_trace err vm =
     (if err \<noteq> None then
        (let last_is_halt = (trace vm \<noteq> [] \<and> opcode (row_instruction (last (trace vm))) = Op_Halt)
         in if \<not> last_is_halt then vm\<lparr>trace := trace vm @ [halt_row vm]\<rparr> else vm)
      else vm)"

text \<open>The Poseidon state chain over the storage writes, in execution order, and its first four
  lanes as 32 bytes.\<close>

definition absorb_write :: "i32 \<times> u64 \<Rightarrow> u64 list \<Rightarrow> u64 list" where
  "absorb_write w acc =
     (let (slot, val) = w
      in poseidon_full_state [scast slot, val, acc ! 0, acc ! 1, acc ! 2, acc ! 3, 0, 0])"

definition writes_digest :: "(i32 \<times> u64) list \<Rightarrow> u8 list" where
  "writes_digest ws =
     (let acc = fold absorb_write ws (replicate 8 0)
      in concat (map (\<lambda>k. to_le_bytes (acc ! k)) [0..<4]))"

definition run_receipt :: "vm \<Rightarrow> u64 list \<Rightarrow> (execution_receipt \<times> vm) option" where
  "run_receipt vm program =
     (case run_loop program vm of
        None \<Rightarrow> None
      | Some (err, vm) \<Rightarrow>
          (let vm = terminate_trace err vm
           in Some (\<lparr>success = (err = None), receipt_error = err, receipt_gas_used = gas_used vm,
                     exit_code = (if err = None then 0 else 1), receipt_events = events vm,
                     final_pc = pc vm, trace_len = of_nat (length (trace vm)),
                     state_writes_digest = writes_digest (state_writes vm)\<rparr>, vm)))"

definition run :: "vm \<Rightarrow> u64 list \<Rightarrow> ((vm_error + execution_receipt) \<times> vm) option" where
  "run vm program =
     (case run_receipt vm program of
        None \<Rightarrow> None
      | Some (receipt, vm) \<Rightarrow>
          Some (case receipt_error receipt of Some e \<Rightarrow> Inl e | None \<Rightarrow> Inr receipt, vm))"

end
