(* ===== verification/Vm_Step.thy ===== *)
theory Vm_Step
  imports Vm
begin

text \<open>
  What one step of the virtual machine does: the frame of every instruction, the exact effect of
  every error path, the rows a step appends to the trace in closed form, and inversion rules for
  the step function over which the run-level proofs are carried out.
\<close>

section \<open>Memory addresses\<close>

lemma uint_word_of_int_small: "0 \<le> x \<Longrightarrow> x < 2 ^ 64 \<Longrightarrow> uint (word_of_int x :: usize) = x"
  by (simp add: uint_word_of_int_eq take_bit_int_eq_self)

lemma memory_word_addr_Some [result_simps]:
  "memory_word_addr base im n = Some addr \<longleftrightarrow>
     uint addr = uint base + sint im \<and> unat addr + 8 < 2 ^ 64 \<and> unat addr + 8 \<le> n"
proof -
  let ?a = "uint base + sint im"
  have small: "uint addr < 2 ^ 64" "0 \<le> uint addr" using uint_lt2p [of addr] by simp_all
  have "memory_word_addr base im n = Some addr \<longleftrightarrow>
      0 \<le> ?a \<and> ?a < 2 ^ 64 \<and> addr = word_of_int ?a \<and> unat addr + 8 < 2 ^ 64 \<and> unat (addr + 8) \<le> n"
    by (auto simp: memory_word_addr_def Let_def checked_add_def split: if_splits)
  also have "\<dots> \<longleftrightarrow> uint addr = ?a \<and> unat addr + 8 < 2 ^ 64 \<and> unat (addr + 8) \<le> n"
  proof -
    have "0 \<le> ?a \<Longrightarrow> ?a < 2 ^ 64 \<Longrightarrow> uint (word_of_int ?a :: usize) = ?a"
      by (rule uint_word_of_int_small)
    moreover have "uint addr = ?a \<Longrightarrow> addr = word_of_int ?a" by (metis word_of_int_uint)
    ultimately show ?thesis using small by metis
  qed
  also have "\<dots> \<longleftrightarrow> uint addr = ?a \<and> unat addr + 8 < 2 ^ 64 \<and> unat addr + 8 \<le> n"
    by (auto simp: unat_add_small)
  finally show ?thesis .
qed

lemma memory_word_addr_bound: "memory_word_addr base im n = Some addr \<Longrightarrow> unat addr + 8 \<le> n"
  by (simp add: memory_word_addr_Some)

lemma path_in_memory_iff [result_simps]:
  "path_in_memory addr len n \<longleftrightarrow> unat addr + unat len < 2 ^ 64 \<and> unat addr + unat len \<le> n"
  by (auto simp: path_in_memory_def checked_add_def unat_add_small)

lemma read_after_write:
  "unat addr + 8 \<le> length mem \<Longrightarrow>
   read_u64 (copy_from_slice (unat addr) (to_le_bytes v) mem) addr = v"
  using slice_copy_same [of "unat addr" "to_le_bytes v" mem] by (simp add: read_u64_def)

section \<open>The frame of the instructions\<close>

lemmas exec_defs = finish_with_def finish_plain_def finish_nonzero_def set_register_def vm_fail_def
  plain_effect_def Let_def
  exec_load_def exec_store_def exec_jmp_def exec_jnz_def exec_call_def exec_ret_def exec_push_def
  exec_pop_def exec_assert_def exec_sread_def exec_swrite_def exec_log_def exec_syscall_def
  exec_verify_merkle_def exec_verify_inference_def exec_privacy_commit_def
  exec_nullifier_check_def exec_sum_conservation_def

lemma execute_Inl:
  "execute inst a b vm = (Inl e, vm') \<Longrightarrow> vm' = vm\<lparr>halted := True, error := Some e\<rparr>"
  by (cases "opcode inst")
    (auto simp: execute_def exec_defs split: if_splits option.splits)

lemma execute_frame:
  assumes "execute inst a b vm = (Inr eff, vm')"
  shows "pc vm' = next_pc eff" "gas_used vm' = gas_used vm" "gas_limit vm' = gas_limit vm"
    "error vm' = error vm" "mainnet_mode vm' = mainnet_mode vm" "trace vm' = trace vm"
    "ctx vm' = ctx vm" "length (registers vm') = length (registers vm)"
    "halted vm' \<longleftrightarrow> halted vm \<or> opcode inst = Op_Halt"
  using assms
  by (cases "opcode inst"; auto simp: execute_def exec_defs split: if_splits option.splits)+

lemma execute_memory_length:
  "execute inst a b vm = (Inr eff, vm') \<Longrightarrow> length (memory vm') = length (memory vm)"
  by (cases "opcode inst")
    (auto simp: execute_def exec_defs memory_word_addr_Some split: if_splits option.splits)

lemma execute_stack_bound:
  "execute inst a b vm = (Inr eff, vm') \<Longrightarrow> length (stack vm) \<le> 1024 \<Longrightarrow> length (stack vm') \<le> 1024"
  by (cases "opcode inst")
    (auto simp: execute_def exec_defs vec_pop_def split: if_splits option.splits)

text \<open>Only \<open>Store\<close> changes memory and only \<open>SWrite\<close> changes storage and the write log.\<close>

lemma execute_memory_same:
  "execute inst a b vm = (Inr eff, vm') \<Longrightarrow> opcode inst \<noteq> Op_Store \<Longrightarrow> memory vm' = memory vm"
  by (cases "opcode inst")
    (auto simp: execute_def exec_defs split: if_splits option.splits)

lemma execute_storage_same:
  "execute inst a b vm = (Inr eff, vm') \<Longrightarrow> opcode inst \<noteq> Op_SWrite \<Longrightarrow>
   storage vm' = storage vm \<and> state_writes vm' = state_writes vm"
  by (cases "opcode inst")
    (auto simp: execute_def exec_defs split: if_splits option.splits)

lemma execute_registers_other:
  "execute inst a b vm = (Inr eff, vm') \<Longrightarrow> i \<noteq> unat (rd inst) \<Longrightarrow> registers vm' ! i = registers vm ! i"
  by (cases "opcode inst")
    (auto simp: execute_def exec_defs split: if_splits option.splits)

text \<open>The memory columns of a row describe an access inside the memory.\<close>

lemma execute_memory_columns:
  assumes "execute inst a b vm = (Inr eff, vm')" and "memory_addr eff = Some addr"
  shows "unat addr + 8 \<le> length (memory vm)" "memory_val eff = Some (read_u64 (memory vm') addr)"
    "is_memory_write eff \<longleftrightarrow> opcode inst = Op_Store"
  using assms
  by (cases "opcode inst";
      auto simp: execute_def exec_defs memory_word_addr_Some path_in_memory_iff read_after_write
        split: if_splits option.splits)+

section \<open>The rows a step appends\<close>

lemma patch_last_snoc [simp]: "patch_last f (xs @ [x]) = xs @ [f x]"
  by (simp add: patch_last_def)

lemma merkle_expansion_row_cong [simp]:
  "merkle_expansion_row inst c k i x sa s (vm\<lparr>trace := t\<rparr>) = merkle_expansion_row inst c k i x sa s vm"
  by (simp add: merkle_expansion_row_def)

lemma inference_expansion_row_cong [simp]:
  "inference_expansion_row inst c a b m i out (vm\<lparr>trace := t\<rparr>) r =
   inference_expansion_row inst c a b m i out vm r"
  by (simp add: inference_expansion_row_def)

lemma step_row_cong [simp]: "step_row inst c a b eff (vm\<lparr>trace := t\<rparr>) = step_row inst c a b eff vm"
  by (simp add: step_row_def)

text \<open>The rows of the 64 rounds in closed form: round \<open>i\<close> carries the accumulator before it.\<close>

definition merkle_rows :: "instruction \<Rightarrow> usize \<Rightarrow> u64 \<Rightarrow> vm \<Rightarrow> nat \<Rightarrow> trace_row list" where
  "merkle_rows inst cur_pc leaf vm n =
     (let addr = scast (imm inst); key = read_u64 (memory vm) addr
      in map (\<lambda>i. merkle_expansion_row inst cur_pc key i (merkle_walk (memory vm) addr key leaf i)
                    (sibling_addr addr i) (read_u64 (memory vm) (sibling_addr addr i)) vm) [0..<n])"

lemma merkle_walk_Suc:
  "merkle_walk mem addr key leaf (Suc n) =
   merkle_hash_step key n (merkle_walk mem addr key leaf n) (read_u64 mem (sibling_addr addr n))"
  by (simp add: merkle_walk_def)

lemma merkle_walk_0 [simp]: "merkle_walk mem addr key leaf 0 = leaf"
  by (simp add: merkle_walk_def)

lemma fold_merkle_expand:
  assumes "key = read_u64 (memory vm) (scast (imm inst))"
  shows "fold (merkle_expand_round inst cur_pc key) [0..<n] (leaf, vm) =
    (merkle_walk (memory vm) (scast (imm inst)) key leaf n,
     vm\<lparr>trace := trace vm @ merkle_rows inst cur_pc leaf vm n\<rparr>)"
  by (induction n)
    (simp_all add: assms merkle_rows_def merkle_expand_round_def merkle_walk_Suc Let_def)

definition merkle_fires :: "instruction \<Rightarrow> vm \<Rightarrow> bool" where
  "merkle_fires inst vm \<longleftrightarrow> opcode inst \<in> {Op_VerifyMerkle, Op_VerifyInference} \<and>
     path_in_memory (scast (imm inst)) (8 * 65) (length (memory vm))"

lemma length_merkle_rows [simp]: "length (merkle_rows inst c leaf vm n) = n"
  by (simp add: merkle_rows_def Let_def)

lemma push_merkle_expansion_snoc:
  assumes "trace vm = tr @ [r]"
  shows "push_merkle_expansion inst cur_pc leaf vm =
    (if merkle_fires inst vm then
       vm\<lparr>trace := tr @ [r\<lparr>merkle_key := Some (read_u64 (memory vm) (scast (imm inst))),
                          row_next_pc := cur_pc,
                          merkle_current := Some (merkle_walk (memory vm) (scast (imm inst))
                            (read_u64 (memory vm) (scast (imm inst))) leaf 64)\<rparr>]
                    @ merkle_rows inst cur_pc leaf vm 64\<rparr>
     else vm)"
proof -
  let ?key = "read_u64 (memory vm) (scast (imm inst))"
  let ?vm = "vm\<lparr>trace := tr @ [r\<lparr>merkle_key := Some ?key, row_next_pc := cur_pc\<rparr>]\<rparr>"
  have rows: "merkle_rows inst cur_pc leaf ?vm 64 = merkle_rows inst cur_pc leaf vm 64"
    by (simp add: merkle_rows_def Let_def)
  show ?thesis
  proof (cases "merkle_fires inst vm")
    case True
    then have "push_merkle_expansion inst cur_pc leaf vm =
        (let (current, vm) = fold (merkle_expand_round inst cur_pc ?key) [0..<64] (leaf, ?vm);
             orig_idx = length (trace vm) - 1 - 64
         in if orig_idx < length (trace vm)
            then vm\<lparr>trace := (trace vm)[orig_idx :=
                     (trace vm ! orig_idx)\<lparr>merkle_current := Some current\<rparr>]\<rparr>
            else vm)"
      by (simp add: push_merkle_expansion_def merkle_fires_def Let_def assms del: upt_Suc)
    also have "\<dots> = vm\<lparr>trace := tr @ [r\<lparr>merkle_key := Some ?key, row_next_pc := cur_pc,
        merkle_current := Some (merkle_walk (memory vm) (scast (imm inst)) ?key leaf 64)\<rparr>]
          @ merkle_rows inst cur_pc leaf vm 64\<rparr>"
      by (subst fold_merkle_expand) (simp_all add: rows Let_def nth_append list_update_append)
    finally show ?thesis using True by simp
  next
    case False
    then show ?thesis by (auto simp: push_merkle_expansion_def merkle_fires_def)
  qed
qed

definition inference_fires :: "instruction \<Rightarrow> u64 \<Rightarrow> vm \<Rightarrow> bool" where
  "inference_fires inst a vm \<longleftrightarrow>
     opcode inst = Op_VerifyInference \<and> path_in_memory a (8 * 4) (length (memory vm))"

definition inference_rows :: "instruction \<Rightarrow> usize \<Rightarrow> u64 \<Rightarrow> u64 \<Rightarrow> vm \<Rightarrow> nat \<Rightarrow> trace_row list" where
  "inference_rows inst cur_pc a b vm n =
     map (inference_expansion_row inst cur_pc a b (read_u64 (memory vm) a)
       (read_u64 (memory vm) (a + 8)) (read_u64 (memory vm) (a + 16)) vm) [0..<n]"

lemma length_inference_rows [simp]: "length (inference_rows inst c a b vm n) = n"
  by (simp add: inference_rows_def)

lemma fold_push_rows:
  assumes "\<And>t r. row (vm\<lparr>trace := t\<rparr>) r = row vm r"
  shows "fold (\<lambda>round vm. vm\<lparr>trace := trace vm @ [row vm round]\<rparr>) [0..<n] vm
    = vm\<lparr>trace := trace vm @ map (row vm) [0..<n]\<rparr>"
  by (induction n) (simp_all add: assms)

lemma push_inference_expansion_snoc:
  assumes "trace vm = tr @ [r]"
  shows "push_inference_expansion inst cur_pc a b vm =
    (if inference_fires inst a vm then
       vm\<lparr>trace := tr @ [r\<lparr>inference_model_commitment := Some (read_u64 (memory vm) a),
                          inference_input_commitment := Some (read_u64 (memory vm) (a + 8)),
                          inference_output_commitment := Some (read_u64 (memory vm) (a + 16)),
                          row_next_pc := cur_pc\<rparr>]
                    @ inference_rows inst cur_pc a b vm 8\<rparr>
     else vm)"
  by (auto simp: push_inference_expansion_def inference_fires_def inference_rows_def Let_def assms
      fold_push_rows simp del: upt_Suc)

section \<open>Inversion of the step function\<close>

text \<open>The state in which an instruction executes: \<open>r0\<close> cleared and the gas charged; and what is
  recorded after it.\<close>

definition charged :: "vm \<Rightarrow> instruction \<Rightarrow> vm" where
  "charged vm inst =
     (set_register 0 0 vm)\<lparr>gas_used := saturating_add (gas_used vm) (gas_cost (opcode inst))\<rparr>"

definition record_step :: "instruction \<Rightarrow> usize \<Rightarrow> u64 \<Rightarrow> u64 \<Rightarrow> exec_effect \<Rightarrow> vm \<Rightarrow> vm" where
  "record_step inst cur_pc a b eff vm =
     (let vm = set_register 0 0 vm;
          vm = vm\<lparr>trace := trace vm @ [step_row inst cur_pc a b eff vm]\<rparr>;
          vm = push_merkle_expansion inst cur_pc b vm
      in push_inference_expansion inst cur_pc a b vm)"

abbreviation operand1 :: "vm \<Rightarrow> instruction \<Rightarrow> u64" where
  "operand1 vm inst \<equiv> (registers vm)[0 := 0] ! unat (rs1 inst)"

abbreviation operand2 :: "vm \<Rightarrow> instruction \<Rightarrow> u64" where
  "operand2 vm inst \<equiv> (registers vm)[0 := 0] ! unat (rs2 inst)"

lemma charged_simps [simp]:
  "registers (charged vm inst) = (registers vm)[0 := 0]" "pc (charged vm inst) = pc vm"
  "stack (charged vm inst) = stack vm" "memory (charged vm inst) = memory vm"
  "storage (charged vm inst) = storage vm" "events (charged vm inst) = events vm"
  "ctx (charged vm inst) = ctx vm" "trace (charged vm inst) = trace vm"
  "halted (charged vm inst) = halted vm" "gas_limit (charged vm inst) = gas_limit vm"
  "gas_used (charged vm inst) = saturating_add (gas_used vm) (gas_cost (opcode inst))"
  "error (charged vm inst) = error vm" "state_writes (charged vm inst) = state_writes vm"
  "mainnet_mode (charged vm inst) = mainnet_mode vm"
  by (simp_all add: charged_def set_register_def)

text \<open>One step of a running machine, with the bookkeeping folded away.\<close>

lemma step_running:
  assumes "\<not> halted vm"
  shows "step vm program =
    (if unat (pc vm) \<ge> length program then vm_fail InvalidPc (set_register 0 0 vm)
     else (case decode_instruction (program ! unat (pc vm)) (mainnet_mode vm) of
             Inl e \<Rightarrow> vm_fail (InvalidOpcode e) (set_register 0 0 vm)
           | Inr inst \<Rightarrow>
               if gas_used (charged vm inst) > gas_limit vm then vm_fail OutOfGas (charged vm inst)
               else (case execute inst (operand1 vm inst) (operand2 vm inst) (charged vm inst) of
                       (Inl e, vm1) \<Rightarrow> (Inl e, vm1)
                     | (Inr eff, vm1) \<Rightarrow>
                         (Inr (), record_step inst (pc vm) (operand1 vm inst) (operand2 vm inst) eff vm1))))"
proof -
  let ?vm = "set_register 0 0 vm"
  have frame: "halted ?vm = halted vm" "pc ?vm = pc vm" "mainnet_mode ?vm = mainnet_mode vm"
    by (simp_all add: set_register_def)
  have gas: "consume_gas ?vm (gas_cost (opcode inst)) =
      (if gas_used (charged vm inst) > gas_limit vm then vm_fail OutOfGas (charged vm inst)
       else (Inr (), charged vm inst))" for inst
    by (simp add: consume_gas_def charged_def Let_def set_register_def)
  show ?thesis
  proof (cases "decode_instruction (program ! unat (pc vm)) (mainnet_mode vm)")
    case (Inl e)
    then show ?thesis using assms unfolding step_def Let_def frame by simp
  next
    case (Inr inst)
    obtain res vm1
      where ex: "execute inst (operand1 vm inst) (operand2 vm inst) (charged vm inst) = (res, vm1)"
      by fastforce
    show ?thesis
      unfolding step_def Let_def frame gas record_step_def Inr
      by (cases "gas_used (charged vm inst) > gas_limit vm"; cases res)
        (simp_all add: assms vm_fail_def ex)
  qed
qed

lemma step_halted [simp]: "halted vm \<Longrightarrow> step vm program = (Inr (), set_register 0 0 vm)"
  by (simp add: step_def set_register_def)

lemma step_InrE:
  assumes "step vm program = (Inr u, vm')" "\<not> halted vm"
  obtains inst eff vm1 where "unat (pc vm) < length program"
    and "decode_instruction (program ! unat (pc vm)) (mainnet_mode vm) = Inr inst"
    and "saturating_add (gas_used vm) (gas_cost (opcode inst)) \<le> gas_limit vm"
    and "execute inst (operand1 vm inst) (operand2 vm inst) (charged vm inst) = (Inr eff, vm1)"
    and "vm' = record_step inst (pc vm) (operand1 vm inst) (operand2 vm inst) eff vm1"
proof (cases "unat (pc vm) < length program")
  case True
  show ?thesis
  proof (cases "decode_instruction (program ! unat (pc vm)) (mainnet_mode vm)")
    case (Inr inst)
    with True assms that [of inst] show ?thesis
      by (cases "execute inst (operand1 vm inst) (operand2 vm inst) (charged vm inst)")
        (auto simp: step_running vm_fail_def not_less split: if_splits sum.splits)
  qed (use True assms in \<open>simp add: step_running vm_fail_def\<close>)
qed (use assms in \<open>simp add: step_running vm_fail_def\<close>)

lemma step_InlE:
  assumes "step vm program = (Inl e, vm')"
  obtains "\<not> halted vm" and "vm' = (set_register 0 0 vm)\<lparr>halted := True, error := Some e\<rparr>"
      "e = InvalidPc \<and> length program \<le> unat (pc vm) \<or>
       (\<exists>d. e = InvalidOpcode d \<and> decode_instruction (program ! unat (pc vm)) (mainnet_mode vm) = Inl d)"
  | inst where "\<not> halted vm" and "vm' = (charged vm inst)\<lparr>halted := True, error := Some e\<rparr>"
      "unat (pc vm) < length program"
      "decode_instruction (program ! unat (pc vm)) (mainnet_mode vm) = Inr inst"
      "e = OutOfGas \<and> saturating_add (gas_used vm) (gas_cost (opcode inst)) > gas_limit vm \<or>
       saturating_add (gas_used vm) (gas_cost (opcode inst)) \<le> gas_limit vm \<and>
       execute inst (operand1 vm inst) (operand2 vm inst) (charged vm inst) = (Inl e, vm')"
proof (cases "halted vm")
  case True
  then show ?thesis using assms by simp
next
  case False
  show ?thesis
  proof (cases "unat (pc vm) < length program")
    case inside: True
    show ?thesis
    proof (cases "decode_instruction (program ! unat (pc vm)) (mainnet_mode vm)")
      case (Inl d)
      then show ?thesis using assms False inside that(1) by (auto simp: step_running vm_fail_def)
    next
      case (Inr inst)
      show ?thesis
      proof (cases "gas_used (charged vm inst) > gas_limit vm")
        case True
        then show ?thesis using assms False inside Inr that(2) [of inst]
          by (auto simp: step_running vm_fail_def)
      next
        case gas: False
        then have ex: "execute inst (operand1 vm inst) (operand2 vm inst) (charged vm inst) = (Inl e, vm')"
          using assms False inside Inr by (auto simp: step_running split: sum.splits prod.splits)
        then show ?thesis
          using that(2) [OF False execute_Inl [OF ex] inside Inr] gas by (simp add: not_less)
      qed
    qed
  next
    case outside: False
    then show ?thesis using assms False that(1) by (auto simp: step_running vm_fail_def not_less)
  qed
qed

section \<open>Recording a step\<close>

text \<open>The rows one executed instruction leaves in the trace: its own row, patched and followed by 64
  rows when it has a Merkle path, then eight rows when it is an inference check with a proof.\<close>

definition merkle_block :: "instruction \<Rightarrow> usize \<Rightarrow> u64 \<Rightarrow> trace_row \<Rightarrow> vm \<Rightarrow> trace_row list" where
  "merkle_block inst cur_pc leaf r vm =
     (if merkle_fires inst vm then
        r\<lparr>merkle_key := Some (read_u64 (memory vm) (scast (imm inst))), row_next_pc := cur_pc,
          merkle_current := Some (merkle_walk (memory vm) (scast (imm inst))
            (read_u64 (memory vm) (scast (imm inst))) leaf 64)\<rparr>
        # merkle_rows inst cur_pc leaf vm 64
      else [r])"

definition inference_patch :: "usize \<Rightarrow> u64 \<Rightarrow> u8 list \<Rightarrow> trace_row \<Rightarrow> trace_row" where
  "inference_patch cur_pc a mem r =
     r\<lparr>inference_model_commitment := Some (read_u64 mem a),
       inference_input_commitment := Some (read_u64 mem (a + 8)),
       inference_output_commitment := Some (read_u64 mem (a + 16)),
       row_next_pc := cur_pc\<rparr>"

definition step_rows ::
    "instruction \<Rightarrow> usize \<Rightarrow> u64 \<Rightarrow> u64 \<Rightarrow> exec_effect \<Rightarrow> vm \<Rightarrow> trace_row list" where
  "step_rows inst cur_pc a b eff vm =
     (let m = merkle_block inst cur_pc b (step_row inst cur_pc a b eff vm) vm
      in if inference_fires inst a vm
         then patch_last (inference_patch cur_pc a (memory vm)) m @ inference_rows inst cur_pc a b vm 8
         else m)"

lemma merkle_block_not_Nil [simp]: "merkle_block inst c leaf r vm \<noteq> []"
  by (simp add: merkle_block_def)

lemma patch_last_append: "ys \<noteq> [] \<Longrightarrow> patch_last f (xs @ ys) = xs @ patch_last f ys"
  by (simp add: patch_last_def butlast_append)

lemma patch_last_eq_Nil [simp]: "patch_last f xs = [] \<longleftrightarrow> xs = []"
  by (simp add: patch_last_def)

lemma push_merkle_expansion_rows:
  "push_merkle_expansion inst c leaf (vm\<lparr>trace := tr @ [r]\<rparr>) =
   vm\<lparr>trace := tr @ merkle_block inst c leaf r vm\<rparr>"
proof -
  have "merkle_fires inst (vm\<lparr>trace := tr @ [r]\<rparr>) = merkle_fires inst vm" for inst
    by (simp add: merkle_fires_def)
  moreover have "merkle_rows inst c leaf (vm\<lparr>trace := tr @ [r]\<rparr>) 64 = merkle_rows inst c leaf vm 64"
    by (simp add: merkle_rows_def)
  ultimately show ?thesis
    by (subst push_merkle_expansion_snoc [of _ tr r]) (simp_all add: merkle_block_def)
qed

lemma push_inference_expansion_rows:
  assumes "rows \<noteq> []"
  shows "push_inference_expansion inst c a b (vm\<lparr>trace := tr @ rows\<rparr>) =
   vm\<lparr>trace := tr @ (if inference_fires inst a vm
       then patch_last (inference_patch c a (memory vm)) rows @ inference_rows inst c a b vm 8
       else rows)\<rparr>"
proof -
  obtain rs r where rows: "rows = rs @ [r]" using assms by (cases rows rule: rev_cases) auto
  have "inference_fires inst a (vm\<lparr>trace := t\<rparr>) = inference_fires inst a vm" for t
    by (simp add: inference_fires_def)
  moreover have "inference_rows inst c a b (vm\<lparr>trace := t\<rparr>) 8 = inference_rows inst c a b vm 8" for t
    by (simp add: inference_rows_def)
  ultimately show ?thesis
    by (subst push_inference_expansion_snoc [of _ "tr @ rs" r]) (simp_all add: rows inference_patch_def)
qed

lemma record_step_eq:
  "record_step inst c a b eff vm =
   (set_register 0 0 vm)\<lparr>trace := trace vm @ step_rows inst c a b eff (set_register 0 0 vm)\<rparr>"
proof -
  have t: "trace (set_register 0 0 vm) = trace vm" by (simp add: set_register_def)
  show ?thesis
    unfolding record_step_def Let_def t push_merkle_expansion_rows
    by (simp add: push_inference_expansion_rows step_rows_def Let_def)
qed

lemma step_rows_not_Nil [simp]: "step_rows inst c a b eff vm \<noteq> []"
  by (simp add: step_rows_def Let_def)

end
