(* ===== verification/Vm_Merkle.thy ===== *)
theory Vm_Merkle
  imports Vm_Step
begin

text \<open>
  Merkle paths.  The walk the machine performs is compared with the usual recursive definition of
  the root of a path, and the single-round compression it uses is shown to be invertible in either
  argument, which decides what the instruction \<open>VerifyMerkle\<close> can promise.
\<close>

section \<open>The root of a path\<close>

text \<open>The root computed from a leaf, the direction bits and the list of siblings, bottom up.\<close>

fun path_root :: "bool list \<Rightarrow> u64 list \<Rightarrow> u64 \<Rightarrow> u64" where
  "path_root (d # ds) (s # ss) node =
     path_root ds ss (if d then merkle_poseidon_round s node else merkle_poseidon_round node s)"
| "path_root _ _ node = node"

lemma path_root_snoc:
  "length ds = length ss \<Longrightarrow>
   path_root (ds @ [d]) (ss @ [s]) node =
     (let n = path_root ds ss node in if d then merkle_poseidon_round s n else merkle_poseidon_round n s)"
  by (induction ds ss arbitrary: node rule: list_induct2) (simp_all add: Let_def)

definition path_siblings :: "u8 list \<Rightarrow> usize \<Rightarrow> nat \<Rightarrow> u64 list" where
  "path_siblings mem addr n = map (\<lambda>i. read_u64 mem (sibling_addr addr i)) [0..<n]"

definition key_bits :: "u64 \<Rightarrow> nat \<Rightarrow> bool list" where
  "key_bits key n = map (bit key) [0..<n]"

lemma merkle_hash_step_bit:
  "merkle_hash_step key i cur s =
   (if bit key i then merkle_poseidon_round s cur else merkle_poseidon_round cur s)"
proof -
  have "drop_bit i key AND 1 = 0 \<longleftrightarrow> \<not> bit key i"
    by (simp add: and_one_eq bit_iff_odd_drop_bit odd_iff_mod_2_eq_one)
  then show ?thesis by (simp add: merkle_hash_step_def)
qed

lemma merkle_walk_path_root:
  "merkle_walk mem addr key leaf n = path_root (key_bits key n) (path_siblings mem addr n) leaf"
  by (induction n)
    (simp_all add: merkle_walk_Suc merkle_hash_step_bit key_bits_def path_siblings_def path_root_snoc Let_def)

section \<open>The compression function is invertible in each argument\<close>

lemma sbox_surj: "canonical y \<Longrightarrow> \<exists>x. canonical x \<and> sbox x = y"
proof -
  have "inj_on sbox {x. canonical x}" by (rule inj_onI) (auto intro: sbox_inj)
  moreover have "sbox ` {x. canonical x} \<subseteq> {x. canonical x}" by (auto simp: canonical_sbox)
  ultimately have "sbox ` {x. canonical x} = {x. canonical x}" by (simp add: endo_inj_surj)
  then show "canonical y \<Longrightarrow> \<exists>x. canonical x \<and> sbox x = y" by (metis (mono_tags) imageE mem_Collect_eq)
qed

lemma merkle_poseidon_round_field:
  "merkle_poseidon_round a b =
     field_add_goldilocks (field_mul_goldilocks 7 (sbox (field_add_goldilocks a 0xdd5743e7f2a5a5d9)))
       (sbox (field_add_goldilocks b 0xcb3a864e58ada44b))"
proof -
  let ?x = "sbox (field_add_goldilocks a 0xdd5743e7f2a5a5d9)"
    and ?y = "sbox (field_add_goldilocks b 0xcb3a864e58ada44b)"
  have def: "merkle_poseidon_round a b = as_u64 ((7 * as_u128 ?x + as_u128 ?y) mod as_u128 GOLDILOCKS_P)"
    by (simp add: merkle_poseidon_round_def field_add_goldilocks_def Let_def)
  have "unat (7 * as_u128 ?x + as_u128 ?y) = 7 * unat ?x + unat ?y"
    using u64_less [of ?x] u64_less [of ?y] by (simp add: unat_add_small unat_mult_small)
  then have "unat (merkle_poseidon_round a b) = (7 * unat ?x + unat ?y) mod gP"
    by (simp add: def)
  also have "\<dots> = unat (field_add_goldilocks (field_mul_goldilocks 7 ?x) ?y)"
    by (simp add: field_add_nat field_mul_nat mod_simps)
  finally show ?thesis by (simp add: word_unat_eq_iff)
qed

lemma merkle_round_right:
  assumes "canonical t"
  shows "\<exists>b. merkle_poseidon_round a b = t"
proof -
  let ?c = "field_mul_goldilocks 7 (sbox (field_add_goldilocks a 0xdd5743e7f2a5a5d9))"
  obtain x where x: "canonical x" "sbox x = field_sub_goldilocks t ?c"
    using sbox_surj [OF gf.canon_sub] by blast
  have "merkle_poseidon_round a (field_sub_goldilocks x 0xcb3a864e58ada44b) =
      field_add_goldilocks ?c (field_sub_goldilocks t ?c)"
    by (simp only: merkle_poseidon_round_field gf.sub_add [OF x(1)] x(2))
  also have "\<dots> = t" by (subst gf.add_commute) (rule gf.sub_add [OF assms])
  finally show ?thesis by blast
qed

lemma merkle_round_left:
  assumes "canonical t"
  shows "\<exists>a. merkle_poseidon_round a b = t"
proof -
  let ?y = "sbox (field_add_goldilocks b 0xcb3a864e58ada44b)"
  let ?z = "field_mul_goldilocks (field_sub_goldilocks t ?y) (field_inverse_goldilocks 7)"
  have seven: "canonical 7" "(7 :: u64) \<noteq> 0" by (simp_all add: canonical_iff)
  obtain x where x: "canonical x" "sbox x = ?z" using sbox_surj [OF gf.canon_mul] by blast
  have "field_mul_goldilocks 7 ?z = field_sub_goldilocks t ?y"
    by (subst gf.mul_commute) (rule gf.div_mul_cancel [OF gf.canon_sub seven])
  then have "merkle_poseidon_round (field_sub_goldilocks x 0xdd5743e7f2a5a5d9) b =
      field_add_goldilocks (field_sub_goldilocks t ?y) ?y"
    by (simp only: merkle_poseidon_round_field gf.sub_add [OF x(1)] x(2))
  also have "\<dots> = t" by (rule gf.sub_add [OF assms])
  finally show ?thesis by blast
qed

section \<open>Every root can be reached from every leaf\<close>

lemma read_u64_disjoint:
  assumes "unat a + 8 \<le> length mem" "unat b + 8 \<le> length mem" "unat b + 8 \<le> unat a \<or> unat a + 8 \<le> unat b"
  shows "read_u64 (copy_from_slice (unat a) (to_le_bytes v) mem) b = read_u64 mem b"
  using assms by (simp add: read_u64_def slice_copy_disjoint)

lemma sibling_addr_bounds:
  assumes "path_in_memory p 520 n" "i < 64"
  shows "unat (sibling_addr p i) = unat p + 8 + i * 8" "unat (sibling_addr p i) + 8 \<le> n"
proof -
  have b: "unat p + 520 < 2 ^ 64" "unat p + 520 \<le> n" using assms(1) by (simp_all add: path_in_memory_iff)
  have i: "unat (of_nat i * 8 :: usize) = i * 8" using assms(2) by (simp add: unat_word_ariths unat_of_nat)
  have p: "unat (p + 8) = unat p + 8" using b by (simp add: unat_add_small)
  show eq: "unat (sibling_addr p i) = unat p + 8 + i * 8"
    using assms(2) b i p by (simp add: sibling_addr_def unat_add_small)
  show "unat (sibling_addr p i) + 8 \<le> n" using eq b assms(2) by simp
qed

lemma merkle_walk_cong:
  "(\<And>i. i < n \<Longrightarrow> read_u64 mem (sibling_addr p i) = read_u64 mem' (sibling_addr p i)) \<Longrightarrow>
   merkle_walk mem p key leaf n = merkle_walk mem' p key leaf n"
  by (induction n) (simp_all add: merkle_walk_Suc)

lemma merkle_walk_forge:
  assumes path: "path_in_memory p 520 (length mem)" and root: "canonical root"
  shows "\<exists>s. merkle_walk (copy_from_slice (unat (sibling_addr p 63)) (to_le_bytes s) mem) p
    key leaf 64 = root"
proof -
  let ?a = "sibling_addr p 63"
  let ?m = "\<lambda>s. copy_from_slice (unat ?a) (to_le_bytes s) mem"
  let ?cur = "merkle_walk mem p key leaf 63"
  obtain s where s: "merkle_hash_step key 63 ?cur s = root"
    using merkle_round_left [OF root, of ?cur] merkle_round_right [OF root, of ?cur]
    by (metis merkle_hash_step_bit)
  note b63 = sibling_addr_bounds [OF path, of 63, simplified]
  have "merkle_walk (?m s) p key leaf 63 = ?cur"
  proof (rule merkle_walk_cong)
    fix i :: nat
    assume "i < 63"
    then show "read_u64 (?m s) (sibling_addr p i) = read_u64 mem (sibling_addr p i)"
      using sibling_addr_bounds [OF path, of i] b63 by (intro read_u64_disjoint) simp_all
  qed
  moreover have "read_u64 (?m s) ?a = s" by (rule read_after_write) (rule b63(2))
  ultimately have "merkle_walk (?m s) p key leaf (Suc 63) = root" by (simp only: merkle_walk_Suc s)
  then show ?thesis by auto
qed

section \<open>Words in memory\<close>

text \<open>The words \<open>ws\<close> lie in memory from address \<open>p\<close> on, little-endian and one after the other.\<close>

definition words_at :: "u8 list \<Rightarrow> nat \<Rightarrow> u64 list \<Rightarrow> bool" where
  "words_at mem p ws \<longleftrightarrow> slice p (8 * length ws) mem = concat (map to_le_bytes ws)"

lemma to_from_le_bytes:
  assumes "length bs = 8"
  shows "to_le_bytes (from_le_bytes bs) = bs"
proof (rule nth_equalityI)
  fix i
  assume "i < length (to_le_bytes (from_le_bytes bs))"
  then have i: "i < 8" by simp
  have "bit (to_le_bytes (from_le_bytes bs) ! i) n = bit (bs ! i) n" if "n < 8" for n
    using i that assms by (simp add: to_le_bytes_def bit_ucast_iff bit_drop_bit_eq bit_from_le_bytes)
  then show "to_le_bytes (from_le_bytes bs) ! i = bs ! i" by (intro bit_word_eqI) simp
qed (simp add: assms)

lemma words_at_Cons:
  assumes "p + 8 * length (w # ws) \<le> length mem"
  shows "words_at mem p (w # ws) \<longleftrightarrow> slice p 8 mem = to_le_bytes w \<and> words_at mem (p + 8) ws"
proof -
  have "slice p (8 * length (w # ws)) mem = slice p 8 mem @ slice (p + 8) (8 * length ws) mem"
    by (simp add: slice_def take_add add.commute)
  then show ?thesis using assms by (simp add: words_at_def append_eq_append_conv)
qed

lemma words_at_nth:
  "words_at mem p ws \<Longrightarrow> p + 8 * length ws \<le> length mem \<Longrightarrow> i < length ws \<Longrightarrow>
   from_le_bytes (slice (p + 8 * i) 8 mem) = ws ! i"
proof (induction ws arbitrary: p i)
  case (Cons w ws)
  then show ?case using Cons.IH [of "p + 8" "i - 1"] by (cases i) (simp_all add: words_at_Cons add.assoc)
qed simp

lemma words_at_exist:
  "p + 8 * n \<le> length mem \<Longrightarrow> \<exists>ws. length ws = n \<and> words_at mem p ws"
proof (induction n arbitrary: p)
  case 0
  then show ?case by (simp add: words_at_def slice_def)
next
  case (Suc n)
  then have "p + 8 + 8 * n \<le> length mem" by simp
  from Suc.IH [OF this] obtain ws where "length ws = n" "words_at mem (p + 8) ws" by blast
  then have "words_at mem p (from_le_bytes (slice p 8 mem) # ws)"
    using Suc.prems by (simp add: words_at_Cons to_from_le_bytes)
  then show ?case using \<open>length ws = n\<close> by (intro exI [of _ "from_le_bytes (slice p 8 mem) # ws"]) simp
qed

section \<open>The tree a path belongs to\<close>

text \<open>A Merkle tree: a subtree is known by its structure or only by its digest.  A key's bits select the
  way down, the most significant of the remaining levels first.\<close>

datatype merkle_tree = Digest u64 | Fork merkle_tree merkle_tree

fun digest_of :: "merkle_tree \<Rightarrow> u64" where
  "digest_of (Digest w) = w"
| "digest_of (Fork l r) = merkle_poseidon_round (digest_of l) (digest_of r)"

text \<open>The tree with the leaf at a key replaced, and the digests beside the way to it from the leaf up.\<close>

fun put_leaf :: "u64 \<Rightarrow> nat \<Rightarrow> u64 \<Rightarrow> merkle_tree \<Rightarrow> merkle_tree" where
  "put_leaf key (Suc n) v (Fork l r) =
     (if bit key n then Fork l (put_leaf key n v r) else Fork (put_leaf key n v l) r)"
| "put_leaf key _ v _ = Digest v"

fun siblings_of :: "u64 \<Rightarrow> nat \<Rightarrow> merkle_tree \<Rightarrow> u64 list" where
  "siblings_of key (Suc n) (Fork l r) =
     (if bit key n then siblings_of key n r @ [digest_of l] else siblings_of key n l @ [digest_of r])"
| "siblings_of key _ _ = []"

lemma length_siblings_of: "length (siblings_of key n t) \<le> n"
  by (induction key n t rule: siblings_of.induct) simp_all

lemma path_root_tree:
  "length (siblings_of key n t) = n \<Longrightarrow>
   path_root (key_bits key n) (siblings_of key n t) v = digest_of (put_leaf key n v t)"
proof (induction key n t rule: siblings_of.induct)
  case (1 key n l r)
  then show ?case by (auto simp: key_bits_def path_root_snoc Let_def split: if_splits)
qed (simp_all add: key_bits_def)

lemma siblings_of_exist: "length ss = n \<Longrightarrow> \<exists>t. siblings_of key n t = ss"
proof (induction ss arbitrary: n rule: rev_induct)
  case (snoc s ss)
  then obtain t where "siblings_of key (length ss) t = ss" by blast
  then have "siblings_of key n (if bit key (length ss) then Fork (Digest s) t else Fork t (Digest s)) = ss @ [s]"
    using snoc.prems by auto
  then show ?case by blast
qed simp

text \<open>A key and the siblings of its way through a tree of depth 64, as the instruction expects them.\<close>

definition holds_path :: "u8 list \<Rightarrow> nat \<Rightarrow> u64 \<Rightarrow> merkle_tree \<Rightarrow> bool" where
  "holds_path mem p key t \<longleftrightarrow>
     length (siblings_of key 64 t) = 64 \<and> words_at mem p (key # siblings_of key 64 t)"

lemma holds_path_exists:
  assumes "p + 520 \<le> length mem"
  shows "\<exists>key t. holds_path mem p key t"
proof -
  obtain ws where "length ws = 65" "words_at mem p ws" using words_at_exist [of p 65 mem] assms by auto
  then obtain key ss where "length ss = 64" "words_at mem p (key # ss)" by (cases ws) auto
  moreover from this obtain t where "siblings_of key 64 t = ss" using siblings_of_exist by blast
  ultimately show ?thesis unfolding holds_path_def by blast
qed

lemma merkle_walk_tree:
  assumes path: "path_in_memory p 520 (length mem)" and held: "holds_path mem (unat p) key t"
  shows "read_u64 mem p = key" "merkle_walk mem p key leaf 64 = digest_of (put_leaf key 64 leaf t)"
proof -
  let ?ws = "key # siblings_of key 64 t"
  have len: "length (siblings_of key 64 t) = 64" and at: "words_at mem (unat p) ?ws"
    using held by (simp_all add: holds_path_def)
  have b: "unat p + 8 * length ?ws \<le> length mem" using path len by (simp add: path_in_memory_iff)
  show "read_u64 mem p = key" using words_at_nth [OF at b, of 0] by (simp add: read_u64_def)
  have "read_u64 mem (sibling_addr p i) = siblings_of key 64 t ! i" if "i < 64" for i
    using words_at_nth [OF at b, of "Suc i"] that len sibling_addr_bounds(1) [OF path that]
    by (simp add: read_u64_def mult.commute add.assoc)
  then have "path_siblings mem p 64 = siblings_of key 64 t"
    by (intro nth_equalityI) (simp_all add: path_siblings_def len)
  then show "merkle_walk mem p key leaf 64 = digest_of (put_leaf key 64 leaf t)"
    using len by (simp add: merkle_walk_path_root path_root_tree)
qed

end
