(* ===== verification/Vm_Run.thy ===== *)
theory Vm_Run
  imports Vm_Merkle
begin

text \<open>
  Whole runs of the virtual machine.  The trace is checked by an independent reader that replays
  its program-counter, register and memory columns; every trace the machine writes replays to the
  machine's own state.  Gas is the sum of the recorded instructions' costs, a run with a gas limit
  below the maximum always returns, and the trace of a finished run ends in its only \<open>Halt\<close> row.
\<close>

section \<open>A reader of the trace\<close>

definition is_expansion :: "trace_row \<Rightarrow> bool" where
  "is_expansion r \<longleftrightarrow> merkle_is_expand r \<or> inference_is_expand r"

definition row_opcode :: "trace_row \<Rightarrow> opcode" where
  "row_opcode r = opcode (row_instruction r)"

text \<open>The instructions that write their destination register.\<close>

definition writes_rd :: "opcode \<Rightarrow> bool" where
  "writes_rd op \<longleftrightarrow> op \<notin> {Op_Halt, Op_Store, Op_Jmp, Op_Jnz, Op_Call, Op_Ret, Op_Push, Op_Assert,
                          Op_SWrite, Op_Log}"

definition registers_after :: "u64 list \<Rightarrow> trace_row \<Rightarrow> u64 list" where
  "registers_after regs r =
     (if \<not> is_expansion r \<and> writes_rd (row_opcode r)
      then regs[unat (row_dst_idx r) := row_dst_val r, 0 := 0] else regs)"

definition operands_match :: "u64 list \<Rightarrow> trace_row \<Rightarrow> bool" where
  "operands_match regs r \<longleftrightarrow> is_expansion r \<or>
     row_src1_val r = regs ! unat (row_src1_idx r) \<and> row_src2_val r = regs ! unat (row_src2_idx r)"

definition memory_after :: "u8 list \<Rightarrow> trace_row \<Rightarrow> u8 list" where
  "memory_after mem r =
     (case (row_is_memory_write r, row_memory_addr r, row_memory_val r) of
        (True, Some a, Some v) \<Rightarrow> copy_from_slice (unat a) (to_le_bytes v) mem
      | _ \<Rightarrow> mem)"

definition memory_matches :: "u8 list \<Rightarrow> trace_row \<Rightarrow> bool" where
  "memory_matches mem r =
     (case row_memory_addr r of
        None \<Rightarrow> True
      | Some a \<Rightarrow> unat a + 8 \<le> length mem \<and>
          row_memory_val r = Some (read_u64 (memory_after mem r) a))"

text \<open>Replaying a trace: each row starts where the previous one ended, reads its operands from the
  registers and its memory word from the memory the previous rows left, and records the registers
  after it.\<close>

fun replay :: "usize \<times> u64 list \<times> u8 list \<Rightarrow> trace_row list \<Rightarrow> (usize \<times> u64 list \<times> u8 list) option" where
  "replay (p, regs, mem) [] = Some (p, regs, mem)"
| "replay (p, regs, mem) (r # rs) =
     (if row_pc r = p \<and> operands_match regs r \<and> row_registers r = registers_after regs r \<and>
         memory_matches mem r
      then replay (row_next_pc r, row_registers r, memory_after mem r) rs
      else None)"

lemmas row_check_defs = operands_match_def registers_after_def memory_matches_def memory_after_def
  is_expansion_def row_opcode_def

lemma replay_append: "replay s (xs @ ys) = (case replay s xs of None \<Rightarrow> None | Some t \<Rightarrow> replay t ys)"
  by (induction s xs rule: replay.induct) simp_all

lemma inference_patch_simps [simp]:
  "row_pc (inference_patch q a m r) = row_pc r"
  "row_next_pc (inference_patch q a m r) = q"
  "row_registers (inference_patch q a m r) = row_registers r"
  "operands_match rg (inference_patch q a m r) = operands_match rg r"
  "registers_after rg (inference_patch q a m r) = registers_after rg r"
  "memory_matches me (inference_patch q a m r) = memory_matches me r"
  "memory_after me (inference_patch q a m r) = memory_after me r"
  "row_opcode (inference_patch q a m r) = row_opcode r"
  "is_expansion (inference_patch q a m r) = is_expansion r"
  by (simp_all add: inference_patch_def row_check_defs cong: option.case_cong)

lemma replay_patch_last:
  assumes "replay s rows = Some (p, regs, mem)" "rows \<noteq> []"
  shows "replay s (patch_last (inference_patch q a m) rows) = Some (q, regs, mem)"
proof -
  obtain xs r where rows: "rows = xs @ [r]" using assms(2) by (cases rows rule: rev_cases) auto
  then obtain p0 regs0 mem0 where "replay s xs = Some (p0, regs0, mem0)"
    using assms(1) by (auto simp: replay_append split: option.splits)
  then show ?thesis using assms(1) by (simp add: rows replay_append split: if_splits)
qed

section \<open>The rows of one step replay\<close>

lemma merkle_rows_Suc:
  "merkle_rows inst c leaf vm (Suc n) = merkle_rows inst c leaf vm n @
      [merkle_expansion_row inst c (read_u64 (memory vm) (scast (imm inst))) n
        (merkle_walk (memory vm) (scast (imm inst)) (read_u64 (memory vm) (scast (imm inst))) leaf n)
        (sibling_addr (scast (imm inst)) n)
        (read_u64 (memory vm) (sibling_addr (scast (imm inst)) n)) vm]"
  by (simp add: merkle_rows_def Let_def)

lemma merkle_rows_0 [simp]: "merkle_rows inst c leaf vm 0 = []"
  by (simp add: merkle_rows_def)

lemma inference_rows_Suc:
  "inference_rows inst c a b vm (Suc n) = inference_rows inst c a b vm n @
      [inference_expansion_row inst c a b (read_u64 (memory vm) a)
         (read_u64 (memory vm) (a + 8)) (read_u64 (memory vm) (a + 16)) vm n]"
  by (simp add: inference_rows_def)

lemma inference_rows_0 [simp]: "inference_rows inst c a b vm 0 = []"
  by (simp add: inference_rows_def)

lemma replay_expansion_row:
  assumes "is_expansion r" "row_pc r = c" "row_registers r = regs" "\<not> row_is_memory_write r"
    and "memory_matches mem r"
  shows "replay (c, regs, mem) [r] = Some (row_next_pc r, regs, mem)"
  using assms by (simp add: row_check_defs split: option.splits)

lemma replay_merkle_row:
  assumes "path_in_memory (scast (imm inst)) (8 * 65) (length (memory vm))" "n < 64"
  shows "replay (c, registers vm, memory vm)
      [merkle_expansion_row inst c key n cur (sibling_addr (scast (imm inst)) n)
        (read_u64 (memory vm) (sibling_addr (scast (imm inst)) n)) vm]
    = Some (if n = 63 then c + 1 else c, registers vm, memory vm)"
proof -
  have "unat (sibling_addr (scast (imm inst)) n) + 8 \<le> length (memory vm)"
    using sibling_addr_bounds(2) [of "scast (imm inst)" _ n] assms by simp
  then show ?thesis
    by (subst replay_expansion_row)
      (simp_all add: merkle_expansion_row_def is_expansion_def memory_matches_def memory_after_def)
qed

lemma replay_merkle_rows:
  assumes "path_in_memory (scast (imm inst)) (8 * 65) (length (memory vm))" "n \<le> 63"
  shows "replay (c, registers vm, memory vm) (merkle_rows inst c leaf vm n) = Some (c, registers vm, memory vm)"
  using assms(2)
proof (induction n)
  case (Suc n)
  then show ?case by (simp add: merkle_rows_Suc replay_append replay_merkle_row [OF assms(1)] del: replay.simps)
qed simp

lemma replay_merkle_rows_64:
  assumes "path_in_memory (scast (imm inst)) (8 * 65) (length (memory vm))"
  shows "replay (c, registers vm, memory vm) (merkle_rows inst c leaf vm (Suc 63))
    = Some (c + 1, registers vm, memory vm)"
  unfolding merkle_rows_Suc
  by (simp add: replay_append replay_merkle_row [OF assms] replay_merkle_rows [OF assms] del: replay.simps)

lemma replay_inference_row:
  "replay (c, registers vm, memory vm) [inference_expansion_row inst c a b m i out vm n]
    = Some (if n = 7 then c + 1 else c, registers vm, memory vm)"
  by (subst replay_expansion_row)
    (simp_all add: inference_expansion_row_def is_expansion_def memory_matches_def)

lemma replay_inference_rows:
  "n \<le> 7 \<Longrightarrow> replay (c, registers vm, memory vm) (inference_rows inst c a b vm n)
    = Some (c, registers vm, memory vm)"
  by (induction n) (simp_all add: inference_rows_Suc replay_append replay_inference_row del: replay.simps(2))

lemma replay_inference_rows_8:
  "replay (c, registers vm, memory vm) (inference_rows inst c a b vm (Suc 7)) = Some (c + 1, registers vm, memory vm)"
  unfolding inference_rows_Suc
  by (simp add: replay_append replay_inference_row replay_inference_rows del: replay.simps)

lemma execute_registers:
  "execute inst a b vm = (Inr eff, vm') \<Longrightarrow>
   (registers vm')[0 := 0] =
     (if writes_rd (opcode inst) then (registers vm)[unat (rd inst) := dst_val eff, 0 := 0]
      else (registers vm)[0 := 0])"
  by (cases "opcode inst")
    (auto simp: execute_def exec_defs writes_rd_def word_gt_0 split: if_splits option.splits)

lemma execute_memory:
  "execute inst a b vm = (Inr eff, vm') \<Longrightarrow>
   memory vm' = (case (is_memory_write eff, memory_addr eff, memory_val eff) of
        (True, Some ad, Some v) \<Rightarrow> copy_from_slice (unat ad) (to_le_bytes v) (memory vm)
      | _ \<Rightarrow> memory vm)"
  by (cases "opcode inst")
    (auto simp: execute_def exec_defs split: if_splits option.splits)

lemma execute_fires_next:
  assumes "execute inst a b vm = (Inr eff, vm')" "opcode inst \<in> {Op_VerifyMerkle, Op_VerifyInference}"
  shows "next_pc eff = pc vm + 1" "memory vm' = memory vm"
  using assms by (auto simp: execute_def exec_defs split: if_splits)

lemma replay_step_row:
  assumes ex: "execute inst a b vm = (Inr eff, vm')"
    and ops: "a = registers vm ! unat (rs1 inst)" "b = registers vm ! unat (rs2 inst)"
    and r0: "(registers vm)[0 := 0] = registers vm"
  shows "replay (c, registers vm, memory vm) [step_row inst c a b eff (set_register 0 0 vm')]
    = Some (next_pc eff, registers (set_register 0 0 vm'), memory vm')"
proof -
  let ?r = "step_row inst c a b eff (set_register 0 0 vm')"
  have regs: "row_registers ?r = registers_after (registers vm) ?r"
    using execute_registers [OF ex] r0
    by (simp add: step_row_def set_register_def registers_after_def is_expansion_def row_opcode_def)
  have mem: "memory_after (memory vm) ?r = memory vm'"
    using execute_memory [OF ex] by (simp add: step_row_def memory_after_def)
  have "memory_matches (memory vm) ?r"
    using execute_memory_columns [OF ex] mem
    by (auto simp: memory_matches_def mem step_row_def [of inst c] split: option.split)
  with regs mem ops show ?thesis
    by (simp add: operands_match_def) (simp add: step_row_def set_register_def)
qed

lemma merkle_patch_simps [simp]:
  fixes r k q m
  defines "r' \<equiv> r\<lparr>merkle_key := k, row_next_pc := q, merkle_current := m\<rparr>"
  shows "operands_match rg r' = operands_match rg r" "registers_after rg r' = registers_after rg r"
    "memory_matches me r' = memory_matches me r" "memory_after me r' = memory_after me r"
    "row_opcode r' = row_opcode r" "is_expansion r' = is_expansion r"
  unfolding r'_def by (simp_all add: row_check_defs cong: option.case_cong)

lemma replay_merkle_patch:
  "replay s [r] = Some (p, regs, mem) \<Longrightarrow>
   replay s [r\<lparr>merkle_key := k, row_next_pc := q, merkle_current := m\<rparr>] = Some (q, regs, mem)"
  by (cases s) (simp split: if_splits)

lemma replay_step_rows:
  assumes ex: "execute inst a b vm = (Inr eff, vm')"
    and ops: "a = registers vm ! unat (rs1 inst)" "b = registers vm ! unat (rs2 inst)"
    and r0: "(registers vm)[0 := 0] = registers vm" and c: "pc vm = c"
  shows "replay (c, registers vm, memory vm) (step_rows inst c a b eff (set_register 0 0 vm'))
    = Some (next_pc eff, registers (set_register 0 0 vm'), memory vm')"
proof -
  let ?vm = "set_register 0 0 vm'"
  let ?r = "step_row inst c a b eff ?vm"
  have mem: "memory ?vm = memory vm'" by (simp add: set_register_def)
  note row = replay_step_row [OF ex ops r0, of c]
  have block: "replay (c, registers vm, memory vm) (merkle_block inst c b ?r ?vm)
      = Some (next_pc eff, registers ?vm, memory vm')"
  proof (cases "merkle_fires inst ?vm")
    case True
    then have fires: "path_in_memory (scast (imm inst)) (8 * 65) (length (memory ?vm))"
      and "opcode inst \<in> {Op_VerifyMerkle, Op_VerifyInference}" by (simp_all add: merkle_fires_def)
    then have next_eff: "next_pc eff = c + 1" using execute_fires_next [OF ex] c by simp
    have "merkle_block inst c b ?r ?vm =
        [?r\<lparr>merkle_key := Some (read_u64 (memory ?vm) (scast (imm inst))), row_next_pc := c,
            merkle_current := Some (merkle_walk (memory ?vm) (scast (imm inst))
              (read_u64 (memory ?vm) (scast (imm inst))) b 64)\<rparr>] @ merkle_rows inst c b ?vm (Suc 63)"
      using True by (simp add: merkle_block_def)
    then show ?thesis
      using replay_merkle_patch [OF row] replay_merkle_rows_64 [OF fires, of c b]
      by (simp only: replay_append option.case mem next_eff)
  next
    case False
    then show ?thesis using row by (simp add: merkle_block_def del: replay.simps)
  qed
  show ?thesis
  proof (cases "inference_fires inst a ?vm")
    case True
    then have "next_pc eff = c + 1" using execute_fires_next [OF ex] c by (simp add: inference_fires_def)
    moreover have "step_rows inst c a b eff ?vm =
        patch_last (inference_patch c a (memory ?vm)) (merkle_block inst c b ?r ?vm)
          @ inference_rows inst c a b ?vm (Suc 7)"
      using True by (simp add: step_rows_def)
    ultimately show ?thesis
      using replay_patch_last [OF block merkle_block_not_Nil] replay_inference_rows_8 [of c ?vm inst a b]
      by (simp only: replay_append option.case mem)
  next
    case False
    then show ?thesis using block by (simp add: step_rows_def)
  qed
qed

section \<open>Opcodes and gas of the rows of one step\<close>

definition row_gas :: "trace_row \<Rightarrow> nat" where
  "row_gas r = (if is_expansion r then 0 else unat (gas_cost (row_opcode r)))"

definition is_halt_row :: "trace_row \<Rightarrow> bool" where
  "is_halt_row r \<longleftrightarrow> row_opcode r = Op_Halt"

lemma map_patch_last: "f (g (last xs)) = f (last xs) \<Longrightarrow> map f (patch_last g xs) = map f xs"
  by (cases xs rule: rev_cases) (simp_all add: patch_last_def)

lemma map_merkle_rows:
  "(\<And>i cur sa s. i < n \<Longrightarrow> f (merkle_expansion_row inst c (read_u64 (memory vm) (scast (imm inst))) i cur sa s vm) = y)
   \<Longrightarrow> map f (merkle_rows inst c leaf vm n) = replicate n y"
  by (rule nth_equalityI) (simp_all add: merkle_rows_def Let_def)

lemma map_inference_rows:
  "(\<And>m i out k. k < n \<Longrightarrow> f (inference_expansion_row inst c a b m i out vm k) = y)
   \<Longrightarrow> map f (inference_rows inst c a b vm n) = replicate n y"
  by (rule nth_equalityI) (simp_all add: inference_rows_def)

lemma step_rows_columns:
  fixes f :: "trace_row \<Rightarrow> 'a"
  assumes "\<And>r k q m. f (r\<lparr>merkle_key := k, row_next_pc := q, merkle_current := m\<rparr>) = f r"
    and "\<And>q m r. f (inference_patch q a m r) = f r"
    and "\<And>k i cur sa s. f (merkle_expansion_row inst c k i cur sa s vm) = y"
    and "\<And>m i out k. f (inference_expansion_row inst c a b m i out vm k) = y"
  shows "\<exists>n. map f (step_rows inst c a b eff vm) = f (step_row inst c a b eff vm) # replicate n y"
proof -
  let ?m = "merkle_block inst c b (step_row inst c a b eff vm) vm"
  have m: "map f ?m = f (step_row inst c a b eff vm) # replicate (if merkle_fires inst vm then 64 else 0) y"
    by (simp add: merkle_block_def assms map_merkle_rows)
  have i: "map f (inference_rows inst c a b vm 8) = replicate 8 y"
    by (rule map_inference_rows) (simp add: assms)
  show ?thesis
    by (rule exI [of _ "(if merkle_fires inst vm then 64 else 0) + (if inference_fires inst a vm then 8 else 0)"])
      (simp add: step_rows_def Let_def map_patch_last assms m i replicate_add merkle_fires_def
        inference_fires_def)
qed

lemma step_rows_gas:
  "sum_list (map row_gas (step_rows inst c a b eff vm)) = unat (gas_cost (opcode inst))"
proof -
  have "\<exists>n. map row_gas (step_rows inst c a b eff vm) = row_gas (step_row inst c a b eff vm) # replicate n 0"
    by (rule step_rows_columns)
      (simp_all add: row_gas_def, simp_all add: is_expansion_def merkle_expansion_row_def
        inference_expansion_row_def)
  then obtain n where
    "map row_gas (step_rows inst c a b eff vm) = row_gas (step_row inst c a b eff vm) # replicate n 0"
    by (elim exE)
  then show ?thesis by (simp add: sum_list_replicate row_gas_def is_expansion_def row_opcode_def step_row_def)
qed

lemma step_rows_halt:
  assumes "opcode inst \<noteq> Op_Halt"
  shows "list_all (\<lambda>r. \<not> is_halt_row r) (step_rows inst c a b eff vm)"
proof -
  have "\<exists>n. map is_halt_row (step_rows inst c a b eff vm) =
        is_halt_row (step_row inst c a b eff vm) # replicate n False"
    by (rule step_rows_columns)
      (simp_all add: is_halt_row_def, simp_all add: row_opcode_def merkle_expansion_row_def
        inference_expansion_row_def)
  then obtain n where "map is_halt_row (step_rows inst c a b eff vm) =
      is_halt_row (step_row inst c a b eff vm) # replicate n False" by (elim exE)
  moreover have "\<not> is_halt_row (step_row inst c a b eff vm)"
    using assms by (simp add: is_halt_row_def row_opcode_def step_row_def)
  ultimately have "list_all Not (map is_halt_row (step_rows inst c a b eff vm))"
    by (simp add: list_all_iff)
  then show ?thesis by (simp add: list_all_iff)
qed

lemma step_rows_Halt:
  "opcode inst = Op_Halt \<Longrightarrow> step_rows inst c a b eff vm = [step_row inst c a b eff vm]"
  by (simp add: step_rows_def merkle_block_def merkle_fires_def inference_fires_def Let_def)

section \<open>The invariant of a run\<close>

definition vm_wf :: "vm \<Rightarrow> bool" where
  "vm_wf vm \<longleftrightarrow> length (registers vm) = 32 \<and> registers vm ! 0 = 0 \<and> length (stack vm) \<le> 1024 \<and>
     gas_used vm \<le> gas_limit vm \<and> error vm = None"

definition trace_ends_with_halt :: "trace_row list \<Rightarrow> bool" where
  "trace_ends_with_halt tr \<longleftrightarrow>
     tr \<noteq> [] \<and> is_halt_row (last tr) \<and> list_all (\<lambda>r. \<not> is_halt_row r) (butlast tr)"

definition halt_discipline :: "vm \<Rightarrow> bool" where
  "halt_discipline vm \<longleftrightarrow>
     (if halted vm then trace_ends_with_halt (trace vm)
      else list_all (\<lambda>r. \<not> is_halt_row r) (trace vm))"

definition gas_accounted :: "vm \<Rightarrow> bool" where
  "gas_accounted vm \<longleftrightarrow> unat (gas_used vm) = min (2 ^ 64 - 1) (sum_list (map row_gas (trace vm)))"

definition run_inv :: "usize \<times> u64 list \<times> u8 list \<Rightarrow> vm \<Rightarrow> bool" where
  "run_inv s vm \<longleftrightarrow> vm_wf vm \<and> halt_discipline vm \<and> gas_accounted vm \<and>
     replay s (trace vm) = Some (pc vm, registers vm, memory vm)"

text \<open>A transition is a successful step of a machine that has not halted.\<close>

definition vm_trans :: "u64 list \<Rightarrow> vm \<Rightarrow> vm \<Rightarrow> bool" where
  "vm_trans program vm vm' \<longleftrightarrow> \<not> halted vm \<and> step vm program = (Inr (), vm')"

lemma vm_wf_r0: "vm_wf vm \<Longrightarrow> (registers vm)[0 := 0] = registers vm"
  by (metis list_update_id vm_wf_def)

lemma vm_transE:
  assumes "vm_trans program vm vm'" "vm_wf vm"
  obtains inst eff vm1 where "\<not> halted vm" "unat (pc vm) < length program"
    "decode_instruction (program ! unat (pc vm)) (mainnet_mode vm) = Inr inst"
    "saturating_add (gas_used vm) (gas_cost (opcode inst)) \<le> gas_limit vm"
    "execute inst (registers vm ! unat (rs1 inst)) (registers vm ! unat (rs2 inst)) (charged vm inst)
       = (Inr eff, vm1)"
    "vm' = (set_register 0 0 vm1)\<lparr>trace := trace vm @ step_rows inst (pc vm)
       (registers vm ! unat (rs1 inst)) (registers vm ! unat (rs2 inst)) eff (set_register 0 0 vm1)\<rparr>"
proof -
  from assms(1) have "\<not> halted vm" and st: "step vm program = (Inr (), vm')"
    by (simp_all add: vm_trans_def)
  from step_InrE [OF st this(1)] obtain inst eff vm1 where *: "unat (pc vm) < length program"
    "decode_instruction (program ! unat (pc vm)) (mainnet_mode vm) = Inr inst"
    "saturating_add (gas_used vm) (gas_cost (opcode inst)) \<le> gas_limit vm"
    "execute inst (operand1 vm inst) (operand2 vm inst) (charged vm inst) = (Inr eff, vm1)"
    "vm' = record_step inst (pc vm) (operand1 vm inst) (operand2 vm inst) eff vm1" by metis
  then have "trace vm1 = trace vm" using execute_frame(6) by fastforce
  with * \<open>\<not> halted vm\<close> show ?thesis using that vm_wf_r0 [OF assms(2)] by (simp add: record_step_eq)
qed

lemma unat_saturating_bounded:
  fixes a b l :: u64
  assumes "saturating_add a b \<le> l" "l \<noteq> - 1"
  shows "unat (saturating_add a b) = unat a + unat b"
proof -
  have "l < - 1" using assms(2) by (simp add: word_order.not_eq_extremum)
  then have "unat (saturating_add a b) < 2 ^ 64 - 1"
    using assms(1) by (simp add: word_less_nat_alt word_le_nat_alt unat_max_word)
  then show ?thesis by (simp add: unat_saturating_add)
qed

lemma vm_trans_wf: "vm_wf vm \<Longrightarrow> vm_trans program vm vm' \<Longrightarrow> vm_wf vm'"
proof -
  assume wf: "vm_wf vm" and tr: "vm_trans program vm vm'"
  obtain inst eff vm1 where gas: "saturating_add (gas_used vm) (gas_cost (opcode inst)) \<le> gas_limit vm"
    and ex: "execute inst (registers vm ! unat (rs1 inst)) (registers vm ! unat (rs2 inst))
      (charged vm inst) = (Inr eff, vm1)"
    and vm': "vm' = (set_register 0 0 vm1)\<lparr>trace := trace vm @ step_rows inst (pc vm)
       (registers vm ! unat (rs1 inst)) (registers vm ! unat (rs2 inst)) eff (set_register 0 0 vm1)\<rparr>"
    using vm_transE [OF tr wf] by metis
  show "vm_wf vm'"
    using execute_frame [OF ex] execute_stack_bound [OF ex] gas wf
    by (simp add: vm' vm_wf_def set_register_def)
qed

lemma vm_trans_halt:
  assumes "vm_wf vm" "halt_discipline vm" "vm_trans program vm vm'"
  shows "halt_discipline vm'"
proof -
  obtain inst eff vm1 where nh: "\<not> halted vm"
    and ex: "execute inst (registers vm ! unat (rs1 inst)) (registers vm ! unat (rs2 inst))
      (charged vm inst) = (Inr eff, vm1)"
    and vm': "vm' = (set_register 0 0 vm1)\<lparr>trace := trace vm @ step_rows inst (pc vm)
       (registers vm ! unat (rs1 inst)) (registers vm ! unat (rs2 inst)) eff (set_register 0 0 vm1)\<rparr>"
    using vm_transE [OF assms(3,1)] by metis
  have h: "halted vm1 \<longleftrightarrow> opcode inst = Op_Halt" using execute_frame(9) [OF ex] nh by simp
  have tr: "list_all (\<lambda>r. \<not> is_halt_row r) (trace vm)" using assms(2) nh by (simp add: halt_discipline_def)
  show ?thesis
  proof (cases "opcode inst = Op_Halt")
    case True
    then have "is_halt_row (step_row inst (pc vm) a b eff (set_register 0 0 vm1))" for a b
      by (simp add: is_halt_row_def row_opcode_def step_row_def)
    with True h tr show ?thesis
      by (simp add: halt_discipline_def vm' step_rows_Halt trace_ends_with_halt_def set_register_def)
  next
    case False
    with h tr show ?thesis by (simp add: halt_discipline_def vm' step_rows_halt set_register_def)
  qed
qed

lemma vm_trans_gas:
  assumes "vm_wf vm" "gas_accounted vm" "vm_trans program vm vm'"
  shows "gas_accounted vm'"
proof -
  obtain inst eff vm1 where gas: "saturating_add (gas_used vm) (gas_cost (opcode inst)) \<le> gas_limit vm"
    and ex: "execute inst (registers vm ! unat (rs1 inst)) (registers vm ! unat (rs2 inst))
      (charged vm inst) = (Inr eff, vm1)"
    and vm': "vm' = (set_register 0 0 vm1)\<lparr>trace := trace vm @ step_rows inst (pc vm)
       (registers vm ! unat (rs1 inst)) (registers vm ! unat (rs2 inst)) eff (set_register 0 0 vm1)\<rparr>"
    using vm_transE [OF assms(3,1)] by metis
  then show ?thesis
    using execute_frame(2) [OF ex] assms(2)
    by (simp add: gas_accounted_def vm' step_rows_gas set_register_def unat_saturating_add)
qed

lemma vm_trans_replay:
  assumes "vm_wf vm" "replay s (trace vm) = Some (pc vm, registers vm, memory vm)"
    "vm_trans program vm vm'"
  shows "replay s (trace vm') = Some (pc vm', registers vm', memory vm')"
proof -
  obtain inst eff vm1 where 
    ex: "execute inst (registers vm ! unat (rs1 inst)) (registers vm ! unat (rs2 inst))
      (charged vm inst) = (Inr eff, vm1)"
    and vm': "vm' = (set_register 0 0 vm1)\<lparr>trace := trace vm @ step_rows inst (pc vm)
       (registers vm ! unat (rs1 inst)) (registers vm ! unat (rs2 inst)) eff (set_register 0 0 vm1)\<rparr>"
    using vm_transE [OF assms(3,1)] by metis
  have "replay (pc vm, registers vm, memory vm) (step_rows inst (pc vm)
       (registers vm ! unat (rs1 inst)) (registers vm ! unat (rs2 inst)) eff (set_register 0 0 vm1))
    = Some (next_pc eff, registers (set_register 0 0 vm1), memory vm1)"
    using replay_step_rows [OF ex] vm_wf_r0 [OF assms(1)] by simp
  then show ?thesis
    using execute_frame(1) [OF ex] assms(2) by (simp add: vm' replay_append set_register_def)
qed

interpretation vmrun: inductive_invariant "vm_trans program" "run_inv s" for program s
proof
  fix vm vm'
  assume "run_inv s vm" and tr: "vm_trans program vm vm'"
  then show "run_inv s vm'"
    using vm_trans_wf vm_trans_halt vm_trans_gas vm_trans_replay [OF _ _ tr]
    unfolding run_inv_def by blast
qed

section \<open>The run loop\<close>

lemma step_Inr_unit: "step vm program = (Inr u, vm') \<Longrightarrow> u = ()"
  by simp

lemma run_loop_halted: "halted vm \<Longrightarrow> run_loop program vm = Some (None, vm)"
  by (simp add: run_loop.simps)

lemma run_loop_error: "\<not> halted vm \<Longrightarrow> step vm program = (Inl e, vm') \<Longrightarrow> run_loop program vm = Some (Some e, vm')"
  by (simp add: run_loop.simps)

lemma run_loop_trans: "vm_trans program vm vm' \<Longrightarrow> run_loop program vm = run_loop program vm'"
  by (subst run_loop.simps) (simp add: vm_trans_def)

text \<open>What a returning loop has done: successful steps, then a halt or a failing step.\<close>

lemma run_loop_reaches:
  assumes "run_loop program vm = Some (err, vm')"
  shows "\<exists>vm1. (vm_trans program)\<^sup>*\<^sup>* vm vm1 \<and>
    (case err of None \<Rightarrow> halted vm1 \<and> vm' = vm1
               | Some e \<Rightarrow> \<not> halted vm1 \<and> step vm1 program = (Inl e, vm'))"
proof -
  let ?P = "\<lambda>program vm (err, vm'). \<exists>vm1. (vm_trans program)\<^sup>*\<^sup>* vm vm1 \<and>
    (case err of None \<Rightarrow> halted vm1 \<and> vm' = vm1
               | Some e \<Rightarrow> \<not> halted vm1 \<and> step vm1 program = (Inl e, vm'))"
  have "?P program vm (err, vm')"
  proof (rule run_loop.raw_induct [of ?P, OF _ assms])
    fix loop program vm r
    assume IH: "\<And>program vm r. loop program vm = Some r \<Longrightarrow> ?P program vm r"
      and eq: "(if halted vm then Some (None, vm)
        else case step vm program of (Inl e, vm') \<Rightarrow> Some (Some e, vm') | (Inr u, vm') \<Rightarrow> loop program vm') = Some r"
    show "?P program vm r"
    proof (cases "halted vm")
      case True
      then show ?thesis using eq by auto
    next
      case running: False
      obtain res vm2 where st: "step vm program = (res, vm2)" by fastforce
      show ?thesis
      proof (cases res)
        case (Inl e)
        then show ?thesis using eq running st by auto
      next
        case (Inr u)
        then have "vm_trans program vm vm2" "?P program vm2 r"
          using eq running st IH [of program vm2 r] by (simp_all add: vm_trans_def)
        then show ?thesis by (auto intro: converse_rtranclp_into_rtranclp)
      qed
    qed
  qed
  then show ?thesis by simp
qed

text \<open>Every instruction but \<open>Halt\<close> costs gas, so with a limit below the maximum the loop returns.\<close>

lemma gas_cost_positive: "op \<noteq> Op_Halt \<Longrightarrow> 0 < unat (gas_cost op)"
  by (cases op) simp_all

lemma step_Inr_gas:
  assumes "step vm program = (Inr u, vm')" "\<not> halted vm" "gas_limit vm \<noteq> - 1" "\<not> halted vm'"
  shows "gas_limit vm' = gas_limit vm" "unat (gas_used vm) < unat (gas_used vm')"
    "unat (gas_used vm') \<le> unat (gas_limit vm)"
proof -
  obtain inst eff vm1 where gas: "saturating_add (gas_used vm) (gas_cost (opcode inst)) \<le> gas_limit vm"
    and ex: "execute inst (operand1 vm inst) (operand2 vm inst) (charged vm inst) = (Inr eff, vm1)"
    and vm': "vm' = record_step inst (pc vm) (operand1 vm inst) (operand2 vm inst) eff vm1"
    using step_InrE [OF assms(1,2)] by metis
  have f: "gas_limit vm' = gas_limit vm1" "gas_used vm' = gas_used vm1" "halted vm' = halted vm1"
    by (simp_all add: vm' record_step_eq set_register_def)
  have "opcode inst \<noteq> Op_Halt" using execute_frame(9) [OF ex] assms(4) f by simp
  then show "gas_limit vm' = gas_limit vm" "unat (gas_used vm) < unat (gas_used vm')"
    "unat (gas_used vm') \<le> unat (gas_limit vm)"
    using execute_frame(2,3) [OF ex] f gas unat_saturating_bounded [OF gas assms(3)] gas_cost_positive
    by (simp_all add: word_le_nat_alt)
qed

lemma run_loop_returns: "gas_limit vm \<noteq> - 1 \<Longrightarrow> \<exists>r. run_loop program vm = Some r"
proof (induction "unat (gas_limit vm) - unat (gas_used vm)" arbitrary: vm rule: less_induct)
  case less
  show ?case
  proof (cases "halted vm")
    case running: False
    obtain res vm2 where st: "step vm program = (res, vm2)" by fastforce
    show ?thesis
    proof (cases res)
      case (Inr u)
      then have tr: "vm_trans program vm vm2" using st running by (simp add: vm_trans_def)
      show ?thesis
      proof (cases "halted vm2")
        case False
        have "step vm program = (Inr u, vm2)" using st Inr by simp
        note g = step_Inr_gas [OF this running less.prems False]
        have "\<exists>r. run_loop program vm2 = Some r"
          using less.hyps [of vm2] less.prems g by simp
        then show ?thesis using run_loop_trans [OF tr] by simp
      qed (simp add: run_loop_trans [OF tr] run_loop_halted)
    qed (simp add: run_loop_error [OF running] st)
  qed (simp add: run_loop_halted)
qed

end
