(* ===== verification/Vm_Props.thy ===== *)
theory Vm_Props
  imports Vm_Run
begin

text \<open>
  The correctness properties of the virtual machine, over the lemmas of the theories on single
  steps, Merkle paths and runs.
\<close>

section \<open>Finished runs\<close>

abbreviation fresh_image :: "usize \<Rightarrow> usize \<times> u64 list \<times> u8 list" where
  "fresh_image m \<equiv> (0, replicate 32 0, replicate (unat m) 0)"

lemma run_inv_fresh: "run_inv (fresh_image m) (with_mainnet_mode m limit b)"
  by (simp add: run_inv_def vm_wf_def halt_discipline_def gas_accounted_def with_mainnet_mode_def
      with_gas_limit_def)

lemma step_Inl_frame:
  assumes "step vm program = (Inl e, vm')"
  shows "\<not> halted vm" "registers vm' = (registers vm)[0 := 0]" "pc vm' = pc vm" "stack vm' = stack vm"
    "memory vm' = memory vm" "storage vm' = storage vm" "events vm' = events vm" "ctx vm' = ctx vm"
    "trace vm' = trace vm" "halted vm'" "gas_limit vm' = gas_limit vm" "error vm' = Some e"
    "state_writes vm' = state_writes vm" "mainnet_mode vm' = mainnet_mode vm"
    "gas_used vm \<le> gas_used vm'"
proof -
  have mono: "a \<le> saturating_add a b" for a b :: u64
    using u64_less [of a] by (simp add: word_le_nat_alt unat_saturating_add)
  show "\<not> halted vm" "registers vm' = (registers vm)[0 := 0]" "pc vm' = pc vm" "stack vm' = stack vm"
    "memory vm' = memory vm" "storage vm' = storage vm" "events vm' = events vm" "ctx vm' = ctx vm"
    "trace vm' = trace vm" "halted vm'" "gas_limit vm' = gas_limit vm" "error vm' = Some e"
    "state_writes vm' = state_writes vm" "mainnet_mode vm' = mainnet_mode vm"
    "gas_used vm \<le> gas_used vm'"
    using assms by (auto elim!: step_InlE simp: set_register_def mono)
qed

lemma run_loop_inv:
  assumes "run_inv s vm" "run_loop program vm = Some (err, vm')"
  obtains "err = None" "halted vm'" "run_inv s vm'"
  | e vm1 where "err = Some e" "run_inv s vm1" "\<not> halted vm1" "gas_limit vm1 = gas_limit vm'"
      "step vm1 program = (Inl e, vm')"
proof -
  obtain vm1 where reach: "(vm_trans program)\<^sup>*\<^sup>* vm vm1"
    and fin: "case err of None \<Rightarrow> halted vm1 \<and> vm' = vm1
               | Some e \<Rightarrow> \<not> halted vm1 \<and> step vm1 program = (Inl e, vm')"
    using run_loop_reaches [OF assms(2)] by blast
  have inv: "run_inv s vm1" by (rule vmrun.inv_reachable [OF reach assms(1)])
  show ?thesis
  proof (cases err)
    case None
    then show ?thesis using fin inv that(1) by simp
  next
    case (Some e)
    then show ?thesis using fin inv that(2) [of e vm1] step_Inl_frame(11) [of vm1 program e vm'] by simp
  qed
qed

lemma replay_halt_row:
  assumes "vm_wf vm"
  shows "replay (pc vm, registers vm, memory vm) [halt_row vm] = Some (pc vm, registers vm, memory vm)"
  using assms
  by (simp add: halt_row_def step_row_def plain_effect_def operands_match_def registers_after_def
      memory_matches_def memory_after_def writes_rd_def is_expansion_def row_opcode_def vm_wf_def)

text \<open>The state after a failing step, with its synthetic \<open>Halt\<close> row.\<close>

lemma terminate_after_error:
  assumes inv: "run_inv s vm1" and st: "step vm1 program = (Inl e, vm')"
  shows "terminate_trace (Some e) vm' = vm'\<lparr>trace := trace vm1 @ [halt_row vm1]\<rparr>"
    and "replay s (trace vm1 @ [halt_row vm1]) = Some (pc vm', registers vm', memory vm')"
    and "trace_ends_with_halt (trace vm1 @ [halt_row vm1])"
proof -
  note fr = step_Inl_frame [OF st]
  have wf: "vm_wf vm1" and rp: "replay s (trace vm1) = Some (pc vm1, registers vm1, memory vm1)"
    and no_halt: "list_all (\<lambda>r. \<not> is_halt_row r) (trace vm1)"
    using inv fr(1) by (simp_all add: run_inv_def halt_discipline_def)
  have regs: "registers vm' = registers vm1" using fr(2) vm_wf_r0 [OF wf] by simp
  have row: "halt_row vm' = halt_row vm1" by (simp add: halt_row_def step_row_def regs fr)
  have "\<not> (trace vm1 \<noteq> [] \<and> opcode (row_instruction (last (trace vm1))) = Op_Halt)"
    using no_halt by (auto simp: list_all_iff is_halt_row_def row_opcode_def)
  then show "terminate_trace (Some e) vm' = vm'\<lparr>trace := trace vm1 @ [halt_row vm1]\<rparr>"
    by (simp add: terminate_trace_def Let_def fr row)
  show "replay s (trace vm1 @ [halt_row vm1]) = Some (pc vm', registers vm', memory vm')"
    using rp replay_halt_row [OF wf] by (simp add: replay_append regs fr del: replay.simps)
  show "trace_ends_with_halt (trace vm1 @ [halt_row vm1])"
    using no_halt by (simp add: trace_ends_with_halt_def is_halt_row_def row_opcode_def halt_row_def step_row_def)
qed

lemma run_receipt_returns:
  assumes "gas_limit vm \<noteq> - 1"
  obtains rc vm' where "run_receipt vm program = Some (rc, vm')"
  using run_loop_returns [OF assms, of program]
  by (fastforce simp: run_receipt_def Let_def split: prod.splits)

lemma run_receipt_trace:
  assumes "run_inv s vm" "run_receipt vm program = Some (rc, vm')"
  shows "replay s (trace vm') = Some (pc vm', registers vm', memory vm') \<and> trace_ends_with_halt (trace vm')"
proof -
  obtain err vm2 where loop: "run_loop program vm = Some (err, vm2)" and vm': "vm' = terminate_trace err vm2"
    using assms(2) by (auto simp: run_receipt_def Let_def split: option.splits)
  show ?thesis
  proof (rule run_loop_inv [OF assms(1) loop])
    assume "err = None" "halted vm2" "run_inv s vm2"
    then show ?thesis by (simp add: vm' terminate_trace_def run_inv_def halt_discipline_def)
  next
    fix e vm1
    assume "err = Some e" "run_inv s vm1" "step vm1 program = (Inl e, vm2)"
    then show ?thesis using terminate_after_error [of s vm1 program e vm2] by (simp add: vm')
  qed
qed

text \<open>C2: with a gas limit below the maximum, every run of a fresh machine on every program returns a
  receipt, and the trace it leaves is a complete account of the execution: replaying the trace's
  program-counter, operand, register and memory columns from the initial state is consistent at
  every row and ends in the machine's final program counter, registers and memory, and the trace
  ends in its only \<open>Halt\<close> row.\<close>

theorem run_trace_sound:
  "limit \<noteq> - 1 \<Longrightarrow>
   \<exists>rc vm'. run_receipt (with_mainnet_mode m limit b) program = Some (rc, vm') \<and>
     replay (0, replicate 32 0, replicate (unat m) 0) (trace vm') = Some (pc vm', registers vm', memory vm') \<and>
     trace_ends_with_halt (trace vm')"
proof -
  assume "limit \<noteq> - 1"
  then have "gas_limit (with_mainnet_mode m limit b) \<noteq> - 1"
    by (simp add: with_mainnet_mode_def with_gas_limit_def)
  then obtain rc vm' where "run_receipt (with_mainnet_mode m limit b) program = Some (rc, vm')"
    by (rule run_receipt_returns)
  then show ?thesis using run_receipt_trace [OF run_inv_fresh] by blast
qed

theorem run_trace_sound_witness:
  "\<exists>rc vm'. run_receipt (with_mainnet_mode 4096 1000000 False) [0x3000114, 0] = Some (rc, vm') \<and>
     replay (0, replicate 32 0, replicate (unat (4096::usize)) 0) (trace vm')
       = Some (pc vm', registers vm', memory vm') \<and>
     trace_ends_with_halt (trace vm')"
  by (rule run_trace_sound) simp

section \<open>Gas\<close>

lemma run_inv_gas:
  assumes "run_inv s vm"
  shows "unat (gas_used vm) = min (2 ^ 64 - 1) (sum_list (map row_gas (trace vm)))" "gas_used vm \<le> gas_limit vm"
    and "gas_limit vm \<noteq> - 1 \<Longrightarrow> sum_list (map row_gas (trace vm)) \<le> unat (gas_limit vm)"
proof -
  show g: "unat (gas_used vm) = min (2 ^ 64 - 1) (sum_list (map row_gas (trace vm)))" "gas_used vm \<le> gas_limit vm"
    using assms by (simp_all add: run_inv_def gas_accounted_def vm_wf_def)
  assume "gas_limit vm \<noteq> - 1"
  then have "gas_limit vm < - 1" by (simp add: word_order.not_eq_extremum)
  then have "unat (gas_limit vm) < 2 ^ 64 - 1" by (simp add: word_less_nat_alt unat_max_word)
  then show "sum_list (map row_gas (trace vm)) \<le> unat (gas_limit vm)" using g by (simp add: word_le_nat_alt)
qed

lemma reach_gas_limit: "(vm_trans program)\<^sup>*\<^sup>* vm vm1 \<Longrightarrow> gas_limit vm1 = gas_limit vm"
proof (induction rule: rtranclp_induct)
  case (step vm1 vm2)
  then have "step vm1 program = (Inr (), vm2)" "\<not> halted vm1" by (simp_all add: vm_trans_def)
  then obtain inst eff vm3
    where "execute inst (operand1 vm1 inst) (operand2 vm1 inst) (charged vm1 inst) = (Inr eff, vm3)"
      and "vm2 = record_step inst (pc vm1) (operand1 vm1 inst) (operand2 vm1 inst) eff vm3"
    by (metis step_InrE)
  then show ?case using step.IH execute_frame(3) by (simp add: record_step_eq set_register_def)
qed simp

lemma step_Inl_gas:
  assumes "step vm program = (Inl e, vm')" "gas_used vm \<le> gas_limit vm"
  shows "e = OutOfGas \<longleftrightarrow> gas_used vm' > gas_limit vm"
proof -
  have execute_not_oog: "execute inst a b v \<noteq> (Inl OutOfGas, v')" for inst a b v v'
    by (cases "opcode inst") (auto simp: execute_def exec_defs split: if_splits option.splits)
  have "e = OutOfGas \<Longrightarrow> gas_used vm' > gas_limit vm"
    using assms(1) by (auto elim!: step_InlE simp: execute_not_oog)
  moreover have "gas_used vm' > gas_limit vm \<Longrightarrow> e = OutOfGas"
    using assms by (auto elim!: step_InlE simp: set_register_def)
  ultimately show ?thesis by blast
qed

text \<open>The cost of the instruction at the program counter, which a failing step has charged before it
  failed; nothing is charged for a program counter outside the program or a word that does not decode.\<close>

definition pending_gas :: "u64 list \<Rightarrow> vm \<Rightarrow> nat" where
  "pending_gas program vm =
     (if unat (pc vm) < length program then
        (case decode_instruction (program ! unat (pc vm)) (mainnet_mode vm) of
           Inl _ \<Rightarrow> 0 | Inr inst \<Rightarrow> unat (gas_cost (opcode inst)))
      else 0)"

lemma step_Inl_pending:
  assumes "step vm program = (Inl e, vm')"
  shows "unat (gas_used vm') = min (2 ^ 64 - 1) (unat (gas_used vm) + pending_gas program vm')"
proof -
  have "unat (gas_used vm) \<le> 2 ^ 64 - 1" using u64_less [of "gas_used vm"] by simp
  then show ?thesis using assms
    by (auto elim!: step_InlE simp: pending_gas_def set_register_def unat_saturating_add)
qed

text \<open>C8: every receipt's gas figure is exact.  Whatever the outcome and the limit, it is the sum of the
  costs of the instructions recorded in the trace (the prover's expansion rows and the closing \<open>Halt\<close>
  row are free), plus, when the run failed, the cost of the instruction that failed if that one could
  be fetched and decoded, saturating at the largest word.  The recorded instructions fit in a limit
  below the maximum, and the figure exceeds the limit exactly when the run failed with \<open>OutOfGas\<close>.\<close>

theorem run_gas_exact:
  assumes "run_receipt (with_mainnet_mode m limit b) program = Some (rc, vm')"
  shows "unat (receipt_gas_used rc) = min (2 ^ 64 - 1)
      (sum_list (map row_gas (trace vm')) + (if success rc then 0 else pending_gas program vm')) \<and>
    (limit \<noteq> - 1 \<longrightarrow> sum_list (map row_gas (trace vm')) \<le> unat limit) \<and>
    (receipt_error rc = Some OutOfGas \<longleftrightarrow> receipt_gas_used rc > limit)"
proof -
  let ?vm = "with_mainnet_mode m limit b"
  have lim: "gas_limit ?vm = limit" by (simp add: with_mainnet_mode_def with_gas_limit_def)
  obtain err vm2 where loop: "run_loop program ?vm = Some (err, vm2)" and vm': "vm' = terminate_trace err vm2"
    and rc: "receipt_gas_used rc = gas_used vm'" "receipt_error rc = err" "success rc = (err = None)"
    using assms by (auto simp: run_receipt_def Let_def split: option.splits)
  have lim2: "gas_limit vm2 = limit"
    using run_loop_reaches [OF loop] reach_gas_limit step_Inl_frame(11)
    by (fastforce simp: lim split: option.splits)
  show ?thesis
  proof (rule run_loop_inv [OF run_inv_fresh loop])
    assume "err = None" "run_inv (fresh_image m) vm2"
    then show ?thesis using run_inv_gas [of "fresh_image m" vm2]
      by (simp add: rc vm' terminate_trace_def lim2 not_less)
  next
    fix e vm1
    assume *: "err = Some e" "run_inv (fresh_image m) vm1" "gas_limit vm1 = gas_limit vm2"
      "step vm1 program = (Inl e, vm2)"
    note g = run_inv_gas [OF *(2), unfolded *(3) lim2]
    have "row_gas (halt_row vm1) = 0"
      by (simp add: row_gas_def halt_row_def step_row_def row_opcode_def is_expansion_def)
    then have "sum_list (map row_gas (trace vm')) = sum_list (map row_gas (trace vm1))"
        "gas_used vm' = gas_used vm2" "pending_gas program vm' = pending_gas program vm2"
      using terminate_after_error(1) [OF *(2,4)] *(1) by (simp_all add: vm' pending_gas_def)
    moreover have "e = OutOfGas \<longleftrightarrow> gas_used vm2 > limit"
      using step_Inl_gas [OF *(4)] g(2) *(3) lim2 by simp
    ultimately show ?thesis
      using step_Inl_pending [OF *(4)] g *(1) by (simp add: rc)
  qed
qed

text \<open>Two programs: \<open>Load r1, #6; Halt\<close> runs to success, and \<open>Load r1, #6; Assert r2\<close> fails in its
  second instruction, with the costs of both in the figure.\<close>

lemma load_halt_succeeds:
  "map_option (\<lambda>(rc, vm). success rc) (run_receipt (with_mainnet_mode 64 100 False) [0x3000114, 0]) = Some True"
  by code_simp

lemma load_assert_fails:
  "map_option (\<lambda>(rc, vm). (success rc, receipt_error rc, sum_list (map row_gas (trace vm)),
      pending_gas [0x3000114, 0x4018] vm)) (run_receipt (with_mainnet_mode 64 100 False) [0x3000114, 0x4018])
   = Some (False, Some AssertionFailed, 3, 1)"
  by code_simp

theorem run_gas_exact_witness:
  "\<exists>rc vm'. run_receipt (with_mainnet_mode 64 100 False) [0x3000114, 0x4018] = Some (rc, vm') \<and>
     receipt_error rc = Some AssertionFailed \<and> unat (receipt_gas_used rc) = 4"
proof -
  obtain rc vm' where "run_receipt (with_mainnet_mode 64 100 False) [0x3000114, 0x4018] = Some (rc, vm')"
      "\<not> success rc" "receipt_error rc = Some AssertionFailed" "sum_list (map row_gas (trace vm')) = 3"
      "pending_gas [0x3000114, 0x4018] vm' = 1"
    using load_assert_fails by auto
  then show ?thesis using run_gas_exact [of 64 100 False "[0x3000114, 0x4018]" rc vm'] by simp
qed

lemma steps_bounded:
  assumes "(vm_trans program ^^ n) vm vm'" "gas_limit vm \<noteq> - 1" "gas_used vm \<le> gas_limit vm"
  shows "gas_limit vm' = gas_limit vm \<and> gas_used vm' \<le> gas_limit vm \<and>
    unat (gas_used vm) + n \<le> unat (gas_used vm') + (if halted vm' then 1 else 0)"
  using assms
proof (induction n arbitrary: vm')
  case (Suc n)
  then obtain vm1 where pre: "(vm_trans program ^^ n) vm vm1" and tr: "vm_trans program vm1 vm'" by auto
  from Suc.IH [OF pre Suc.prems(2,3)] tr
  have IH: "gas_limit vm1 = gas_limit vm" "unat (gas_used vm) + n \<le> unat (gas_used vm1)"
    by (simp_all add: vm_trans_def)
  have st: "step vm1 program = (Inr (), vm')" "\<not> halted vm1" using tr by (simp_all add: vm_trans_def)
  obtain inst eff vm2 where gas: "saturating_add (gas_used vm1) (gas_cost (opcode inst)) \<le> gas_limit vm1"
    and ex: "execute inst (operand1 vm1 inst) (operand2 vm1 inst) (charged vm1 inst) = (Inr eff, vm2)"
    and vm': "vm' = record_step inst (pc vm1) (operand1 vm1 inst) (operand2 vm1 inst) eff vm2"
    using step_InrE [OF st] by metis
  have "gas_used vm' = saturating_add (gas_used vm1) (gas_cost (opcode inst))" "gas_limit vm' = gas_limit vm"
    "halted vm' \<longleftrightarrow> opcode inst = Op_Halt"
    using execute_frame(2,3,9) [OF ex] st(2) by (simp_all add: vm' record_step_eq set_register_def IH)
  then show ?case
    using gas IH gas_cost_positive [of "opcode inst"] unat_saturating_bounded [OF gas] Suc.prems(2)
    by auto
qed simp

text \<open>C12: execution is bounded by the gas limit: below the maximal limit no run takes more than
  \<open>limit + 1\<close> steps, the last of which can only be a \<open>Halt\<close>.\<close>

theorem run_steps_bounded:
  assumes "(vm_trans program ^^ n) (with_mainnet_mode m limit b) vm'" and "limit \<noteq> - 1"
  shows "n \<le> unat limit + 1"
proof -
  have "gas_used vm' \<le> limit" "n \<le> unat (gas_used vm') + 1"
    using steps_bounded [OF assms(1)] assms(2)
    by (auto simp: with_mainnet_mode_def with_gas_limit_def split: if_splits)
  then show ?thesis by (simp add: word_le_nat_alt)
qed

theorem run_steps_bounded_witness:
  "\<exists>vm'. (vm_trans [0x3000114, 0] ^^ 2) (with_mainnet_mode 64 100 False) vm' \<and> 2 \<le> unat (100 :: u64) + 1"
proof -
  let ?vm = "with_mainnet_mode 64 100 False" and ?prog = "[0x3000114, 0] :: u64 list"
  let ?vm1 = "snd (step ?vm ?prog)"
  have "fst (step ?vm ?prog) = Inr () \<and> \<not> halted ?vm \<and> fst (step ?vm1 ?prog) = Inr () \<and> \<not> halted ?vm1"
    by code_simp
  then have "vm_trans ?prog ?vm ?vm1" "vm_trans ?prog ?vm1 (snd (step ?vm1 ?prog))"
    by (simp_all add: vm_trans_def prod_eq_iff)
  then have "(vm_trans ?prog ^^ 2) ?vm (snd (step ?vm1 ?prog))" by (auto simp: numeral_2_eq_2)
  then show ?thesis using run_steps_bounded by fastforce
qed

text \<open>The one-instruction program that jumps to itself.\<close>

definition spin :: "u64 list" where
  "spin = [encode \<lparr>opcode = Op_Jmp, rd = 0, rs1 = 0, rs2 = 0, imm = 0\<rparr>]"

lemma spin_step:
  assumes "\<not> halted vm" "pc vm = 0" "gas_limit vm = - 1" "\<not> mainnet_mode vm"
  shows "\<exists>vm'. step vm spin = (Inr (), vm') \<and> \<not> halted vm' \<and> pc vm' = 0 \<and> gas_limit vm' = - 1 \<and>
    \<not> mainnet_mode vm'"
proof -
  let ?i = "\<lparr>opcode = Op_Jmp, rd = 0, rs1 = 0, rs2 = 0, imm = 0\<rparr>"
  have dec: "decode_instruction (spin ! 0) False = Inr ?i"
    by (simp add: decode_instruction_def spin_def decode_any_encode encodable_def)
  have ex: "execute ?i a b (charged vm ?i) = (Inr (plain_effect 0 0), charged vm ?i)" for a b
    using assms(2) by (simp add: execute_def exec_jmp_def jump_target_def Let_def charged_def set_register_def)
  have len: "length spin = 1" by (simp add: spin_def)
  have gas: "\<not> - 1 < g" for g :: u64 by (simp add: word_order.extremum_strict)
  have "step vm spin = (Inr (), record_step ?i 0 (operand1 vm ?i) (operand2 vm ?i) (plain_effect 0 0) (charged vm ?i))"
    unfolding step_running [OF assms(1)] assms(2,3) using assms(4) dec
    by (simp add: ex len gas del: instruction.simps)
  then show ?thesis using assms by (simp add: record_step_eq set_register_def)
qed

text \<open>The bound needs its hypothesis: the gas counter saturates, so at the maximal limit it never
  exceeds the limit and a program that jumps to itself runs for ever.\<close>

theorem unmetered_run_diverges: "run_receipt (with_gas_limit m (- 1)) spin = None"
proof -
  have loops: "\<not> (\<not> halted vm \<and> pc vm = 0 \<and> gas_limit vm = - 1 \<and> \<not> mainnet_mode vm)"
    if "run_loop spin vm = Some r" for vm r
  proof -
    let ?P = "\<lambda>program vm r. program = spin \<longrightarrow>
      \<not> (\<not> halted vm \<and> pc vm = 0 \<and> gas_limit vm = - 1 \<and> \<not> mainnet_mode vm)"
    have "?P spin vm r"
    proof (rule run_loop.raw_induct [of ?P, OF _ that])
      fix loop program vm r
      assume "\<And>program vm r. loop program vm = Some r \<Longrightarrow> ?P program vm r"
        and "(if halted vm then Some (None, vm) else case step vm program of
               (Inl e, vm') \<Rightarrow> Some (Some e, vm') | (Inr u, vm') \<Rightarrow> loop program vm') = Some r"
      note * = this
      show "?P program vm r"
      proof (rule impI, rule notI)
        assume p: "program = spin" and l: "\<not> halted vm \<and> pc vm = 0 \<and> gas_limit vm = - 1 \<and> \<not> mainnet_mode vm"
        then obtain vm' where st: "step vm spin = (Inr (), vm')"
          and l': "\<not> halted vm' \<and> pc vm' = 0 \<and> gas_limit vm' = - 1 \<and> \<not> mainnet_mode vm'"
          using spin_step [of vm] by blast
        have "loop spin vm' = Some r" using *(2) p l st by simp
        from *(1) [OF this] l' show False by simp
      qed
    qed
    then show ?thesis by simp
  qed
  have "run_loop spin (with_gas_limit m (- 1)) = None"
    using loops [of "with_gas_limit m (- 1)"] by (cases "run_loop spin (with_gas_limit m (- 1))")
      (auto simp: with_gas_limit_def)
  then show ?thesis by (simp add: run_receipt_def)
qed

section \<open>Steps\<close>

text \<open>C13: a failing step is atomic up to its gas.  Whatever the error, the machine that comes back differs
  from the machine that went in only by \<open>halted\<close>, \<open>error\<close>, the gas counter (which never decreases) and
  a cleared \<open>r0\<close>; in particular no row is added to the trace.\<close>

theorem step_error_atomic:
  assumes "step vm program = (Inl e, vm')"
  shows "vm' = vm\<lparr>registers := (registers vm)[0 := 0], halted := True, gas_used := gas_used vm',
    error := Some e\<rparr> \<and> gas_used vm \<le> gas_used vm'"
  using step_Inl_frame [OF assms] by (cases vm, cases vm') simp

theorem step_error_atomic_witness:
  "\<exists>vm'. step (with_gas_limit 0 1) [0x113] = (Inl OutOfGas, vm') \<and> trace vm' = [] \<and> gas_used vm' = 2"
proof -
  have "fst (step (with_gas_limit 0 1) [0x113]) = Inl OutOfGas \<and> gas_used (snd (step (with_gas_limit 0 1) [0x113])) = 2"
    by code_simp
  then obtain vm' where vm': "step (with_gas_limit 0 1) [0x113] = (Inl OutOfGas, vm')" "gas_used vm' = 2"
    by (metis prod.collapse)
  have "trace vm' = trace (with_gas_limit 0 1)"
    by (subst conjunct1 [OF step_error_atomic [OF vm'(1)]]) simp
  with vm' show ?thesis by (simp add: with_gas_limit_def)
qed

lemma step_Inr_shape:
  assumes "step vm program = (Inr u, vm')" "length (registers vm) = 32" "length (stack vm) \<le> 1024"
  shows "length (registers vm') = 32 \<and> registers vm' ! 0 = 0 \<and> length (stack vm') \<le> 1024 \<and>
    length (memory vm') = length (memory vm) \<and> gas_limit vm' = gas_limit vm \<and>
    mainnet_mode vm' = mainnet_mode vm"
proof (cases "halted vm")
  case True
  then show ?thesis using assms by (auto simp: set_register_def)
next
  case False
  obtain inst eff vm1
    where ex: "execute inst (operand1 vm inst) (operand2 vm inst) (charged vm inst) = (Inr eff, vm1)"
      and "vm' = record_step inst (pc vm) (operand1 vm inst) (operand2 vm inst) eff vm1"
    using step_InrE [OF assms(1) False] by metis
  then show ?thesis
    using execute_frame [OF ex] execute_memory_length [OF ex] execute_stack_bound [OF ex] assms(2,3)
    by (simp add: record_step_eq set_register_def)
qed

text \<open>Every step, successful or not, keeps the machine's resources in shape: 32 registers with
  \<open>r0 = 0\<close>, at most 1024 words on the stack, a memory of unchanged size, and unchanged gas limit
  and network mode.\<close>

theorem step_keeps_shape:
  assumes "step vm program = (res, vm')" "length (registers vm) = 32" "length (stack vm) \<le> 1024"
  shows "length (registers vm') = 32 \<and> registers vm' ! 0 = 0 \<and> length (stack vm') \<le> 1024 \<and>
    length (memory vm') = length (memory vm) \<and> gas_limit vm' = gas_limit vm \<and>
    mainnet_mode vm' = mainnet_mode vm"
proof (cases res)
  case (Inl e)
  then show ?thesis using step_Inl_frame [of vm program e vm'] assms by simp
next
  case (Inr u)
  then show ?thesis using step_Inr_shape assms by metis
qed

theorem step_keeps_shape_witness:
  "length (memory (snd (step (with_gas_limit 64 100) [0x3000114]))) = 64"
  using step_keeps_shape [of "with_gas_limit 64 100" "[0x3000114]" "fst (step (with_gas_limit 64 100) [0x3000114])"
      "snd (step (with_gas_limit 64 100) [0x3000114])"]
  by (simp add: with_gas_limit_def)

section \<open>The mainnet gate\<close>

definition gated :: "opcode \<Rightarrow> bool" where
  "gated op \<longleftrightarrow> op \<in> {Op_VerifyMerkle, Op_VerifyInference}"

lemma decode_mainnet_not_gated: "decode_instruction raw True = Inr inst \<Longrightarrow> \<not> gated (opcode inst)"
  by (simp add: decode_instruction_def decode_for_mainnet_Inr allows_default gated_def)

lemma step_rows_not_gated:
  "\<not> gated (opcode inst) \<Longrightarrow> step_rows inst c a b eff vm = [step_row inst c a b eff vm]"
  by (simp add: step_rows_def merkle_block_def merkle_fires_def inference_fires_def gated_def Let_def)

definition mainnet_inv :: "vm \<Rightarrow> bool" where
  "mainnet_inv vm \<longleftrightarrow> vm_wf vm \<and> mainnet_mode vm \<and>
     list_all (\<lambda>r. \<not> gated (row_opcode r) \<and> \<not> is_expansion r) (trace vm)"

interpretation vmgate: inductive_invariant "vm_trans program" mainnet_inv for program
proof
  fix vm vm'
  assume inv: "mainnet_inv vm" and tr: "vm_trans program vm vm'"
  then have wf: "vm_wf vm" by (simp add: mainnet_inv_def)
  obtain inst eff vm1
    where dec: "decode_instruction (program ! unat (pc vm)) (mainnet_mode vm) = Inr inst"
      and ex: "execute inst (registers vm ! unat (rs1 inst)) (registers vm ! unat (rs2 inst))
        (charged vm inst) = (Inr eff, vm1)"
      and vm': "vm' = (set_register 0 0 vm1)\<lparr>trace := trace vm @ step_rows inst (pc vm)
       (registers vm ! unat (rs1 inst)) (registers vm ! unat (rs2 inst)) eff (set_register 0 0 vm1)\<rparr>"
    using vm_transE [OF tr wf] by metis
  have ng: "\<not> gated (opcode inst)" using dec inv decode_mainnet_not_gated by (simp add: mainnet_inv_def)
  have "mainnet_mode vm1 = mainnet_mode vm" using execute_frame(5) [OF ex] by simp
  then show "mainnet_inv vm'"
    using inv ng vm_trans_wf [OF wf tr]
    by (simp add: mainnet_inv_def vm' step_rows_not_gated set_register_def)
      (simp add: step_row_def row_opcode_def is_expansion_def)
qed

text \<open>C11: a mainnet machine never executes \<open>VerifyMerkle\<close> or \<open>VerifyInference\<close>: whatever the program, no
  reachable state has such an instruction, or an expansion row, in its trace.\<close>

theorem mainnet_never_executes_gated:
  assumes "(vm_trans program)\<^sup>*\<^sup>* (with_mainnet_mode m limit True) vm"
  shows "list_all (\<lambda>r. row_opcode r \<noteq> Op_VerifyMerkle \<and> row_opcode r \<noteq> Op_VerifyInference \<and> \<not> is_expansion r)
    (trace vm)"
proof -
  have "mainnet_inv (with_mainnet_mode m limit True)"
    by (simp add: mainnet_inv_def vm_wf_def with_mainnet_mode_def with_gas_limit_def)
  then have "mainnet_inv vm" by (rule vmgate.inv_reachable [OF assms])
  then show ?thesis by (simp add: mainnet_inv_def gated_def list_all_iff)
qed

theorem mainnet_never_executes_gated_witness:
  "\<exists>vm. (vm_trans [0x3000114, 0])\<^sup>*\<^sup>* (with_mainnet_mode 64 100 True) vm \<and> length (trace vm) = 1 \<and>
     list_all (\<lambda>r. row_opcode r \<noteq> Op_VerifyMerkle \<and> row_opcode r \<noteq> Op_VerifyInference \<and> \<not> is_expansion r)
       (trace vm)"
proof -
  let ?vm = "with_mainnet_mode 64 100 True" and ?prog = "[0x3000114, 0] :: u64 list"
  have "fst (step ?vm ?prog) = Inr () \<and> \<not> halted ?vm \<and> length (trace (snd (step ?vm ?prog))) = 1"
    by code_simp
  then have "vm_trans ?prog ?vm (snd (step ?vm ?prog))" "length (trace (snd (step ?vm ?prog))) = 1"
    by (simp_all add: vm_trans_def prod_eq_iff)
  then show ?thesis using mainnet_never_executes_gated [of ?prog 64 100] by (meson r_into_rtranclp)
qed

section \<open>Storage and the write log\<close>

definition apply_writes :: "(i32 \<times> u64) list \<Rightarrow> (i32 \<rightharpoonup> u64) \<Rightarrow> i32 \<rightharpoonup> u64" where
  "apply_writes ws st = fold (\<lambda>(slot, val) m. m(slot \<mapsto> val)) ws st"

definition log_inv :: "vm \<Rightarrow> bool" where
  "log_inv vm \<longleftrightarrow> storage vm = apply_writes (state_writes vm) Map.empty"

lemma execute_log:
  assumes "execute inst a b vm = (Inr eff, vm')" "log_inv vm"
  shows "log_inv vm'"
proof (cases "opcode inst = Op_SWrite")
  case True
  then show ?thesis using assms
    by (auto simp: execute_def exec_swrite_def finish_plain_def Let_def log_inv_def apply_writes_def)
next
  case False
  then show ?thesis using execute_storage_same [OF assms(1)] assms(2) by (simp add: log_inv_def)
qed

interpretation vmlog: inductive_invariant "vm_trans program" log_inv for program
proof
  fix vm vm'
  assume inv: "log_inv vm" and tr: "vm_trans program vm vm'"
  obtain inst eff vm1
    where ex: "execute inst (operand1 vm inst) (operand2 vm inst) (charged vm inst) = (Inr eff, vm1)"
      and "vm' = record_step inst (pc vm) (operand1 vm inst) (operand2 vm inst) eff vm1"
    using tr step_InrE unfolding vm_trans_def by metis
  then show "log_inv vm'"
    using execute_log [OF ex] inv by (simp add: log_inv_def record_step_eq set_register_def)
qed

lemma writes_digest_length: "length (writes_digest ws) = 32"
  by (simp add: writes_digest_def Let_def length_concat upt_rec)

text \<open>C10: the receipt commits to the storage.  After any returning run the storage is exactly what the
  logged writes produce, in order, from empty storage, and the 32-byte digest in the receipt is the
  digest of that log.\<close>

theorem receipt_commits_to_storage:
  assumes "run_receipt (with_mainnet_mode m limit b) program = Some (rc, vm')"
  shows "storage vm' = apply_writes (state_writes vm') Map.empty \<and>
    state_writes_digest rc = writes_digest (state_writes vm') \<and> length (state_writes_digest rc) = 32"
proof -
  let ?vm = "with_mainnet_mode m limit b"
  obtain err vm2 where loop: "run_loop program ?vm = Some (err, vm2)" and vm': "vm' = terminate_trace err vm2"
    and dig: "state_writes_digest rc = writes_digest (state_writes vm')"
    using assms by (auto simp: run_receipt_def Let_def split: option.splits)
  obtain vm1 where reach: "(vm_trans program)\<^sup>*\<^sup>* ?vm vm1"
    and fin: "case err of None \<Rightarrow> halted vm1 \<and> vm2 = vm1
               | Some e \<Rightarrow> \<not> halted vm1 \<and> step vm1 program = (Inl e, vm2)"
    using run_loop_reaches [OF loop] by blast
  have "log_inv ?vm" by (simp add: log_inv_def apply_writes_def with_mainnet_mode_def with_gas_limit_def)
  then have "log_inv vm1" by (rule vmlog.inv_reachable [OF reach])
  then have "log_inv vm2" using fin step_Inl_frame(6,13) by (auto simp: log_inv_def split: option.splits)
  then show ?thesis using dig
    by (auto simp: log_inv_def vm' terminate_trace_def Let_def writes_digest_length)
qed

theorem receipt_commits_to_storage_witness:
  "\<exists>rc vm'. run_receipt (with_mainnet_mode 64 100 False) [0x3000114, 0] = Some (rc, vm') \<and>
     state_writes_digest rc = writes_digest (state_writes vm')"
proof -
  obtain rc vm' where "run_receipt (with_mainnet_mode 64 100 False) [0x3000114, 0] = Some (rc, vm')"
    using load_halt_succeeds by auto
  then show ?thesis using receipt_commits_to_storage by blast
qed

section \<open>Memory and arithmetic instructions\<close>

text \<open>A word stored is the word loaded: after a successful \<open>Store\<close>, a register-addressed \<open>Load\<close> whose base
  and displacement give the same address succeeds, reads the stored word and leaves memory alone,
  and a \<open>Load\<close> of a disjoint word reads what was there before.\<close>

theorem store_then_load:
  assumes "opcode st = Op_Store" "opcode ld = Op_Load" "rs1 ld \<noteq> 0"
    and "execute st a v vm = (Inr eff, vm1)" and "memory_word_addr a (imm st) (length (memory vm)) = Some p"
    and "memory_word_addr c (imm ld) (length (memory vm)) = Some q"
  shows "\<exists>eff2 vm2. execute ld c w vm1 = (Inr eff2, vm2) \<and> memory vm2 = memory vm1 \<and>
    (q = p \<longrightarrow> dst_val eff2 = v) \<and>
    (unat q + 8 \<le> unat p \<or> unat p + 8 \<le> unat q \<longrightarrow> dst_val eff2 = read_u64 (memory vm) q)"
proof -
  have b: "unat p + 8 \<le> length (memory vm)" "unat q + 8 \<le> length (memory vm)"
    using assms(5,6) by (simp_all add: memory_word_addr_Some)
  have m1: "memory vm1 = copy_from_slice (unat p) (to_le_bytes v) (memory vm)"
    using assms(1,4,5) by (auto simp: execute_def exec_store_def Let_def)
  have "memory_word_addr c (imm ld) (length (memory vm1)) = Some q" using assms(6) b by (simp add: m1)
  then show ?thesis
    using assms(2,3) b read_after_write [of p "memory vm" v] read_u64_disjoint [of p "memory vm" q v]
    by (auto simp: execute_def exec_load_def Let_def set_register_def m1)
qed

theorem store_then_load_witness:
  "\<exists>eff2 vm2. execute \<lparr>opcode = Op_Load, rd = 3, rs1 = 1, rs2 = 0, imm = 8\<rparr> 16 0
      (snd (execute \<lparr>opcode = Op_Store, rd = 0, rs1 = 1, rs2 = 2, imm = 8\<rparr> 16 77 (with_gas_limit 64 100)))
    = (Inr eff2, vm2) \<and> dst_val eff2 = 77"
proof -
  let ?st = "\<lparr>opcode = Op_Store, rd = 0, rs1 = 1, rs2 = 2, imm = 8\<rparr> :: instruction"
  let ?ld = "\<lparr>opcode = Op_Load, rd = 3, rs1 = 1, rs2 = 0, imm = 8\<rparr> :: instruction"
  let ?r = "execute ?st 16 77 (with_gas_limit 64 100)"
  have "memory_word_addr 16 8 (length (memory (with_gas_limit 64 100))) = Some 24"
    by (simp add: memory_word_addr_Some with_gas_limit_def)
  moreover have "?r = (Inr (projr (fst ?r)), snd ?r)"
    using calculation by (simp add: execute_def exec_store_def Let_def)
  ultimately show ?thesis
    using store_then_load [of ?st ?ld 16 77 "with_gas_limit 64 100" "projr (fst ?r)" "snd ?r" 24 16 24 0] by auto
qed

text \<open>The \<open>Div\<close> instruction divides in the Goldilocks field: for canonical operands and a non-zero divisor
  it returns the one canonical word whose product with the divisor is the dividend, and division by
  zero returns zero.\<close>

theorem div_is_field_division:
  assumes "canonical a" "canonical b" "b \<noteq> 0" "canonical q"
  shows "(arith_result Op_Div a b = Some q \<longleftrightarrow> field_mul_goldilocks q b = a) \<and>
    arith_result Op_Div a 0 = Some 0"
proof -
  have "arith_result Op_Div a b = Some (field_mul_goldilocks a (field_inverse_goldilocks b))"
    using assms(3) by (simp add: field_mul_goldilocks_def)
  then show ?thesis using gf.div_unique [OF assms] by auto
qed

theorem div_is_field_division_witness: "arith_result Op_Div 6 3 = Some 2"
proof -
  have "canonical 6" "canonical 3" "canonical 2" "field_mul_goldilocks 2 3 = 6"
    by (simp_all add: canonical_iff word_unat_eq_iff field_mul_nat)
  then show ?thesis using div_is_field_division [of 6 3 2] by simp
qed

section \<open>Merkle paths and inference\<close>

text \<open>C14: \<open>VerifyMerkle\<close> decides membership in a Merkle tree.  The 65 words at the immediate address, when
  they lie in memory, are a key followed by the digests beside the key's way through some tree of depth
  64, from the leaf up; for every such tree the destination receives 1 exactly when putting the leaf at
  the key gives a tree with the claimed root, and 0 otherwise.  Words that do not lie in memory give 0.
  The instruction never fails and changes only its destination register and the program counter.\<close>

theorem verify_merkle_spec:
  assumes "opcode inst = Op_VerifyMerkle" and p: "p = nat (sint (imm inst) mod 2 ^ 64)"
  shows "\<exists>eff vm'. execute inst root leaf vm = (Inr eff, vm') \<and>
    vm' = vm\<lparr>registers := (registers vm)[unat (rd inst) := dst_val eff], pc := pc vm + 1\<rparr> \<and>
    (if p + 520 < 2 ^ 64 \<and> p + 520 \<le> length (memory vm) then
       (\<exists>key t. holds_path (memory vm) p key t) \<and>
       (\<forall>key t. holds_path (memory vm) p key t \<longrightarrow>
          dst_val eff = (if digest_of (put_leaf key 64 leaf t) = root then 1 else 0))
     else dst_val eff = 0)"
proof -
  let ?p = "scast (imm inst) :: usize"
  have "unat ?p = p"
    unfolding p unat_eq_nat_uint scast_eq uint_word_of_int by simp
  then have path: "path_in_memory ?p 520 (length (memory vm)) \<longleftrightarrow> p + 520 < 2 ^ 64 \<and> p + 520 \<le> length (memory vm)"
    by (simp add: path_in_memory_iff)
  have "merkle_walk (memory vm) ?p (read_u64 (memory vm) ?p) leaf 64 = digest_of (put_leaf key 64 leaf t)"
    if "path_in_memory ?p 520 (length (memory vm))" "holds_path (memory vm) p key t" for key t
    using merkle_walk_tree [OF that(1) that(2) [folded \<open>unat ?p = p\<close>]] by simp
  then show ?thesis using assms(1) holds_path_exists [of p "memory vm"] path
    by (cases "path_in_memory ?p 520 (length (memory vm))")
      (auto simp: execute_def exec_verify_merkle_def Let_def set_register_def)
qed

text \<open>A machine whose memory holds the key 5 and 64 different siblings.\<close>

definition path_words :: "u64 list" where
  "path_words = 5 # map (\<lambda>i. 100 + of_nat i) [0..<64]"

definition path_tree :: "nat \<Rightarrow> merkle_tree" where
  "path_tree n = fold (\<lambda>i t. let s = Digest (100 + of_nat i) in if bit (5 :: u64) i then Fork s t else Fork t s)
     [0..<n] (Digest 0)"

lemma siblings_path_tree: "siblings_of 5 n (path_tree n) = map (\<lambda>i. 100 + of_nat i) [0..<n]"
  by (induction n) (auto simp: path_tree_def Let_def)

theorem verify_merkle_spec_witness:
  "\<exists>eff vm'. execute \<lparr>opcode = Op_VerifyMerkle, rd = 3, rs1 = 1, rs2 = 2, imm = 16\<rparr>
       (digest_of (put_leaf 5 64 77 (path_tree 64))) 77
       ((with_gas_limit 64 100)\<lparr>memory := replicate 16 0 @ concat (map to_le_bytes path_words)\<rparr>)
     = (Inr eff, vm') \<and> dst_val eff = 1"
proof -
  let ?i = "\<lparr>opcode = Op_VerifyMerkle, rd = 3, rs1 = 1, rs2 = 2, imm = 16\<rparr> :: instruction"
  let ?mem = "replicate 16 0 @ concat (map to_le_bytes path_words)"
  have ws: "5 # siblings_of 5 64 (path_tree 64) = path_words" unfolding siblings_path_tree path_words_def ..
  have len: "length (concat (map to_le_bytes ws)) = 8 * length ws" for ws by (induction ws) simp_all
  have 65: "length path_words = 65" by (simp add: path_words_def del: upt_rec_numeral)
  have "holds_path ?mem 16 5 (path_tree 64)"
    unfolding holds_path_def words_at_def ws by (simp add: siblings_path_tree slice_def len 65 del: upt_rec_numeral)
  moreover have "length ?mem = 536" by (simp add: len 65)
  ultimately show ?thesis
    using verify_merkle_spec [of ?i 16 "digest_of (put_leaf 5 64 77 (path_tree 64))" 77
        "(with_gas_limit 64 100)\<lparr>memory := ?mem\<rparr>"] by auto
qed

text \<open>C15: an accepted path proves nothing about the leaf.  The one-round compression is invertible in
  either argument, so for every leaf and every canonical root, any path in memory becomes an
  accepted proof by overwriting its last sibling alone.\<close>

theorem verify_merkle_forgeable:
  assumes "opcode inst = Op_VerifyMerkle" "canonical root"
    and "path_in_memory (scast (imm inst)) (8 * 65) (length (memory vm))"
  shows "\<exists>sib eff vm'. execute inst root leaf (vm\<lparr>memory :=
        copy_from_slice (unat (sibling_addr (scast (imm inst)) 63)) (to_le_bytes sib) (memory vm)\<rparr>)
      = (Inr eff, vm') \<and> dst_val eff = 1"
proof -
  let ?p = "scast (imm inst) :: usize" and ?m = "memory vm"
  let ?mem = "\<lambda>s. copy_from_slice (unat (sibling_addr ?p 63)) (to_le_bytes s) ?m"
  have path: "path_in_memory ?p 520 (length ?m)" using assms(3) by simp
  note b63 = sibling_addr_bounds [OF path, of 63, simplified]
  have p8: "unat ?p + 8 \<le> length ?m" using path by (simp add: path_in_memory_iff)
  have key: "read_u64 (?mem s) ?p = read_u64 ?m ?p" for s
    using b63 p8 by (intro read_u64_disjoint) simp_all
  obtain s where "merkle_walk (?mem s) ?p (read_u64 ?m ?p) leaf 64 = root"
    using merkle_walk_forge [OF path assms(2)] by blast
  moreover have "length (?mem s) = length ?m" using b63(2) by simp
  ultimately show ?thesis
    using assms(1,3) key [of s]
    by (intro exI [of _ s]) (simp add: execute_def exec_verify_merkle_def Let_def)
qed

theorem verify_merkle_forgeable_witness:
  "\<exists>sib eff vm'. execute \<lparr>opcode = Op_VerifyMerkle, rd = 3, rs1 = 1, rs2 = 2, imm = 0\<rparr> 12345 6
      ((with_gas_limit 1024 100)\<lparr>memory :=
        copy_from_slice (unat (sibling_addr (scast (0 :: i32)) 63)) (to_le_bytes sib) (replicate 1024 0)\<rparr>)
      = (Inr eff, vm') \<and> dst_val eff = 1"
  using verify_merkle_forgeable [of "\<lparr>opcode = Op_VerifyMerkle, rd = 3, rs1 = 1, rs2 = 2, imm = 0\<rparr>" 12345
      "with_gas_limit 1024 100" 6]
  by (simp add: path_in_memory_iff with_gas_limit_def canonical_iff)

text \<open>When a \<open>VerifyInference\<close> also has a path in memory, its commitments end up on the wrong row: the
  64 path rows are pushed first, so the row patched as the original step is the last of them, and
  the row of the instruction itself carries no commitment.\<close>

theorem inference_patches_path_row:
  assumes "opcode inst = Op_VerifyInference"
    and "path_in_memory (scast (imm inst)) (8 * 65) (length (memory vm))"
    and "path_in_memory a (8 * 4) (length (memory vm))"
    and "inference_model_commitment r = None"
  shows "let rows = trace (push_inference_expansion inst c a b
                      (push_merkle_expansion inst c b (vm\<lparr>trace := tr @ [r]\<rparr>)))
    in length rows = length tr + 73 \<and>
       inference_model_commitment (rows ! length tr) = None \<and>
       inference_model_commitment (rows ! (length tr + 64)) = Some (read_u64 (memory vm) a) \<and>
       merkle_is_expand (rows ! (length tr + 64))"
proof -
  have fires: "merkle_fires inst vm" "inference_fires inst a vm"
    using assms(1-3) by (simp_all add: merkle_fires_def inference_fires_def)
  let ?r = "r\<lparr>merkle_key := Some (read_u64 (memory vm) (scast (imm inst))), row_next_pc := c,
          merkle_current := Some (merkle_walk (memory vm) (scast (imm inst))
            (read_u64 (memory vm) (scast (imm inst))) b 64)\<rparr>"
  define last_row where "last_row = last (merkle_rows inst c b vm (Suc 63))"
  define first_rows where "first_rows = merkle_rows inst c b vm 63"
  have rows64: "merkle_rows inst c b vm 64 = first_rows @ [last_row]"
    using merkle_rows_Suc [of inst c b vm 63] by (simp add: last_row_def first_rows_def)
  have len: "length first_rows = 63" by (simp add: first_rows_def)
  have exp: "merkle_is_expand last_row"
    unfolding last_row_def merkle_rows_Suc by (simp add: merkle_expansion_row_def)
  have "trace (push_inference_expansion inst c a b (push_merkle_expansion inst c b (vm\<lparr>trace := tr @ [r]\<rparr>)))
      = tr @ ?r # first_rows @ [inference_patch c a (memory vm) last_row] @ inference_rows inst c a b vm 8"
    using fires
    by (simp add: push_merkle_expansion_rows push_inference_expansion_rows merkle_block_def rows64
        flip: append_Cons)
  then show ?thesis
    using assms(4) exp by (simp add: Let_def nth_append len nth_Cons' inference_patch_def)
qed

theorem inference_patches_path_row_witness:
  "inference_model_commitment
     (trace (push_inference_expansion \<lparr>opcode = Op_VerifyInference, rd = 3, rs1 = 1, rs2 = 2, imm = 0\<rparr> 0 600 0
        (push_merkle_expansion \<lparr>opcode = Op_VerifyInference, rd = 3, rs1 = 1, rs2 = 2, imm = 0\<rparr> 0 0
          ((with_gas_limit 1024 100)\<lparr>trace := [] @ [halt_row (with_gas_limit 1024 100)]\<rparr>))) ! 0) = None"
proof -
  let ?i = "\<lparr>opcode = Op_VerifyInference, rd = 3, rs1 = 1, rs2 = 2, imm = 0\<rparr> :: instruction"
  let ?vm = "with_gas_limit 1024 100"
  have "path_in_memory (scast (imm ?i)) (8 * 65) (length (memory ?vm))"
    "path_in_memory 600 (8 * 4) (length (memory ?vm))"
    by (simp_all add: path_in_memory_iff with_gas_limit_def)
  then show ?thesis
    using inference_patches_path_row [of ?i ?vm 600 "halt_row ?vm" 0 0 "[]"]
    by (simp add: Let_def halt_row_def step_row_def)
qed

section \<open>Privacy instructions\<close>

lemma uint_ucast_minus:
  fixes im :: i32
  assumes "sint im < 0"
  shows "uint (ucast (- im) :: u64) = - sint im"
proof -
  have r: "- (2 ^ 31) \<le> sint im" using sint_ge [of im] by simp
  have "- im = word_of_int (- sint im)" by simp
  then have "uint (- im) = - sint im"
    using r assms by (simp only: uint_word_of_int_eq) (simp add: take_bit_int_eq_self)
  moreover have "take_bit 64 (- sint im) = - sint im" using r assms by (simp add: take_bit_int_eq_self)
  ultimately show ?thesis by (simp add: unsigned_ucast_eq)
qed

text \<open>The recipient tag of \<open>PrivacyCommit\<close> is the signed immediate as a field element: for every
  32-bit immediate, the most negative one included, it is the residue of the immediate modulo the
  Goldilocks prime, and so canonical.\<close>

theorem privacy_recipient_residue:
  "uint (privacy_recipient im) = sint im mod uint GOLDILOCKS_P \<and> canonical (privacy_recipient im)"
proof -
  have P: "uint GOLDILOCKS_P = 18446744069414584321" by (simp add: GOLDILOCKS_P_def)
  have r: "- (2 ^ 31) \<le> sint im" "sint im < 2 ^ 31" using sint_ge [of im] sint_lt [of im] by simp_all
  have "uint (privacy_recipient im) = sint im mod 18446744069414584321"
  proof (cases "sint im < 0")
    case True
    have "uint (GOLDILOCKS_P - ucast (- im) :: u64) = uint GOLDILOCKS_P - uint (ucast (- im) :: u64)"
      by (rule uint_sub_lem [THEN iffD1]) (use r in \<open>simp add: uint_ucast_minus [OF True] P\<close>)
    also have "\<dots> = sint im + 18446744069414584321" by (simp add: uint_ucast_minus [OF True] P)
    also have "\<dots> = (sint im + 18446744069414584321) mod 18446744069414584321"
      using r True by (intro mod_pos_pos_trivial [symmetric]) simp_all
    finally show ?thesis using True by (simp add: privacy_recipient_def)
  next
    case False
    then have "uint (scast im :: u64) = sint im"
      using r uint_word_of_int_small [of "sint im"] unfolding scast_eq by simp
    then show ?thesis using False r by (simp add: privacy_recipient_def)
  qed
  then show ?thesis by (simp add: P canonical_def word_less_def)
qed

section \<open>What the write digest does not distinguish\<close>

lemma add_round_constants_mod:
  "list_all2 (\<lambda>x y. unat x mod gP = unat y mod gP) s t \<Longrightarrow> add_round_constants rc s = add_round_constants rc t"
proof (induction arbitrary: rc rule: list_all2_induct)
  case (Cons x s y t)
  show ?case
  proof (cases rc)
    case rc: (Cons c rc')
    have "field_add_goldilocks x c = field_add_goldilocks y c"
      unfolding word_unat_eq_iff field_add_nat by (rule mod_add_cong [OF Cons.hyps(1) refl])
    then show ?thesis using Cons.IH [of rc']
      by (simp add: add_round_constants_def rc field_add_goldilocks_def)
  qed (simp add: add_round_constants_def)
qed simp

lemma poseidon_full_state_mod:
  assumes "list_all2 (\<lambda>x y. unat x mod gP = unat y mod gP) s t"
  shows "poseidon_full_state s = poseidon_full_state t"
proof -
  have "POSEIDON_RC_FULL \<noteq> []" using RC_shape(1) by auto
  then obtain rc rcs where rc: "POSEIDON_RC_FULL = rc # rcs" by (auto simp: neq_Nil_conv)
  show ?thesis
    unfolding poseidon_full_state_def rc
    by (simp add: poseidon_round_def add_round_constants_mod [OF assms])
qed

text \<open>The write digest reads slots and values modulo the field prime, so it does not bind the log: for
  every slot and every value below \<open>2 ^ 32 - 1\<close>, writing the value and writing the value plus the
  prime give the same digest, and so do writes to the smallest and to the largest slot number.\<close>

theorem digest_collisions:
  assumes "v < 0xFFFFFFFF"
  shows "v + GOLDILOCKS_P \<noteq> v \<and> writes_digest [(slot, v + GOLDILOCKS_P)] = writes_digest [(slot, v)] \<and>
    writes_digest [(0x80000000, w)] = writes_digest [(0x7FFFFFFF, w)]"
proof -
  have "unat (v + GOLDILOCKS_P) = unat v + gP"
    using assms by (simp add: unat_add_small word_less_nat_alt)
  then have "unat (v + GOLDILOCKS_P) mod gP = unat v mod gP" by (simp only: mod_add_self2)
  then have "absorb_write (slot, v + GOLDILOCKS_P) acc = absorb_write (slot, v) acc" for acc
    unfolding absorb_write_def Let_def prod.case
    by (intro poseidon_full_state_mod) (simp only: list_all2_Cons list.rel_inject(1) list_all2_Nil simp_thms)
  moreover have "unat (scast (0x80000000 :: i32) :: u64) mod gP = unat (scast (0x7FFFFFFF :: i32) :: u64) mod gP"
    by simp
  then have "absorb_write (0x80000000, w) acc = absorb_write (0x7FFFFFFF, w) acc" for acc
    unfolding absorb_write_def Let_def prod.case
    by (intro poseidon_full_state_mod) (simp only: list_all2_Cons list.rel_inject(1) list_all2_Nil simp_thms)
  moreover have "v + GOLDILOCKS_P \<noteq> v" by (simp add: GOLDILOCKS_P_def)
  ultimately show ?thesis by (simp only: writes_digest_def fold_simps simp_thms not_False_eq_True)
qed

theorem digest_collisions_witness:
  "writes_digest [(1, 5 + GOLDILOCKS_P)] = writes_digest [(1, 5)]"
  using digest_collisions [of 5 1 0] by simp

end
