(* ===== verification/Lexer.thy ===== *)
theory Lexer
  imports Prelude
begin

text \<open>
  The tokens of the contract language, \<open>budzero/bud-compiler/src/lexer.rs\<close>.  The tokeniser is
  generated by the \<open>logos\<close> crate from the enum's attributes, so the stream it yields is a
  parameter of the parser's constructor.
\<close>

datatype token =
    T_Contract | T_Fn | T_Let | T_If | T_Else | T_Match | T_Storage | T_Witness | T_Constrain
  | T_Pub | T_While | T_For | T_In | T_Return | T_Struct
  | T_BraceOpen | T_BraceClose | T_ParenOpen | T_ParenClose | T_BracketOpen | T_BracketClose
  | T_Colon | T_Comma | T_Semicolon | T_Arrow | T_FatArrow | T_DotDot | T_Dot
  | T_Plus | T_Minus | T_Star | T_Slash | T_Eq | T_Neq | T_Lt | T_Gt | T_Lte | T_Gte | T_Assign
  | T_Ident string
  | T_Int u64
  | T_Hex string
  | T_Error

text \<open>An item of the token stream with the byte range it spans; \<^const>\<open>Inl\<close> is a lexer error.\<close>

type_synonym lex_item = "(unit + token) \<times> nat \<times> nat"

end
