(* ===== verification/Ast.thy ===== *)
theory Ast
  imports Lexer
begin

text \<open>
  The syntax tree of the contract language, \<open>budzero/bud-compiler/src/ast.rs\<close>, and the compiler's
  error type from \<open>lib.rs\<close>.  The messages of the errors are kept as the data they print.
\<close>

section \<open>Syntax tree\<close>

datatype bin_op = B_Add | B_Sub | B_Mul | B_Div | B_Eq | B_Neq | B_Lt | B_Gt | B_Lte | B_Gte

datatype expr =
    EInt u64
  | EIdent string
  | EStorageRead string
  | EMappingRead string expr
  | EFieldAccess expr string
  | EStructLiteral string "(string \<times> expr) list"
  | EBinary expr bin_op expr
  | ECall string "expr list"

datatype match_pattern = IntLit u64 | Wildcard

datatype stmt =
    SLet string expr
  | SConstrain expr
  | SAssign string expr
  | SStorageWrite string expr
  | SMappingWrite string expr expr
  | SIf expr "stmt list" "stmt list option"
  | SWhile expr "stmt list"
  | SFor string expr expr "stmt list"
  | SReturn "expr option"
  | SEmit string "expr list"
  | SMatch expr "match_arm list"
  | SExpr expr
and match_arm = MatchArm (arm_pattern: match_pattern) (arm_body: "stmt list")

record storage_field =
  field_name :: string
  field_ty :: string

record param =
  param_name :: string
  param_ty :: string

record struct_decl =
  struct_name :: string
  struct_fields :: "storage_field list"

record function_decl =
  fn_name :: string
  fn_params :: "param list"
  return_type :: "string option"
  fn_body :: "stmt list"
  is_pub :: bool

record contract =
  contract_name :: string
  contract_storage :: "storage_field list"
  contract_structs :: "struct_decl list"
  contract_functions :: "function_decl list"

section \<open>Errors\<close>

text \<open>\<open>Loop_limit\<close> is not an error of the source: the parser's loops are unrolled at most as often
  as there are tokens, and \<open>Parser\<close> shows that this value never appears.\<close>

datatype parse_error =
    Expected token token
  | Unexpected string
  | Invalid_hex string
  | Nests_too_deep
  | Loop_limit

text \<open>The analyser's types (\<open>Type\<close> of \<open>sema.rs\<close>), which its messages print.\<close>

datatype ty =
    Ty_U64 | Ty_Bool | Ty_Field | Ty_Address | Ty_Hash32
  | Ty_Struct string
  | Ty_Void | Ty_Unknown

text \<open>The first argument of a declaration error names the place: field, parameter or return type.\<close>

datatype sema_error =
    Reserved_type "string list" string string
  | Undefined_struct_type "string list" string
  | Bad_condition string ty
  | Assign_mismatch ty ty
  | Undefined_variable string
  | Return_mismatch ty ty
  | Bad_scrutinee ty
  | Undefined_identifier string
  | No_such_field string string
  | Access_on_non_struct
  | Field_mismatch string
  | Unknown_field string
  | Missing_field string
  | Repeated_field string string
  | Undefined_struct string
  | Wrong_arity string nat nat
  | Argument_mismatch nat string
  | Undefined_function string
  | Operand_mismatch
  | Not_numeric bin_op ty
  | Opaque_operand bin_op ty

datatype codegen_error =
    Main_not_found
  | Undefined_callee string
  | Unknown_storage string
  | Unknown_mapping string
  | Unbound_variable string
  | Literal_too_large u64
  | Literal_field_not_found string string
  | Access_field_not_found string string
  | Path_not_constant
  | Path_too_large u64
  | Patch_decode_failed

text \<open>\<open>Index_panic\<close> stands for the out-of-bounds panic of \<open>args[i]\<close> and \<open>instructions[idx]\<close>.\<close>

datatype compile_error =
    LexerError nat string nat nat
  | ParserError parse_error
  | SemanticError sema_error
  | CodegenError codegen_error
  | Experimental_disabled
  | RegisterExhausted
  | Index_panic

end
