(* ===== verification/Codegen.thy ===== *)
theory Codegen
  imports Ast Isa Goldilocks
begin

text \<open>
  The code generator, \<open>budzero/bud-compiler/src/codegen.rs\<close>: a single pass over the syntax tree
  that appends instruction words, allocates registers as a stack, and patches jumps and calls
  once their targets are known.  Register numbers and instruction indices are natural numbers;
  the allocator never hands out a register above 30.  The iteration order of the hash map of
  struct layouts, which \<open>FieldAccess\<close> scans, is a parameter of \<open>generate\<close>.
\<close>

section \<open>State\<close>

record var_info =
  reg :: nat
  struct_type :: "string option"

type_synonym scope = "string \<rightharpoonup> var_info"
type_synonym storage_map = "string \<rightharpoonup> i32"

record codegen =
  instructions :: "u64 list"
  next_reg :: nat
  profile :: isa_profile
  gen_error :: "compile_error option"
  unpatched_calls :: "(nat \<times> string) list"
  struct_layouts :: "string \<rightharpoonup> string list"
  layout_values :: "string list list"

definition new_with_profile :: "isa_profile \<Rightarrow> codegen" where
  "new_with_profile p =
     \<lparr>instructions = [], next_reg = 1, profile = p, gen_error = None, unpatched_calls = [],
      struct_layouts = Map.empty, layout_values = []\<rparr>"

text \<open>\<open>if self.error.is_none() { self.error = Some(..) }\<close>\<close>

definition set_error :: "compile_error \<Rightarrow> codegen \<Rightarrow> codegen" where
  "set_error e g = (if gen_error g = None then g\<lparr>gen_error := Some e\<rparr> else g)"

definition failed :: "codegen \<Rightarrow> bool" where
  "failed g \<longleftrightarrow> gen_error g \<noteq> None"

definition alloc_reg :: "codegen \<Rightarrow> nat \<times> codegen" where
  "alloc_reg g =
     (if next_reg g \<ge> 31 then (30, set_error RegisterExhausted g)
      else (next_reg g, g\<lparr>next_reg := next_reg g + 1\<rparr>))"

definition asm :: "opcode \<Rightarrow> nat \<Rightarrow> nat \<Rightarrow> nat \<Rightarrow> i32 \<Rightarrow> instruction" where
  "asm op d s1 s2 im =
     \<lparr>opcode = op, rd = of_nat d, rs1 = of_nat s1, rs2 = of_nat s2, imm = im\<rparr>"

text \<open>Built without the \<open>experimental\<close> feature.\<close>

definition emit :: "opcode \<Rightarrow> nat \<Rightarrow> nat \<Rightarrow> nat \<Rightarrow> i32 \<Rightarrow> codegen \<Rightarrow> codegen" where
  "emit op d s1 s2 im g =
     (if is_experimental op then set_error Experimental_disabled g
      else g\<lparr>instructions := instructions g @ [encode (asm op d s1 s2 im)]\<rparr>)"

definition here :: "codegen \<Rightarrow> nat" where
  "here g = length (instructions g)"

text \<open>\<open>(target as i32) - (idx as i32)\<close>; programs stay below \<open>2^31\<close> instructions.\<close>

definition jump_offset :: "nat \<Rightarrow> nat \<Rightarrow> i32" where
  "jump_offset target idx = of_nat target - of_nat idx"

definition patch_jump :: "nat \<Rightarrow> i32 \<Rightarrow> codegen \<Rightarrow> codegen" where
  "patch_jump idx offset g =
     (if failed g then g
      else if idx \<ge> length (instructions g) then set_error Index_panic g
      else (case decode_any (instructions g ! idx) of
              Inl _ \<Rightarrow> set_error (CodegenError Patch_decode_failed) g
            | Inr inst \<Rightarrow>
                g\<lparr>instructions := (instructions g)[idx := encode (inst\<lparr>imm := offset\<rparr>)]\<rparr>))"

text \<open>\<open>iter().position(|f| f == field)\<close>\<close>

fun position :: "string \<Rightarrow> string list \<Rightarrow> nat option" where
  "position f [] = None"
| "position f (x # xs) = (if x = f then Some 0 else map_option Suc (position f xs))"

definition expr_struct_type :: "expr \<Rightarrow> scope \<Rightarrow> string option" where
  "expr_struct_type e scope =
     (case e of
        EStructLiteral name _ \<Rightarrow> Some name
      | EIdent name \<Rightarrow> (case scope name of Some vi \<Rightarrow> struct_type vi | None \<Rightarrow> None)
      | _ \<Rightarrow> None)"

section \<open>Expressions\<close>

text \<open>Integer literals: one \<open>Load\<close>, or base-\<open>2^30\<close> digits from the highest down.\<close>

definition literal_digits :: "u64 \<Rightarrow> i32 list" where
  "literal_digits v =
     [ucast (drop_bit 60 v AND 0xF), ucast (drop_bit 30 v AND 0x3FFFFFFF), ucast (v AND 0x3FFFFFFF)]"

definition emit_digit :: "nat \<Rightarrow> nat \<Rightarrow> nat \<Rightarrow> i32 \<Rightarrow> bool \<times> codegen \<Rightarrow> bool \<times> codegen" where
  "emit_digit r shift_reg temp_reg chunk sg =
     (let (started, g) = sg
      in if sint chunk > 0 \<or> started then
           (if started then
              (let g = emit Op_Mul r r shift_reg 0 g
               in if sint chunk > 0
                  then (True, emit Op_Add r r temp_reg 0 (emit Op_Load temp_reg 0 0 chunk g))
                  else (True, g))
            else (True, emit Op_Load r 0 0 chunk g))
         else (started, g))"

definition generate_int :: "u64 \<Rightarrow> codegen \<Rightarrow> nat \<times> codegen" where
  "generate_int v g =
     (if v \<ge> GOLDILOCKS_P then (0, set_error (CodegenError (Literal_too_large v)) g)
      else if v \<le> 0x7FFFFFFF then
        (let (r, g) = alloc_reg g in (r, emit Op_Load r 0 0 (ucast v) g))
      else
        (let (r, g) = alloc_reg g;
             (shift_reg, g) = alloc_reg g;
             g = emit Op_Load shift_reg 0 0 1073741824 g;
             (temp_reg, g) = alloc_reg g;
             (_, g) = fold (emit_digit r shift_reg temp_reg) (literal_digits v) (False, g)
         in (r, g)))"

fun opcode_of :: "bin_op \<Rightarrow> opcode" where
  "opcode_of B_Add = Op_Add"
| "opcode_of B_Sub = Op_Sub"
| "opcode_of B_Mul = Op_Mul"
| "opcode_of B_Div = Op_Div"
| "opcode_of B_Eq = Op_Eq"
| "opcode_of B_Neq = Op_Neq"
| "opcode_of B_Lt = Op_Lt"
| "opcode_of B_Gt = Op_Gt"
| "opcode_of B_Lte = Op_Lte"
| "opcode_of B_Gte = Op_Gte"

text \<open>Reuse an operand's fresh register for the result, or allocate one.\<close>

definition finish_binary :: "opcode \<Rightarrow> nat \<Rightarrow> nat \<Rightarrow> nat \<Rightarrow> nat \<Rightarrow> codegen \<Rightarrow> nat \<times> codegen" where
  "finish_binary op saved1 l_reg saved2 r_reg g =
     (let (res, g) =
            (if l_reg \<ge> saved1 then (l_reg, g)
             else if r_reg \<ge> saved2 then (r_reg, g)
             else alloc_reg g);
          g = emit op res l_reg r_reg 0 g
      in (res, g\<lparr>next_reg := max (res + 1) saved1\<rparr>))"

definition emit_syscall :: "i32 \<Rightarrow> codegen \<Rightarrow> nat \<times> codegen" where
  "emit_syscall n g = (let (res, g) = alloc_reg g in (res, emit Op_Syscall res 0 0 n g))"

definition literal_offset :: "string \<Rightarrow> string list option \<Rightarrow> string \<Rightarrow> nat \<Rightarrow> codegen \<Rightarrow> nat \<times> codegen" where
  "literal_offset name layout fname k g =
     (case (case layout of None \<Rightarrow> None | Some fs \<Rightarrow> position fname fs) of
        Some idx \<Rightarrow> (idx * 8, g)
      | None \<Rightarrow> (k * 8, set_error (CodegenError (Literal_field_not_found fname name)) g))"

definition access_offset :: "string option \<Rightarrow> string \<Rightarrow> codegen \<Rightarrow> nat \<times> codegen" where
  "access_offset s_type field g =
     (case (case s_type of None \<Rightarrow> None | Some name \<Rightarrow> struct_layouts g name) of
        Some fs \<Rightarrow>
          (case position field fs of
             Some idx \<Rightarrow> (idx * 8, g)
           | None \<Rightarrow> (0, set_error (CodegenError (Access_field_not_found field (the s_type))) g))
      | None \<Rightarrow>
          (case filter (\<lambda>fs. position field fs \<noteq> None) (layout_values g) of
             [] \<Rightarrow> (0, g)
           | fs # _ \<Rightarrow> (the (position field fs) * 8, g)))"

text \<open>The tail of a struct literal: store the fields, bump the heap pointer, return the pointer.\<close>

definition finish_literal ::
    "nat \<Rightarrow> nat \<Rightarrow> (nat \<times> nat) list \<Rightarrow> nat \<Rightarrow> codegen \<Rightarrow> nat \<times> codegen" where
  "finish_literal saved ptr_reg field_vals size_words g =
     (let g = fold (\<lambda>(offset, val_reg). emit Op_Store 0 ptr_reg val_reg (of_nat offset)) field_vals g;
          (size_reg, g) = alloc_reg g;
          g = emit Op_Load size_reg 0 0 (of_nat (size_words * 8)) g;
          g = emit Op_Add 31 31 size_reg 0 g;
          g = g\<lparr>next_reg := saved\<rparr>;
          (res, g) = alloc_reg g
      in (res, emit Op_Add res ptr_reg 0 0 g))"

text \<open>The tail of a call: push the arguments, call, pop the result, restore the registers.\<close>

definition finish_call :: "string \<Rightarrow> nat \<Rightarrow> nat list \<Rightarrow> codegen \<Rightarrow> nat \<times> codegen" where
  "finish_call name saved arg_regs g =
     (let g = fold (\<lambda>r. emit Op_Push 0 r 0 0) arg_regs g;
          call_idx = here g;
          g = emit Op_Call 0 0 0 0 g;
          g = g\<lparr>unpatched_calls := unpatched_calls g @ [(call_idx, name)]\<rparr>;
          g = g\<lparr>next_reg := saved\<rparr>;
          (res, g) = alloc_reg g;
          g = emit Op_Pop res 0 0 0 g
      in (res, fold (\<lambda>r. emit Op_Pop r 0 0 0) (rev [1..<saved]) g))"

text \<open>The path argument of \<open>verify_merkle_proof\<close> and the instruction.\<close>

definition finish_merkle :: "nat \<Rightarrow> nat \<Rightarrow> expr \<Rightarrow> codegen \<Rightarrow> nat \<times> codegen" where
  "finish_merkle r_root r_leaf path g =
     (case path of
        EInt path_addr \<Rightarrow>
          if path_addr > 0x7FFFFFFF then (0, set_error (CodegenError (Path_too_large path_addr)) g)
          else (let (res, g) = alloc_reg g
                in (res, emit Op_VerifyMerkle res r_root r_leaf (ucast path_addr) g))
      | _ \<Rightarrow> (0, set_error (CodegenError Path_not_constant) g))"

fun generate_expr :: "scope \<Rightarrow> storage_map \<Rightarrow> expr \<Rightarrow> codegen \<Rightarrow> nat \<times> codegen"
  and generate_args :: "scope \<Rightarrow> storage_map \<Rightarrow> expr list \<Rightarrow> codegen \<Rightarrow> nat list \<times> codegen"
  and generate_inits :: "scope \<Rightarrow> storage_map \<Rightarrow> string \<Rightarrow> string list option \<Rightarrow> nat \<Rightarrow>
      (string \<times> expr) list \<Rightarrow> codegen \<Rightarrow> (nat \<times> nat) list \<times> codegen" where
  "generate_expr scope storage (EInt v) g = (if failed g then (0, g) else generate_int v g)"
| "generate_expr scope storage (EIdent name) g =
     (if failed g then (0, g)
      else (case scope name of
              Some vi \<Rightarrow> (reg vi, g)
            | None \<Rightarrow> (0, set_error (CodegenError (Unbound_variable name)) g)))"
| "generate_expr scope storage (EStorageRead name) g =
     (if failed g then (0, g)
      else (let (r, g) = alloc_reg g
            in case storage name of
                 None \<Rightarrow> (0, set_error (CodegenError (Unknown_storage name)) g)
               | Some slot \<Rightarrow> (r, emit Op_SRead r 0 0 slot g)))"
| "generate_expr scope storage (EMappingRead name key) g =
     (if failed g then (0, g)
      else (case storage name of
              None \<Rightarrow> (0, set_error (CodegenError (Unknown_mapping name)) g)
            | Some base_slot \<Rightarrow>
                (let (key_reg, g) = generate_expr scope storage key g;
                     (base_reg, g) = alloc_reg g;
                     g = emit Op_Load base_reg 0 0 base_slot g;
                     (target_slot_reg, g) = alloc_reg g;
                     g = emit Op_Poseidon target_slot_reg base_reg key_reg 0 g;
                     (res, g) = alloc_reg g
                 in (res, emit Op_SRead res 0 target_slot_reg (- 1) g))))"
| "generate_expr scope storage (EStructLiteral name inits) g =
     (if failed g then (0, g)
      else (let saved = next_reg g;
                (ptr_reg, g) = alloc_reg g;
                g = emit Op_Add ptr_reg 31 0 0 g;
                layout = struct_layouts g name;
                (field_vals, g) = generate_inits scope storage name layout 0 inits g;
                size_words = (case layout of Some fs \<Rightarrow> length fs | None \<Rightarrow> length inits)
            in finish_literal saved ptr_reg field_vals size_words g))"
| "generate_expr scope storage (EFieldAccess base field) g =
     (if failed g then (0, g)
      else (let s_type = expr_struct_type base scope;
                (base_reg, g) = generate_expr scope storage base g;
                (res, g) = alloc_reg g;
                (offset, g) = access_offset s_type field g
            in (res, emit Op_Load res base_reg 0 (of_nat offset) g)))"
| "generate_expr scope storage (EBinary left op right) g =
     (if failed g then (0, g)
      else (let saved1 = next_reg g;
                (l_reg, g) = generate_expr scope storage left g;
                saved2 = next_reg g;
                (r_reg, g) = generate_expr scope storage right g
            in finish_binary (opcode_of op) saved1 l_reg saved2 r_reg g))"
| "generate_expr scope storage (ECall name args) g =
     (if failed g then (0, g)
      else if name = ''poseidon'' then
        (case args of
           a0 # a1 # _ \<Rightarrow>
             (let saved1 = next_reg g;
                  (r1, g) = generate_expr scope storage a0 g;
                  saved2 = next_reg g;
                  (r2, g) = generate_expr scope storage a1 g
              in finish_binary Op_Poseidon saved1 r1 saved2 r2 g)
         | _ \<Rightarrow> (0, set_error Index_panic g))
      else if name = ''msg::sender'' then emit_syscall 1 g
      else if name = ''msg::nonce'' then emit_syscall 3 g
      else if name = ''block::number'' then emit_syscall 2 g
      else if name = ''verify_merkle_proof'' then
        (case args of
           a0 # a1 # a2 # _ \<Rightarrow>
             (let (r_root, g) = generate_expr scope storage a0 g;
                  (r_leaf, g) = generate_expr scope storage a1 g
              in finish_merkle r_root r_leaf a2 g)
         | _ \<Rightarrow> (0, set_error Index_panic g))
      else
        (let saved = next_reg g;
             g = fold (\<lambda>r. emit Op_Push 0 r 0 0) [1..<saved] g;
             (arg_regs, g) = generate_args scope storage args g
         in finish_call name saved arg_regs g))"
| "generate_args scope storage [] g = ([], g)"
| "generate_args scope storage (a # as) g =
     (let (r, g) = generate_expr scope storage a g;
          (rs, g) = generate_args scope storage as g
      in (r # rs, g))"
| "generate_inits scope storage name layout k [] g = ([], g)"
| "generate_inits scope storage name layout k ((fname, val) # inits) g =
     (let (val_reg, g) = generate_expr scope storage val g;
          (offset, g) = literal_offset name layout fname k g;
          (rest, g) = generate_inits scope storage name layout (Suc k) inits g
      in ((offset, val_reg) # rest, g))"

section \<open>Statements\<close>

definition patch_to :: "nat \<Rightarrow> nat \<Rightarrow> codegen \<Rightarrow> codegen" where
  "patch_to idx target g = patch_jump idx (jump_offset target idx) g"

text \<open>The test of an integer arm: load the literal, subtract, jump away when they differ.\<close>

definition emit_arm_test :: "nat \<Rightarrow> nat \<Rightarrow> match_pattern \<Rightarrow> codegen \<Rightarrow> nat option \<times> codegen" where
  "emit_arm_test saved scrutinee_reg pattern g =
     (case pattern of
        IntLit val \<Rightarrow>
          (let (pat_reg, g) = alloc_reg g;
               g = emit Op_Load pat_reg 0 0 (ucast val) g;
               (diff_reg, g) = alloc_reg g;
               g = emit Op_Sub diff_reg scrutinee_reg pat_reg 0 g;
               placeholder = here g;
               g = emit Op_Jnz 0 diff_reg 0 0 g
           in (Some placeholder, g\<lparr>next_reg := saved\<rparr>))
      | Wildcard \<Rightarrow> (None, g))"

text \<open>The code after a \<open>return\<close>'s value: the return address goes back on top of it.\<close>

definition emit_return :: "nat \<Rightarrow> codegen \<Rightarrow> codegen" where
  "emit_return temp g = emit Op_Ret 0 0 0 0 (emit Op_Push 0 temp 0 0 g)"

definition emit_zero :: "codegen \<Rightarrow> codegen" where
  "emit_zero g =
     (let (zero, g) = alloc_reg g in emit Op_Push 0 zero 0 0 (emit Op_Load zero 0 0 0 g))"

fun generate_stmt :: "storage_map \<Rightarrow> stmt \<Rightarrow> scope \<Rightarrow> codegen \<Rightarrow> scope \<times> codegen"
  and generate_stmts :: "storage_map \<Rightarrow> stmt list \<Rightarrow> scope \<Rightarrow> codegen \<Rightarrow> scope \<times> codegen"
  and generate_arms :: "storage_map \<Rightarrow> nat \<Rightarrow> nat \<Rightarrow> match_arm list \<Rightarrow> nat option \<Rightarrow> nat list \<Rightarrow>
      scope \<Rightarrow> codegen \<Rightarrow> nat list \<times> scope \<times> codegen" where
  "generate_stmt storage (SLet name expr) scope g =
     (if failed g then (scope, g)
      else (let saved = next_reg g;
                s_type = expr_struct_type expr scope;
                (r, g) = generate_expr scope storage expr g
            in (scope(name \<mapsto> \<lparr>reg = r, struct_type = s_type\<rparr>),
                g\<lparr>next_reg := (if r \<ge> saved then r + 1 else saved)\<rparr>)))"
| "generate_stmt storage (SConstrain expr) scope g =
     (if failed g then (scope, g)
      else (let saved = next_reg g;
                (r, g) = generate_expr scope storage expr g;
                g = emit Op_Assert 0 r 0 0 g
            in (scope, g\<lparr>next_reg := saved\<rparr>)))"
| "generate_stmt storage (SStorageWrite name expr) scope g =
     (if failed g then (scope, g)
      else (let saved = next_reg g;
                (r, g) = generate_expr scope storage expr g
            in case storage name of
                 None \<Rightarrow> (scope, set_error (CodegenError (Unknown_storage name)) g)
               | Some slot \<Rightarrow> (scope, (emit Op_SWrite 0 r 0 slot g)\<lparr>next_reg := saved\<rparr>)))"
| "generate_stmt storage (SMappingWrite name key val) scope g =
     (if failed g then (scope, g)
      else (case storage name of
              None \<Rightarrow> (scope, set_error (CodegenError (Unknown_mapping name)) g)
            | Some base_slot \<Rightarrow>
                (let saved = next_reg g;
                     (key_reg, g) = generate_expr scope storage key g;
                     (val_reg, g) = generate_expr scope storage val g;
                     (base_reg, g) = alloc_reg g;
                     g = emit Op_Load base_reg 0 0 base_slot g;
                     (target_slot_reg, g) = alloc_reg g;
                     g = emit Op_Poseidon target_slot_reg base_reg key_reg 0 g;
                     g = emit Op_SWrite 0 val_reg target_slot_reg (- 1) g
                 in (scope, g\<lparr>next_reg := saved\<rparr>))))"
| "generate_stmt storage (SAssign name expr) scope g =
     (if failed g then (scope, g)
      else (let saved = next_reg g;
                (r, g) = generate_expr scope storage expr g
            in case scope name of
                 None \<Rightarrow> (scope, set_error (CodegenError (Unbound_variable name)) g)
               | Some vi \<Rightarrow> (scope, (emit Op_Add (reg vi) r 0 0 g)\<lparr>next_reg := saved\<rparr>)))"
| "generate_stmt storage (SIf cond then_branch else_branch) scope g =
     (if failed g then (scope, g)
      else (let saved = next_reg g;
                (cond_reg, g) = generate_expr scope storage cond g;
                jump_to_then_idx = here g;
                g = emit Op_Jnz 0 cond_reg 0 0 g;
                g = g\<lparr>next_reg := saved\<rparr>;
                (scope, g) =
                  (case else_branch of
                     Some eb \<Rightarrow> generate_stmts storage eb scope g
                   | None \<Rightarrow> (scope, g));
                jump_to_end_idx = here g;
                g = emit Op_Jmp 0 0 0 0 g;
                then_start_idx = here g;
                (scope, g) = generate_stmts storage then_branch scope g;
                end_idx = here g;
                g = patch_to jump_to_then_idx then_start_idx g;
                g = patch_to jump_to_end_idx end_idx g
            in (scope, g)))"
| "generate_stmt storage (SWhile cond body) scope g =
     (if failed g then (scope, g)
      else (let saved = next_reg g;
                start_idx = here g;
                (cond_reg, g) = generate_expr scope storage cond g;
                jump_to_body_idx = here g;
                g = emit Op_Jnz 0 cond_reg 0 0 g;
                g = g\<lparr>next_reg := saved\<rparr>;
                jump_to_end_idx = here g;
                g = emit Op_Jmp 0 0 0 0 g;
                body_start_idx = here g;
                (scope, g) = generate_stmts storage body scope g;
                current_idx = here g;
                g = emit Op_Jmp 0 0 0 (jump_offset start_idx current_idx) g;
                end_idx = here g;
                g = patch_to jump_to_body_idx body_start_idx g;
                g = patch_to jump_to_end_idx end_idx g
            in (scope, g)))"
| "generate_stmt storage (SMatch scrutinee arms) scope g =
     (if failed g then (scope, g)
      else (let saved = next_reg g;
                (scrutinee_reg, g) = generate_expr scope storage scrutinee g;
                g = g\<lparr>next_reg := saved\<rparr>;
                (end_jump_indices, scope, g) =
                  generate_arms storage saved scrutinee_reg arms None [] scope g;
                end_idx = here g
            in (scope, fold (\<lambda>idx. patch_to idx end_idx) end_jump_indices g)))"
| "generate_stmt storage (SFor var start stop body) scope g =
     (if failed g then (scope, g)
      else (let saved = next_reg g;
                (start_reg, g) = generate_expr scope storage start g;
                (end_reg, g) = generate_expr scope storage stop g;
                (loop_reg, g) = alloc_reg g;
                g = emit Op_Add loop_reg start_reg 0 0 g;
                g = g\<lparr>next_reg := loop_reg + 1\<rparr>;
                inner_scope = scope(var \<mapsto> \<lparr>reg = loop_reg, struct_type = None\<rparr>);
                start_idx = here g;
                inner_saved = next_reg g;
                (cond_reg, g) = alloc_reg g;
                g = emit Op_Lt cond_reg loop_reg end_reg 0 g;
                jump_to_body_idx = here g;
                g = emit Op_Jnz 0 cond_reg 0 0 g;
                g = g\<lparr>next_reg := inner_saved\<rparr>;
                jump_to_end_idx = here g;
                g = emit Op_Jmp 0 0 0 0 g;
                body_start_idx = here g;
                (_, g) = generate_stmts storage body inner_scope g;
                (one_reg, g) = alloc_reg g;
                g = emit Op_Load one_reg 0 0 1 g;
                g = emit Op_Add loop_reg loop_reg one_reg 0 g;
                g = g\<lparr>next_reg := inner_saved\<rparr>;
                current_idx = here g;
                g = emit Op_Jmp 0 0 0 (jump_offset start_idx current_idx) g;
                end_idx = here g;
                g = patch_to jump_to_body_idx body_start_idx g;
                g = patch_to jump_to_end_idx end_idx g
            in (scope, g\<lparr>next_reg := saved\<rparr>)))"
| "generate_stmt storage (SReturn expr) scope g =
     (if failed g then (scope, g)
      else (let saved = next_reg g;
                (temp, g) = alloc_reg g;
                g = emit Op_Pop temp 0 0 0 g;
                g = (case expr of
                       Some e \<Rightarrow>
                         (let (r, g) = generate_expr scope storage e g in emit Op_Push 0 r 0 0 g)
                     | None \<Rightarrow> emit_zero g)
            in (scope, (emit_return temp g)\<lparr>next_reg := saved\<rparr>)))"
| "generate_stmt storage (SEmit _ args) scope g =
     (if failed g then (scope, g)
      else (let saved = next_reg g;
                g = fold (\<lambda>arg g.
                  let (r, g) = generate_expr scope storage arg g in emit Op_Log 0 r 0 0 g) args g
            in (scope, g\<lparr>next_reg := saved\<rparr>)))"
| "generate_stmt storage (SExpr expr) scope g =
     (if failed g then (scope, g)
      else (let saved = next_reg g;
                (_, g) = generate_expr scope storage expr g
            in (scope, g\<lparr>next_reg := saved\<rparr>)))"
| "generate_stmts storage [] scope g = (scope, g)"
| "generate_stmts storage (s # ss) scope g =
     (let (scope, g) = generate_stmt storage s scope g
      in generate_stmts storage ss scope g)"
| "generate_arms storage saved scrutinee_reg [] pending ends scope g =
     (ends @ (case pending of Some idx \<Rightarrow> [idx] | None \<Rightarrow> []), scope, g)"
| "generate_arms storage saved scrutinee_reg (MatchArm pattern body # arms) pending ends scope g =
     (let test_start = here g;
          g = (case pending of Some prev \<Rightarrow> patch_to prev test_start g | None \<Rightarrow> g);
          (pending, g) = emit_arm_test saved scrutinee_reg pattern g;
          (scope, g) = generate_stmts storage body scope g;
          end_jump = here g;
          g = emit Op_Jmp 0 0 0 0 g;
          g = g\<lparr>next_reg := saved\<rparr>
      in generate_arms storage saved scrutinee_reg arms pending (ends @ [end_jump]) scope g)"

section \<open>Functions and contracts\<close>

definition HEAP_BASE :: i32 where
  "HEAP_BASE = 4096"

fun alloc_regs :: "nat \<Rightarrow> codegen \<Rightarrow> nat list \<times> codegen" where
  "alloc_regs 0 g = ([], g)"
| "alloc_regs (Suc n) g =
     (let (r, g) = alloc_reg g; (rs, g) = alloc_regs n g in (r # rs, g))"

definition param_scope :: "codegen \<Rightarrow> param list \<Rightarrow> nat list \<Rightarrow> scope" where
  "param_scope g params regs =
     fold (\<lambda>(p, r) scope. scope(param_name p \<mapsto>
         \<lparr>reg = r,
          struct_type = (if struct_layouts g (param_ty p) \<noteq> None then Some (param_ty p) else None)\<rparr>))
       (zip params regs) Map.empty"

definition storage_map_of :: "storage_field list \<Rightarrow> storage_map" where
  "storage_map_of fs =
     fold (\<lambda>(i, f) m. m(field_name f \<mapsto> of_nat i)) (zip [0..<length fs] fs) Map.empty"

definition generate_function :: "contract \<Rightarrow> function_decl \<Rightarrow> codegen \<Rightarrow> codegen" where
  "generate_function contract func g =
     (if failed g then g
      else (let g = g\<lparr>next_reg := 1\<rparr>;
                (ret_addr_reg, g) = alloc_reg g;
                g = emit Op_Pop ret_addr_reg 0 0 0 g;
                (param_regs, g) = alloc_regs (length (fn_params func)) g;
                g = fold (\<lambda>r. emit Op_Pop r 0 0 0) (rev param_regs) g;
                scope = param_scope g (fn_params func) param_regs;
                g = emit Op_Push 0 ret_addr_reg 0 0 g;
                storage = storage_map_of (contract_storage contract);
                (_, g) = generate_stmts storage (fn_body func) scope g;
                (temp, g) = alloc_reg g;
                g = emit Op_Pop temp 0 0 0 g;
                g = emit_zero g
            in emit_return temp g))"

fun generate_functions ::
    "contract \<Rightarrow> function_decl list \<Rightarrow> (string \<rightharpoonup> nat) \<Rightarrow> codegen \<Rightarrow> (string \<rightharpoonup> nat) \<times> codegen" where
  "generate_functions contract [] offsets g = (offsets, g)"
| "generate_functions contract (f # fs) offsets g =
     generate_functions contract fs (offsets(fn_name f \<mapsto> here g)) (generate_function contract f g)"

text \<open>\<open>self.error = Some(..)\<close> overwrites an earlier error, but nothing runs after a panic.\<close>

definition replace_error :: "compile_error \<Rightarrow> codegen \<Rightarrow> codegen" where
  "replace_error e g = (if gen_error g = Some Index_panic then g else g\<lparr>gen_error := Some e\<rparr>)"

definition patch_call :: "(string \<rightharpoonup> nat) \<Rightarrow> nat \<times> string \<Rightarrow> codegen \<Rightarrow> codegen" where
  "patch_call offsets c g =
     (let (call_idx, func_name) = c
      in case offsets func_name of
           Some target_idx \<Rightarrow> patch_to call_idx target_idx g
         | None \<Rightarrow> replace_error (CodegenError (Undefined_callee func_name)) g)"

definition layouts_of :: "struct_decl list \<Rightarrow> string \<rightharpoonup> string list" where
  "layouts_of ss = fold (\<lambda>s m. m(struct_name s \<mapsto> map field_name (struct_fields s))) ss Map.empty"

definition generate ::
    "((string \<rightharpoonup> string list) \<Rightarrow> string list list) \<Rightarrow> contract \<Rightarrow> codegen \<Rightarrow> compile_error + u64 list" where
  "generate map_values contract g =
     (let g = g\<lparr>struct_layouts := layouts_of (contract_structs contract)\<rparr>;
          g = g\<lparr>layout_values := map_values (struct_layouts g)\<rparr>;
          g = emit Op_Load 31 0 0 HEAP_BASE g;
          jump_to_main_idx = here g;
          g = emit Op_Call 0 0 0 0 g;
          g = emit Op_Halt 0 0 0 0 g;
          (func_offsets, g) = generate_functions contract (contract_functions contract) Map.empty g;
          g = (case func_offsets ''main'' of
                 Some main_idx \<Rightarrow> patch_to jump_to_main_idx main_idx g
               | None \<Rightarrow> replace_error (CodegenError Main_not_found) g);
          unpatched = unpatched_calls g;
          g = g\<lparr>unpatched_calls := []\<rparr>;
          g = fold (patch_call func_offsets) unpatched g
      in case gen_error g of Some e \<Rightarrow> Inl e | None \<Rightarrow> Inr (instructions g))"

end
