(* ===== verification/Codegen_Expr.thy ===== *)
theory Codegen_Expr
  imports Codegen Vm_Step
begin

text \<open>
  What the code for an expression computes.  The expressions covered are the ones whose code is
  straight-line and touches registers only: literals, variables, storage and mapping reads, binary
  operators, \<open>poseidon\<close> and the context calls.  Their code is a list of instructions that read
  registers, storage and context and write one register; running it leaves the value of the
  expression in the result register and every register below \<open>next_reg\<close> as it was.
\<close>

section \<open>Values of expressions\<close>

definition bool_word :: "bool \<Rightarrow> u64" where
  "bool_word b = (if b then 1 else 0)"

fun binop_value :: "bin_op \<Rightarrow> u64 \<Rightarrow> u64 \<Rightarrow> u64" where
  "binop_value B_Add a b = field_add_goldilocks a b"
| "binop_value B_Sub a b = field_sub_goldilocks a b"
| "binop_value B_Mul a b = field_mul_goldilocks a b"
| "binop_value B_Div a b =
     (if b = 0 then 0 else field_mul_goldilocks a (field_inverse_goldilocks b))"
| "binop_value B_Eq a b = bool_word (a = b)"
| "binop_value B_Neq a b = bool_word (a \<noteq> b)"
| "binop_value B_Lt a b = bool_word (a < b)"
| "binop_value B_Gt a b = bool_word (a > b)"
| "binop_value B_Lte a b = bool_word (a \<le> b)"
| "binop_value B_Gte a b = bool_word (a \<ge> b)"

definition read_slot :: "(i32 \<rightharpoonup> u64) \<Rightarrow> i32 \<Rightarrow> u64" where
  "read_slot sto slot = (case sto slot of Some v \<Rightarrow> v | None \<Rightarrow> 0)"

text \<open>A mapping entry lives in the slot given by the low 32 bits of a hash.\<close>

definition mapping_slot :: "i32 \<Rightarrow> u64 \<Rightarrow> i32" where
  "mapping_slot base key = ucast (poseidon4_hash (scast base) key)"

fun pure_expr :: "expr \<Rightarrow> bool" where
  "pure_expr (EInt v) = (v < GOLDILOCKS_P)"
| "pure_expr (EIdent x) = True"
| "pure_expr (EStorageRead x) = True"
| "pure_expr (EMappingRead x k) = pure_expr k"
| "pure_expr (EBinary l op r) = (pure_expr l \<and> pure_expr r)"
| "pure_expr (ECall f args) =
     (if f = ''poseidon'' then length args = 2 \<and> (\<forall>a \<in> set args. pure_expr a)
      else f \<in> {''msg::sender'', ''msg::nonce'', ''block::number''})"
| "pure_expr _ = False"

fun eval :: "storage_map \<Rightarrow> vm_context \<Rightarrow> (i32 \<rightharpoonup> u64) \<Rightarrow> (string \<Rightarrow> u64) \<Rightarrow> expr \<Rightarrow> u64" where
  "eval slots c sto \<rho> (EInt v) = v"
| "eval slots c sto \<rho> (EIdent x) = \<rho> x"
| "eval slots c sto \<rho> (EStorageRead x) = read_slot sto (the (slots x))"
| "eval slots c sto \<rho> (EMappingRead x k) =
     read_slot sto (mapping_slot (the (slots x)) (eval slots c sto \<rho> k))"
| "eval slots c sto \<rho> (EBinary l op r) = binop_value op (eval slots c sto \<rho> l) (eval slots c sto \<rho> r)"
| "eval slots c sto \<rho> (ECall f args) =
     (if f = ''poseidon'' then
        (case map (eval slots c sto \<rho>) args of [a, b] \<Rightarrow> poseidon4_hash a b | _ \<Rightarrow> 0)
      else if f = ''msg::sender'' then sender c
      else if f = ''msg::nonce'' then nonce c
      else block_height c)"
| "eval slots c sto \<rho> _ = 0"

section \<open>Straight-line code\<close>

definition inst_value :: "(i32 \<rightharpoonup> u64) \<Rightarrow> vm_context \<Rightarrow> instruction \<Rightarrow> u64 list \<Rightarrow> u64" where
  "inst_value sto c i rs =
     (let a = rs ! unat (rs1 i); b = rs ! unat (rs2 i)
      in case opcode i of
           Op_Load \<Rightarrow> scast (imm i)
         | Op_SRead \<Rightarrow> read_slot sto (storage_slot i b)
         | Op_Poseidon \<Rightarrow> poseidon4_hash a b
         | Op_Syscall \<Rightarrow>
             if imm i = 1 then sender c else if imm i = 2 then block_height c else nonce c
         | op \<Rightarrow> (case arith_result op a b of
                    Some v \<Rightarrow> v
                  | None \<Rightarrow> the (compare_result op a b)))"

definition exec_inst :: "(i32 \<rightharpoonup> u64) \<Rightarrow> vm_context \<Rightarrow> instruction \<Rightarrow> u64 list \<Rightarrow> u64 list" where
  "exec_inst sto c i rs = rs[unat (rd i) := inst_value sto c i rs]"

definition exec_code :: "(i32 \<rightharpoonup> u64) \<Rightarrow> vm_context \<Rightarrow> instruction list \<Rightarrow> u64 list \<Rightarrow> u64 list" where
  "exec_code sto c code rs = fold (exec_inst sto c) code rs"

definition pure_inst :: "instruction \<Rightarrow> bool" where
  "pure_inst i \<longleftrightarrow> encodable i \<and> 0 < rd i \<and>
     (opcode i = Op_Load \<and> rs1 i = 0 \<or>
      opcode i = Op_Syscall \<and> imm i \<in> {1, 2, 3} \<or>
      opcode i \<in> {Op_SRead, Op_Poseidon, Op_Add, Op_Sub, Op_Mul, Op_Div,
                  Op_Eq, Op_Neq, Op_Lt, Op_Gt, Op_Lte, Op_Gte})"

lemma exec_code_Nil [simp]: "exec_code sto c [] rs = rs"
  by (simp add: exec_code_def)

lemma exec_code_Cons [simp]: "exec_code sto c (i # is) rs = exec_code sto c is (exec_inst sto c i rs)"
  by (simp add: exec_code_def)

lemma exec_code_append [simp]:
  "exec_code sto c (xs @ ys) rs = exec_code sto c ys (exec_code sto c xs rs)"
  by (simp add: exec_code_def)

lemma length_exec_code [simp]: "length (exec_code sto c code rs) = length rs"
  by (induction code arbitrary: rs) (simp_all add: exec_inst_def)

lemma exec_code_r0: "list_all pure_inst code \<Longrightarrow> exec_code sto c code rs ! 0 = rs ! 0"
  by (induction code arbitrary: rs)
    (auto simp: exec_inst_def pure_inst_def word_less_nat_alt nth_list_update split: if_splits)

section \<open>The generator's state\<close>

lemma emit_simps [simp]:
  "instructions (emit op d s1 s2 im g) = instructions g @ [encode (asm op d s1 s2 im)]"
  "next_reg (emit op d s1 s2 im g) = next_reg g"
  "gen_error (emit op d s1 s2 im g) = gen_error g"
  "unpatched_calls (emit op d s1 s2 im g) = unpatched_calls g"
  "struct_layouts (emit op d s1 s2 im g) = struct_layouts g"
  "layout_values (emit op d s1 s2 im g) = layout_values g"
  "failed (emit op d s1 s2 im g) = failed g"
  by (simp_all add: emit_def is_experimental_def failed_def)

lemma set_error_simps [simp]:
  "failed (set_error e g)" "instructions (set_error e g) = instructions g"
  "next_reg (set_error e g) = next_reg g"
  by (simp_all add: set_error_def failed_def)

lemma failed_update [simp]:
  "failed (g\<lparr>next_reg := n\<rparr>) = failed g" "failed (g\<lparr>unpatched_calls := u\<rparr>) = failed g"
  "failed (g\<lparr>instructions := xs\<rparr>) = failed g"
  by (simp_all add: failed_def)

lemma alloc_reg_ok:
  "alloc_reg g = (r, g') \<Longrightarrow> \<not> failed g' \<Longrightarrow>
   r = next_reg g \<and> next_reg g < 31 \<and> g' = g\<lparr>next_reg := next_reg g + 1\<rparr> \<and> \<not> failed g"
  by (auto simp: alloc_reg_def split: if_splits)

lemma alloc_reg_failed: "alloc_reg g = (r, g') \<Longrightarrow> failed g \<Longrightarrow> failed g'"
  by (auto simp: alloc_reg_def set_error_def failed_def split: if_splits)

lemma of_nat_u8: "n < 32 \<Longrightarrow> unat (of_nat n :: u8) = n"
  by (simp add: unsigned_of_nat take_bit_nat_eq_self)

lemma asm_fields [simp]:
  "opcode (asm op d a b im) = op" "imm (asm op d a b im) = im" "rs1 (asm op d 0 b im) = 0"
  "d < 32 \<Longrightarrow> unat (rd (asm op d a b im)) = d" "a < 32 \<Longrightarrow> unat (rs1 (asm op d a b im)) = a"
  "b < 32 \<Longrightarrow> unat (rs2 (asm op d a b im)) = b" "d < 32 \<Longrightarrow> 0 < rd (asm op d a b im) \<longleftrightarrow> 0 < d"
  by (simp_all add: asm_def of_nat_u8 word_less_nat_alt)

lemma encodable_asm [simp]: "d < 32 \<Longrightarrow> a < 32 \<Longrightarrow> b < 32 \<Longrightarrow> encodable (asm op d a b im)"
  by (simp add: encodable_def word_less_nat_alt asm_def of_nat_u8)

text \<open>Once an error is set it stays.\<close>

lemma failed_generate_expr [simp]: "failed g \<Longrightarrow> generate_expr scope slots e g = (0, g)"
  by (cases e) simp_all

text \<open>Appending code.\<close>

definition emits :: "instruction list \<Rightarrow> codegen \<Rightarrow> codegen" where
  "emits code g = g\<lparr>instructions := instructions g @ map encode code\<rparr>"

lemma emit_emits: "emit op d a b im g = emits [asm op d a b im] g"
  by (simp add: emit_def emits_def is_experimental_def)

lemma emits_simps [simp]:
  "emits [] g = g" "emits ys (emits xs g) = emits (xs @ ys) g"
  "instructions (emits code g) = instructions g @ map encode code"
  "next_reg (emits code g) = next_reg g" "gen_error (emits code g) = gen_error g"
  "unpatched_calls (emits code g) = unpatched_calls g" "struct_layouts (emits code g) = struct_layouts g"
  "layout_values (emits code g) = layout_values g" "failed (emits code g) = failed g"
  "(emits code g)\<lparr>next_reg := n\<rparr> = emits code (g\<lparr>next_reg := n\<rparr>)"
  "here (emits code g) = here g + length code"
  by (simp_all add: emits_def failed_def here_def)

lemma alloc_emits: "alloc_reg (emits code g) = map_prod id (emits code) (alloc_reg g)"
  by (simp add: alloc_reg_def set_error_def emits_def)

section \<open>Literals\<close>

definition digit_code :: "nat \<Rightarrow> nat \<Rightarrow> nat \<Rightarrow> i32 \<Rightarrow> instruction list" where
  "digit_code r s t ch =
     asm Op_Mul r r s 0 #
     (if sint ch > 0 then [asm Op_Load t 0 0 ch, asm Op_Add r r t 0] else [])"

lemma emit_digit_started: "emit_digit r s t ch (True, g) = (True, emits (digit_code r s t ch) g)"
  by (simp add: emit_digit_def digit_code_def Let_def emit_emits)

lemma emit_digit_first:
  "emit_digit r s t ch (False, g) =
   (if sint ch > 0 then (True, emits [asm Op_Load r 0 0 ch] g) else (False, g))"
  by (simp add: emit_digit_def emit_emits)

definition literal_code :: "nat \<Rightarrow> u64 \<Rightarrow> instruction list" where
  "literal_code r v =
     (let ds = literal_digits v; ds = (if sint (ds ! 0) > 0 then ds else tl ds)
      in asm Op_Load (r + 1) 0 0 1073741824 # asm Op_Load r 0 0 (ds ! 0) #
         concat (map (digit_code r (r + 1) (r + 2)) (tl ds)))"

lemma i32_nonneg:
  assumes "unat (d :: i32) < 2 ^ 31"
  shows "0 < sint d \<longleftrightarrow> 0 < unat d" "unat (scast d :: u64) = unat d"
proof -
  have "int (unat d) < int (2 ^ 31)" using assms by (simp only: of_nat_less_iff)
  hence "uint d < 2 ^ 31" by simp
  hence "signed_take_bit 31 (uint d) = uint d"
    by (intro signed_take_bit_int_eq_self) (rule order_trans [of _ 0], simp_all)
  hence s: "sint d = int (unat d)" by (simp add: sint_uint)
  thus "0 < sint d \<longleftrightarrow> 0 < unat d" by (simp only: of_nat_0_less_iff)
  have "(scast d :: u64) = of_nat (unat d)" unfolding scast_eq s by simp
  thus "unat (scast d :: u64) = unat d"
    using assms by (simp add: unsigned_ucast_eq take_bit_nat_eq_self)
qed

lemma literal_digit_nat:
  "unat (literal_digits v ! 0) = unat v div 2 ^ 60"
  "unat (literal_digits v ! 1) = unat v div 2 ^ 30 mod 2 ^ 30"
  "unat (literal_digits v ! 2) = unat v mod 2 ^ 30"
proof -
  have m: "x AND 0xF = take_bit 4 x" "x AND 0x3FFFFFFF = take_bit 30 x" for x :: u64
    by (simp_all only: take_bit_eq_mask) (simp_all add: mask_eq_exp_minus_1)
  have t: "unat (take_bit n v) = unat v mod 2 ^ n" for n v 
    by (simp add: unsigned_take_bit_eq take_bit_nat_def)
  have d: "unat (drop_bit n v) = unat v div 2 ^ n" for n and v :: u64 
    using u64_less [of v] by (simp add: unsigned_drop_bit_eq drop_bit_nat_def take_bit_nat_eq_self)
  have u: "unat (ucast x :: i32) = unat x" if "unat x < 2 ^ 32" for x :: u64
    using that by (simp add: unsigned_ucast_eq take_bit_nat_eq_self)
  have "unat v div 2 ^ 60 < 2 ^ 4" using u64_less [of v] by (simp add: less_mult_imp_div_less)
  thus "unat (literal_digits v ! 0) = unat v div 2 ^ 60"
    unfolding literal_digits_def m by (simp add: u t d)
  have "x mod 2 ^ 30 < 2 ^ 32" for x :: nat by (rule less_trans [of _ "2 ^ 30"]) simp_all
  hence "unat (ucast (take_bit 30 x) :: i32) = unat x mod 2 ^ 30" for x :: u64
    by (subst u) (simp_all only: t)
  thus "unat (literal_digits v ! 1) = unat v div 2 ^ 30 mod 2 ^ 30"
    "unat (literal_digits v ! 2) = unat v mod 2 ^ 30"
    unfolding literal_digits_def m by (simp_all add: d)
qed

lemma exec_code_keeps:
  "list_all (\<lambda>i. n \<le> unat (rd i)) code \<Longrightarrow> k < n \<Longrightarrow> exec_code sto c code rs ! k = rs ! k"
  by (induction code arbitrary: rs) (auto simp: exec_inst_def nth_list_update)

lemma exec_inst_asm:
  "d < 32 \<Longrightarrow> exec_inst sto c (asm op d a b im) rs = rs[d := inst_value sto c (asm op d a b im) rs]"
  by (simp add: exec_inst_def of_nat_u8)

lemma inst_value_asm [simp]:
  "inst_value sto c (asm Op_Load d a b im) rs = scast im"
  "a < 32 \<Longrightarrow> b < 32 \<Longrightarrow> inst_value sto c (asm Op_Add d a b im) rs = field_add_goldilocks (rs ! a) (rs ! b)"
  "a < 32 \<Longrightarrow> b < 32 \<Longrightarrow> inst_value sto c (asm Op_Mul d a b im) rs = field_mul_goldilocks (rs ! a) (rs ! b)"
  "a < 32 \<Longrightarrow> b < 32 \<Longrightarrow> inst_value sto c (asm Op_Poseidon d a b im) rs = poseidon4_hash (rs ! a) (rs ! b)"
  by (simp_all add: inst_value_def of_nat_u8)

lemma inst_value_binop:
  "a < 32 \<Longrightarrow> b < 32 \<Longrightarrow>
   inst_value sto c (asm (opcode_of op) d a b im) rs = binop_value op (rs ! a) (rs ! b)"
  by (cases op) (simp_all add: inst_value_def of_nat_u8 bool_word_def field_mul_goldilocks_def)

lemma pure_load: "0 < d \<Longrightarrow> d < 32 \<Longrightarrow> pure_inst (asm Op_Load d 0 0 im)"
  by (simp add: pure_inst_def)

lemma pure_asm:
  assumes "0 < d" "d < 32" "a < 32" "b < 32"
  shows "pure_inst (asm Op_SRead d a b im)"
    "pure_inst (asm Op_Poseidon d a b im)" "pure_inst (asm (opcode_of op) d a b im)"
    "im \<in> {1, 2, 3} \<Longrightarrow> pure_inst (asm Op_Syscall d a b im)"
    "pure_inst (asm Op_Add d a b im)" "pure_inst (asm Op_Mul d a b im)"
  using assms by (cases op; auto simp: pure_inst_def)+

section \<open>Literal values\<close>

text \<open>One digit: multiply by \<open>2^30\<close> and add it.\<close>

lemma scast_1073741824: "scast (1073741824 :: i32) = (1073741824 :: u64)"
  by code_simp

lemma exec_digit_code:
  assumes "length rs = 32" "r + 2 < 32" "rs ! (r + 1) = 1073741824" "unat ch < 2 ^ 31"
    and "canonical (rs ! r)" "unat (rs ! r) * 2 ^ 30 + unat ch < gP"
  shows "exec_code sto c (digit_code r (r + 1) (r + 2) ch) rs ! (r + 1) = 1073741824"
    "unat (exec_code sto c (digit_code r (r + 1) (r + 2) ch) rs ! r) = unat (rs ! r) * 2 ^ 30 + unat ch"
  using assms i32_nonneg [OF assms(4)]
  by (auto simp: digit_code_def exec_inst_asm field_mul_nat field_add_nat)

lemma exec_literal_code:
  assumes len: "length rs = 32" "r + 2 < 32" and v: "v < GOLDILOCKS_P" "0x7FFFFFFF < v"
  shows "exec_code sto c (literal_code r v) rs ! r = v"
proof -
  let ?n = "unat v" and ?q = "unat v div 2 ^ 30" and ?d = "\<lambda>k. literal_digits v ! k"
  let ?code = "digit_code r (r + 1) (r + 2)"
  have n: "?n < gP" "2 ^ 31 \<le> ?n" using v by (simp_all add: word_less_nat_alt GOLDILOCKS_P_def)
  have ds: "tl (literal_digits v) = [?d 1, ?d 2]" by (simp add: literal_digits_def)
  have q: "?n div 2 ^ 60 = ?q div 2 ^ 30" by (simp flip: div_mult2_eq)
  have q_split: "?q div 2 ^ 30 * 2 ^ 30 + ?q mod 2 ^ 30 = ?q" by (rule div_mult_mod_eq)
  have n_split: "?q * 2 ^ 30 + ?n mod 2 ^ 30 = ?n" by (rule div_mult_mod_eq)
  have q_le: "?q \<le> ?n" by (rule div_le_dividend)
  note dn = literal_digit_nat [of v, unfolded q]
  have small: "unat (?d 0) < 2 ^ 31" "unat (?d 1) < 2 ^ 31" "unat (?d 2) < 2 ^ 31"
    unfolding dn using n(1) by (auto intro: less_trans [of _ "2 ^ 30"])
  have last: "unat (exec_code sto c (?code (?d 2)) rs' ! r) = ?n"
    if "length rs' = 32" "rs' ! (r + 1) = 1073741824" "unat (rs' ! r) = ?q" for rs'
    using exec_digit_code(2) [OF that(1) len(2) that(2) small(3)] that(3) n q_le n_split
    unfolding dn by (simp add: canonical_iff)
  define rs0 where "rs0 k = rs[r + 1 := 1073741824, r := scast (?d k)]" for k
  have rs0: "length (rs0 k) = 32" "rs0 k ! (r + 1) = 1073741824" "rs0 k ! r = scast (?d k)" for k
    using len by (simp_all add: rs0_def)
  have "unat (exec_code sto c (literal_code r v) rs ! r) = ?n"
  proof (cases "0 < unat (?d 0)")
    case True
    have code: "exec_code sto c (literal_code r v) rs =
        exec_code sto c (?code (?d 2)) (exec_code sto c (?code (?d 1)) (rs0 0))"
      using True len i32_nonneg(1) [OF small(1)]
      by (simp add: literal_code_def Let_def exec_inst_asm rs0_def ds scast_1073741824)
    have v0: "unat (rs0 0 ! r) = ?q div 2 ^ 30"
      unfolding rs0(3) i32_nonneg(2) [OF small(1)] dn ..
    have "canonical (rs0 0 ! r)" "unat (rs0 0 ! r) * 2 ^ 30 + unat (?d 1) < gP"
      unfolding canonical_iff v0 dn q_split
      using le_less_trans [OF q_le n(1)] div_le_dividend [of ?q "2 ^ 30"] by (blast intro: le_less_trans)+
    note d1 = exec_digit_code [OF rs0(1) len(2) rs0(2) small(2) this]
    show ?thesis unfolding code
    proof (rule last)
      show "unat (exec_code sto c (?code (?d 1)) (rs0 0) ! r) = ?q"
        using d1(2) v0 q_split unfolding dn by simp
    qed (use d1(1) rs0(1) in simp_all)
  next
    case False
    hence d1: "unat (?d 1) = ?q" using q_split unfolding dn by simp
    have code: "exec_code sto c (literal_code r v) rs = exec_code sto c (?code (?d 2)) (rs0 1)"
      using False len i32_nonneg(1) [OF small(1)]
      by (simp add: literal_code_def Let_def exec_inst_asm rs0_def ds scast_1073741824)
    show ?thesis unfolding code
      by (rule last) (use rs0 i32_nonneg(2) [OF small(2)] d1 in simp_all)
  qed
  thus ?thesis by (simp add: word_unat_eq_iff)
qed

section \<open>The code of an expression\<close>

fun expr_vars :: "expr \<Rightarrow> string set" where
  "expr_vars (EIdent x) = {x}"
| "expr_vars (EMappingRead x k) = expr_vars k"
| "expr_vars (EBinary l op r) = expr_vars l \<union> expr_vars r"
| "expr_vars (ECall f args) = (\<Union>a \<in> set args. expr_vars a)"
| "expr_vars _ = {}"

definition regs_in :: "scope \<Rightarrow> string set \<Rightarrow> nat \<Rightarrow> bool" where
  "regs_in scope X n \<longleftrightarrow> (\<forall>x \<in> X. \<forall>vi. scope x = Some vi \<longrightarrow> 0 < reg vi \<and> reg vi < n)"

definition holds :: "scope \<Rightarrow> string set \<Rightarrow> (string \<Rightarrow> u64) \<Rightarrow> u64 list \<Rightarrow> bool" where
  "holds scope X \<rho> rs \<longleftrightarrow> (\<forall>x \<in> X. \<exists>vi. scope x = Some vi \<and> rs ! reg vi = \<rho> x)"

definition writes_from :: "nat \<Rightarrow> instruction list \<Rightarrow> bool" where
  "writes_from n code \<longleftrightarrow> list_all (\<lambda>i. pure_inst i \<and> n \<le> unat (rd i) \<and> unat (rd i) < 31) code"

text \<open>\<open>code\<close>, written for \<open>e\<close>, computes its value into \<open>r\<close> and writes no register below \<open>next_reg\<close>.\<close>

definition compiled :: "storage_map \<Rightarrow> scope \<Rightarrow> expr \<Rightarrow> codegen \<Rightarrow> nat \<Rightarrow> codegen \<Rightarrow> instruction list \<Rightarrow> bool" where
  "compiled slots scope e g r g' code \<longleftrightarrow>
     g' = emits code (g\<lparr>next_reg := next_reg g'\<rparr>) \<and>
     next_reg g \<le> next_reg g' \<and> next_reg g' \<le> 31 \<and> 0 < r \<and> r < next_reg g' \<and>
     ((\<forall>x. e \<noteq> EIdent x) \<longrightarrow> next_reg g \<le> r) \<and> writes_from (next_reg g) code \<and>
     (\<forall>sto c \<rho> rs. length rs = 32 \<longrightarrow> rs ! 0 = 0 \<longrightarrow> holds scope (expr_vars e) \<rho> rs \<longrightarrow>
        exec_code sto c code rs ! r = eval slots c sto \<rho> e)"

lemma writes_from_simps [simp]:
  "writes_from n []" "writes_from n (xs @ ys) \<longleftrightarrow> writes_from n xs \<and> writes_from n ys"
  "writes_from n (i # is) \<longleftrightarrow> pure_inst i \<and> n \<le> unat (rd i) \<and> unat (rd i) < 31 \<and> writes_from n is"
  by (simp_all add: writes_from_def)

lemma writes_from_mono: "writes_from m code \<Longrightarrow> n \<le> m \<Longrightarrow> writes_from n code"
  by (auto simp: writes_from_def list_all_iff)

lemma writes_from_keeps:
  assumes "writes_from n code" "k < n \<or> k = 0 \<or> k = 31"
  shows "exec_code sto c code rs ! k = rs ! k"
  using assms
  by (induction code arbitrary: rs)
    (auto simp: exec_inst_def nth_list_update pure_inst_def word_less_nat_alt split: if_splits)

lemma holds_keeps:
  assumes "writes_from n code" "regs_in scope X n" "holds scope X \<rho> rs"
  shows "holds scope X \<rho> (exec_code sto c code rs)"
  using assms writes_from_keeps [OF assms(1)] unfolding holds_def regs_in_def by metis

lemma regs_in_mono: "regs_in scope X n \<Longrightarrow> n \<le> m \<Longrightarrow> Y \<subseteq> X \<Longrightarrow> regs_in scope Y m"
  unfolding regs_in_def by (meson order_less_le_trans subsetD)

lemma holds_subset: "holds scope X \<rho> rs \<Longrightarrow> Y \<subseteq> X \<Longrightarrow> holds scope Y \<rho> rs"
  unfolding holds_def by blast

lemma compiled_fresh:
  assumes "g' = emits [i] (g\<lparr>next_reg := next_reg g + 1\<rparr>)" "next_reg g < 31" "0 < next_reg g"
    and "pure_inst i" "unat (rd i) = next_reg g" "\<And>x. e \<noteq> EIdent x"
    and "\<And>sto c \<rho> rs. rs ! 0 = 0 \<Longrightarrow> inst_value sto c i rs = eval slots c sto \<rho> e"
  shows "compiled slots scope e g (next_reg g) g' [i]"
  using assms by (simp add: compiled_def exec_inst_def)

definition digit_codes :: "nat \<Rightarrow> nat \<Rightarrow> nat \<Rightarrow> u64 \<Rightarrow> instruction list list" where
  "digit_codes r s t v =
     (let ds = literal_digits v; ds = (if sint (ds ! 0) > 0 then ds else tl ds)
      in [asm Op_Load r 0 0 (ds ! 0)] # map (digit_code r s t) (tl ds))"

lemma literal_lead:
  assumes "0x7FFFFFFF < v" "\<not> 0 < sint (literal_digits v ! 0)"
  shows "0 < sint (literal_digits v ! 1)"
proof -
  note dn = literal_digit_nat [of v]
  have "2 ^ 31 \<le> unat v" using assms(1) by (simp add: word_less_nat_alt)
  hence q: "2 \<le> unat v div 2 ^ 30" by simp
  have s0: "unat (literal_digits v ! 0) < 2 ^ 31"
    unfolding dn using u64_less [of v] by (simp add: less_mult_imp_div_less)
  hence "unat v div 2 ^ 60 = 0" using assms(2) i32_nonneg(1) unfolding dn(1) [symmetric] by auto
  hence "unat v div 2 ^ 30 mod 2 ^ 30 = unat v div 2 ^ 30" by simp
  moreover have "unat (literal_digits v ! 1) < 2 ^ 31" unfolding dn by (rule less_trans [of _ "2 ^ 30"]) simp_all
  ultimately show ?thesis using q i32_nonneg(1) [of "literal_digits v ! 1"] dn(2) by simp
qed

lemma emit_digits:
  assumes "0x7FFFFFFF < v"
  shows "fold (emit_digit r s t) (literal_digits v) (False, g) = (True, emits (concat (digit_codes r s t v)) g)"
proof -
  let ?d = "\<lambda>k. literal_digits v ! k"
  have ds: "literal_digits v = [?d 0, ?d 1, ?d 2]" by (simp add: literal_digits_def)
  have "fold (emit_digit r s t) [?d 0, ?d 1, ?d 2] (False, g) = (True, emits (concat (digit_codes r s t v)) g)"
    using literal_lead [OF assms] ds
    by (cases "0 < sint (?d 0)")
      (simp_all add: emit_digit_first emit_digit_started digit_codes_def Let_def literal_digits_def)
  thus ?thesis unfolding ds [symmetric] .
qed

lemma compiled_int:
  assumes "generate_int v g = (r, g')" "\<not> failed g'" "0 < next_reg g"
  shows "\<exists>code. compiled slots scope (EInt v) g r g' code"
proof (cases "v \<le> 0x7FFFFFFF")
  case True
  have canon: "\<not> GOLDILOCKS_P \<le> v" using assms(1,2) by (auto simp: generate_int_def split: if_splits)
  have "unat v < 2 ^ 31" using True by (simp add: word_le_nat_alt)
  hence u: "unat (ucast v :: i32) = unat v" by (simp add: unsigned_ucast_eq take_bit_nat_eq_self)
  hence "unat (scast (ucast v :: i32) :: u64) = unat v"
    using i32_nonneg(2) [of "ucast v"] \<open>unat v < 2 ^ 31\<close> by simp
  hence val: "scast (ucast v :: i32) = v" by (simp add: word_unat_eq_iff)
  obtain g1 where a: "alloc_reg g = (r, g1)" and g': "g' = emits [asm Op_Load r 0 0 (ucast v)] g1"
    using assms(1) True canon by (auto simp: generate_int_def emit_emits split: prod.splits)
  hence r: "r = next_reg g" "next_reg g < 31" "g1 = g\<lparr>next_reg := next_reg g + 1\<rparr>"
    using alloc_reg_ok [OF a] assms(2) by simp_all
  have "compiled slots scope (EInt v) g r g' [asm Op_Load r 0 0 (ucast v)]"
    unfolding r(1) using assms(3) val g' r by (intro compiled_fresh) (simp_all add: pure_load of_nat_u8)
  thus ?thesis by blast
next
  case False
  have canon: "\<not> GOLDILOCKS_P \<le> v" using assms(1,2) by (auto simp: generate_int_def split: if_splits)
  obtain g1 where a1: "alloc_reg g = (r, g1)" using assms(1) False canon
    by (auto simp: generate_int_def split: prod.splits)
  obtain s g2 where a2: "alloc_reg g1 = (s, g2)" by (cases "alloc_reg g1")
  obtain t g3 where a3: "alloc_reg g2 = (t, g3)" by (cases "alloc_reg g2")
  have g': "g' = emits (asm Op_Load s 0 0 1073741824 # concat (digit_codes r s t v)) g3"
    using assms(1) False canon a1 a2 a3 emit_digits [of v r s t]
    by (simp add: generate_int_def emit_emits alloc_emits)
  have "\<not> failed g3" using assms(2) g' by simp
  hence r: "r = next_reg g" "s = r + 1" "t = r + 2" "r < 29" "g3 = g\<lparr>next_reg := r + 3\<rparr>"
    using alloc_reg_ok [OF a3] alloc_reg_ok [OF a2] alloc_reg_ok [OF a1] by auto
  hence "g' = emits (literal_code r v) (g\<lparr>next_reg := r + 3\<rparr>)"
    unfolding g' by (simp add: literal_code_def digit_codes_def Let_def)
  moreover have "writes_from r (literal_code r v)"
    using r assms(3) by (auto simp: literal_code_def digit_code_def Let_def writes_from_def list_all_iff
        of_nat_u8 pure_asm pure_load)
  moreover have "v < GOLDILOCKS_P" "0x7FFFFFFF < v" using canon False by simp_all
  ultimately have "compiled slots scope (EInt v) g r g' (literal_code r v)"
    using r assms(3) by (simp add: compiled_def exec_literal_code)
  thus ?thesis by blast
qed

lemma finish_binary_ok:
  assumes "finish_binary op s1 l s2 r g = (res, g')" "\<not> failed g'"
  shows "\<not> failed g"
    "l \<ge> s1 \<and> res = l \<or> l < s1 \<and> r \<ge> s2 \<and> res = r \<or> l < s1 \<and> r < s2 \<and> res = next_reg g \<and> next_reg g < 31"
    "g' = emits [asm op res l r 0] (g\<lparr>next_reg := max (res + 1) s1\<rparr>)"
  using assms alloc_reg_failed [of g]
  by (auto simp: finish_binary_def emit_emits Let_def alloc_reg_def split: if_splits)

lemma compiled_binary:
  assumes l: "compiled slots scope a g l g1 cl" and r: "compiled slots scope b g1 r g2 cr"
    and fin: "finish_binary op (next_reg g) l (next_reg g1) r g2 = (res, g')" "\<not> failed g'"
    and scope: "regs_in scope (expr_vars a \<union> expr_vars b) (next_reg g)" and pos: "0 < next_reg g"
    and e: "\<And>x. e \<noteq> EIdent x" "expr_vars e = expr_vars a \<union> expr_vars b"
    and op: "\<And>d i j. 0 < d \<Longrightarrow> d < 32 \<Longrightarrow> i < 32 \<Longrightarrow> j < 32 \<Longrightarrow> pure_inst (asm op d i j 0)"
    and val: "\<And>sto c \<rho> d i j rs. i < 32 \<Longrightarrow> j < 32 \<Longrightarrow>
        rs ! i = eval slots c sto \<rho> a \<Longrightarrow> rs ! j = eval slots c sto \<rho> b \<Longrightarrow>
        inst_value sto c (asm op d i j 0) rs = eval slots c sto \<rho> e"
  shows "compiled slots scope e g res g' (cl @ cr @ [asm op res l r 0])"
proof -
  note L = l [unfolded compiled_def] and R = r [unfolded compiled_def] and F = finish_binary_ok [OF fin]
  have g1: "next_reg g \<le> next_reg g1" "l < next_reg g1" "writes_from (next_reg g) cl" using L by simp_all
  have g2: "next_reg g1 \<le> next_reg g2" "next_reg g2 \<le> 31" "r < next_reg g2" "writes_from (next_reg g1) cr"
    using R by simp_all
  have small: "l < 31" "r < 31" "next_reg g \<le> res" "res < 31" using g1 g2 F(2) by auto
  have cr: "writes_from (next_reg g) cr" using g1(1) g2(4) by (rule writes_from_mono [rotated])
  have "exec_code sto c (cl @ cr @ [asm op res l r 0]) rs ! res = eval slots c sto \<rho> e"
    if rs: "length rs = 32" "rs ! 0 = 0" "holds scope (expr_vars e) \<rho> rs" for sto c \<rho> rs
  proof -
    let ?r1 = "exec_code sto c cl rs" and ?r2 = "exec_code sto c cr (exec_code sto c cl rs)"
    have ha: "holds scope (expr_vars a) \<rho> rs" and hb: "holds scope (expr_vars b) \<rho> rs"
      using rs(3) unfolding e(2) by (auto intro: holds_subset)
    have "holds scope (expr_vars b) \<rho> ?r1"
      using g1(3) regs_in_mono [OF scope] hb by (intro holds_keeps) auto
    hence "?r2 ! r = eval slots c sto \<rho> b"
      using R rs writes_from_keeps [OF g1(3), of 0] by simp
    moreover have "?r2 ! l = eval slots c sto \<rho> a"
      using L rs ha writes_from_keeps [OF g2(4)] g1(2) by simp
    ultimately have "inst_value sto c (asm op res l r 0) ?r2 = eval slots c sto \<rho> e"
      using small by (intro val) simp_all
    thus ?thesis using small rs(1) by (simp add: exec_inst_def)
  qed
  moreover have "g' = emits (cl @ cr @ [asm op res l r 0]) (g\<lparr>next_reg := next_reg g'\<rparr>)"
  proof -
    have n: "next_reg g' = max (res + 1) (next_reg g)" unfolding F(3) by simp
    have "g' = emits [asm op res l r 0] ((emits cr (emits cl (g\<lparr>next_reg := n\<rparr>)\<lparr>next_reg := m\<rparr>))
        \<lparr>next_reg := next_reg g'\<rparr>)" if "n = next_reg g1" "m = next_reg g2" for n m
      using L R F(3) n that by metis
    thus ?thesis by simp
  qed
  moreover have "next_reg g' = res + 1" using F(3) small by simp
  moreover have "pure_inst (asm op res l r 0)" using small pos by (intro op) simp_all
  ultimately show ?thesis
    unfolding compiled_def using small pos g1 cr e(1) by simp
qed

lemma storage_slot_asm:
  "storage_slot (asm op d a b im) v = (if im = - 1 then ucast v else im)"
  by (simp add: storage_slot_def)

definition nonneg_slots :: "storage_map \<Rightarrow> bool" where
  "nonneg_slots slots \<longleftrightarrow> (\<forall>x s. slots x = Some s \<longrightarrow> s \<noteq> - 1)"

lemma compiled_storage_read:
  assumes "generate_expr scope slots (EStorageRead x) g = (r, g')" "\<not> failed g'" "0 < next_reg g"
    and "nonneg_slots slots"
  shows "\<exists>code. compiled slots scope (EStorageRead x) g r g' code"
proof -
  have nf: "\<not> failed g" using assms(1,2) by auto
  obtain r0 g1 where a: "alloc_reg g = (r0, g1)" by (cases "alloc_reg g")
  obtain slot where slot: "slots x = Some slot" and r0: "r = r0" and g': "g' = emits [asm Op_SRead r 0 0 slot] g1"
    using assms(1,2) nf a by (auto simp: emit_emits split: option.splits)
  hence r: "r = next_reg g" "next_reg g < 31" "g1 = g\<lparr>next_reg := next_reg g + 1\<rparr>"
    using alloc_reg_ok [OF a] assms(2) by simp_all
  have "slot \<noteq> - 1" using slot assms(4) by (simp add: nonneg_slots_def)
  hence "compiled slots scope (EStorageRead x) g r g' [asm Op_SRead r 0 0 slot]"
    unfolding r(1) using g' r slot assms(3)
    by (intro compiled_fresh) (simp_all add: pure_asm inst_value_def storage_slot_asm)
  thus ?thesis by blast
qed

lemma compiled_syscall:
  assumes "emit_syscall n g = (r, g')" "\<not> failed g'" "0 < next_reg g" "n \<in> {1, 2, 3}"
    and "\<And>sto \<rho> c. eval slots c sto \<rho> e = (if n = 1 then sender c else if n = 2 then block_height c else nonce c)"
    and "\<And>x. e \<noteq> EIdent x"
  shows "compiled slots scope e g r g' [asm Op_Syscall r 0 0 n]"
proof -
  obtain r0 g1 where a: "alloc_reg g = (r0, g1)" by (cases "alloc_reg g")
  hence g': "g' = emits [asm Op_Syscall r 0 0 n] g1" "r0 = r"
    using assms(1) by (auto simp: emit_syscall_def emit_emits)
  hence r: "r = next_reg g" "next_reg g < 31" "g1 = g\<lparr>next_reg := next_reg g + 1\<rparr>"
    using alloc_reg_ok [OF a] assms(2) by simp_all
  show ?thesis unfolding r(1) using g' r assms(3-6)
    by (intro compiled_fresh) (auto simp: pure_asm inst_value_def)
qed

lemma compiled_mapping_read:
  assumes k: "compiled slots scope k g kr g1 ck" and slot: "slots x = Some slot" and pos: "0 < next_reg g"
    and scope: "regs_in scope (expr_vars k) (next_reg g)"
    and gen: "alloc_reg g1 = (b, g2)" "alloc_reg (emits [asm Op_Load b 0 0 slot] g2) = (t, g3)"
      "alloc_reg (emits [asm Op_Poseidon t b kr 0] g3) = (r, g4)"
      "g' = emits [asm Op_SRead r 0 t (- 1)] g4" "\<not> failed g'"
  shows "compiled slots scope (EMappingRead x k) g r g'
    (ck @ [asm Op_Load b 0 0 slot, asm Op_Poseidon t b kr 0, asm Op_SRead r 0 t (- 1)])"
proof -
  note K = k [unfolded compiled_def]
  have "\<not> failed g4" using gen(4,5) by simp
  note a3 = alloc_reg_ok [OF gen(3) this]
  hence "\<not> failed g3" by simp
  note a2 = alloc_reg_ok [OF gen(2) this]
  hence "\<not> failed g2" by simp
  note a1 = alloc_reg_ok [OF gen(1) this]
  have regs: "b = next_reg g1" "t = b + 1" "r = b + 2" "r < 31" "kr < b" "next_reg g \<le> b"
    using a1 a2 a3 K by auto
  have g4: "g4 = emits [asm Op_Load b 0 0 slot, asm Op_Poseidon t b kr 0] (g1\<lparr>next_reg := r + 1\<rparr>)"
    using a1 a2 a3 regs by simp
  have g1: "g1 = emits ck (g\<lparr>next_reg := next_reg g1\<rparr>)" using K by blast
  have "g' = emits (ck @ [asm Op_Load b 0 0 slot, asm Op_Poseidon t b kr 0, asm Op_SRead r 0 t (- 1)])
      (g\<lparr>next_reg := next_reg g'\<rparr>)"
    using g4 gen(4) arg_cong [OF g1, of "\<lambda>h. h\<lparr>next_reg := r + 1\<rparr>"] by simp
  moreover have "exec_code sto c (ck @ [asm Op_Load b 0 0 slot, asm Op_Poseidon t b kr 0, asm Op_SRead r 0 t (- 1)]) rs ! r
      = eval slots c sto \<rho> (EMappingRead x k)"
    if rs: "length rs = 32" "rs ! 0 = 0" "holds scope (expr_vars k) \<rho> rs" for sto c \<rho> rs
  proof -
    let ?r1 = "exec_code sto c ck rs"
    have "?r1 ! kr = eval slots c sto \<rho> k" using K rs by blast
    thus ?thesis using regs rs(1) slot
      by (simp add: exec_inst_asm inst_value_def storage_slot_asm mapping_slot_def)
  qed
  moreover have "next_reg g' = r + 1" using gen(4) g4 by simp
  ultimately show ?thesis
    unfolding compiled_def using regs pos K by (simp add: pure_asm pure_load)
qed

text \<open>An expression the generator compiles from any state with room for it.\<close>

definition compiles :: "storage_map \<Rightarrow> scope \<Rightarrow> expr \<Rightarrow> bool" where
  "compiles slots scope e \<longleftrightarrow> (\<forall>g r g'. generate_expr scope slots e g = (r, g') \<longrightarrow> \<not> failed g' \<longrightarrow>
     0 < next_reg g \<longrightarrow> next_reg g \<le> 31 \<longrightarrow> regs_in scope (expr_vars e) (next_reg g) \<longrightarrow>
     (\<exists>code. compiled slots scope e g r g' code))"

lemma compilesD:
  "compiles slots scope e \<Longrightarrow> generate_expr scope slots e g = (r, g') \<Longrightarrow> \<not> failed g' \<Longrightarrow>
   0 < next_reg g \<Longrightarrow> next_reg g \<le> 31 \<Longrightarrow> regs_in scope (expr_vars e) (next_reg g) \<Longrightarrow>
   \<exists>code. compiled slots scope e g r g' code"
  unfolding compiles_def by blast

lemma compiled_operands:
  assumes ab: "compiles slots scope a" "compiles slots scope b"
    and gen: "generate_expr scope slots a g = (l, g1)" "generate_expr scope slots b g1 = (r, g2)"
    and fin: "finish_binary op (next_reg g) l (next_reg g1) r g2 = (res, g')" "\<not> failed g'"
    and scope: "regs_in scope (expr_vars a \<union> expr_vars b) (next_reg g)" and pos: "0 < next_reg g" "next_reg g \<le> 31"
    and e: "\<And>x. e \<noteq> EIdent x" "expr_vars e = expr_vars a \<union> expr_vars b"
    and op: "\<And>d i j. 0 < d \<Longrightarrow> d < 32 \<Longrightarrow> i < 32 \<Longrightarrow> j < 32 \<Longrightarrow> pure_inst (asm op d i j 0)"
    and val: "\<And>sto c \<rho> d i j rs. i < 32 \<Longrightarrow> j < 32 \<Longrightarrow>
        rs ! i = eval slots c sto \<rho> a \<Longrightarrow> rs ! j = eval slots c sto \<rho> b \<Longrightarrow>
        inst_value sto c (asm op d i j 0) rs = eval slots c sto \<rho> e"
  shows "\<exists>code. compiled slots scope e g res g' code"
proof -
  have nf2: "\<not> failed g2" using finish_binary_ok(1) [OF fin] .
  hence nf1: "\<not> failed g1" using gen(2) by auto
  obtain cl where l: "compiled slots scope a g l g1 cl"
    using compilesD [OF ab(1) gen(1) nf1 pos] regs_in_mono [OF scope] by auto
  hence "next_reg g \<le> next_reg g1" "next_reg g1 \<le> 31" by (simp_all add: compiled_def)
  then obtain cr where r: "compiled slots scope b g1 r g2 cr"
    using compilesD [OF ab(2) gen(2) nf2] regs_in_mono [OF scope] pos(1) by fastforce
  show ?thesis using compiled_binary [OF l r fin scope pos(1) e op val] by blast
qed

lemma compiles_mapping_read:
  assumes k: "compiles slots scope k"
  shows "compiles slots scope (EMappingRead x k)"
  unfolding compiles_def
proof (intro allI impI)
  fix g r g'
  assume gen: "generate_expr scope slots (EMappingRead x k) g = (r, g')" and nf: "\<not> failed g'"
    and pos: "0 < next_reg g" "next_reg g \<le> 31"
    and scope: "regs_in scope (expr_vars (EMappingRead x k)) (next_reg g)"
  have "\<not> failed g" using gen nf by auto
  then obtain slot where slot: "slots x = Some slot" using gen nf by (auto split: option.splits)
  obtain kr g1 where k1: "generate_expr scope slots k g = (kr, g1)" by (cases "generate_expr scope slots k g")
  obtain b g2 where a1: "alloc_reg g1 = (b, g2)" by (cases "alloc_reg g1")
  obtain t g3 where a2: "alloc_reg (emits [asm Op_Load b 0 0 slot] g2) = (t, g3)"
    by (cases "alloc_reg (emits [asm Op_Load b 0 0 slot] g2)")
  obtain r' g4 where a3: "alloc_reg (emits [asm Op_Poseidon t b kr 0] g3) = (r', g4)"
    by (cases "alloc_reg (emits [asm Op_Poseidon t b kr 0] g3)")
  have g': "g' = emits [asm Op_SRead r 0 t (- 1)] g4" "r' = r"
    using gen \<open>\<not> failed g\<close> slot k1 a1 a2 a3 by (auto simp: emit_emits)
  have "\<not> failed g1"
    using nf g' alloc_reg_failed [OF a1] alloc_reg_failed [OF a2] alloc_reg_failed [OF a3] by auto
  then obtain ck where ck: "compiled slots scope k g kr g1 ck" using compilesD [OF k k1] pos scope by auto
  have "regs_in scope (expr_vars k) (next_reg g)" using scope by simp
  note compiled_mapping_read [OF ck slot pos(1) this a1 a2 a3 [unfolded g'(2)] g'(1) nf]
  thus "\<exists>code. compiled slots scope (EMappingRead x k) g r g' code" by blast
qed

lemma compiles_binary:
  assumes "compiles slots scope a" "compiles slots scope b"
  shows "compiles slots scope (EBinary a op b)"
  unfolding compiles_def
proof (intro allI impI)
  fix g r g'
  assume gen: "generate_expr scope slots (EBinary a op b) g = (r, g')" and nf: "\<not> failed g'"
    and *: "0 < next_reg g" "next_reg g \<le> 31" "regs_in scope (expr_vars (EBinary a op b)) (next_reg g)"
  obtain la g1 where g1: "generate_expr scope slots a g = (la, g1)" by (cases "generate_expr scope slots a g")
  obtain lb g2 where g2: "generate_expr scope slots b g1 = (lb, g2)" by (cases "generate_expr scope slots b g1")
  have "\<not> failed g" using gen nf by auto
  hence fin: "finish_binary (opcode_of op) (next_reg g) la (next_reg g1) lb g2 = (r, g')"
    using gen g1 g2 by simp
  show "\<exists>code. compiled slots scope (EBinary a op b) g r g' code"
    by (rule compiled_operands [OF assms g1 g2 fin nf]) (use * in \<open>simp_all add: pure_asm inst_value_binop\<close>)
qed

lemma compiles_poseidon:
  assumes "compiles slots scope a" "compiles slots scope b"
  shows "compiles slots scope (ECall ''poseidon'' [a, b])"
  unfolding compiles_def
proof (intro allI impI)
  fix g r g'
  assume gen: "generate_expr scope slots (ECall ''poseidon'' [a, b]) g = (r, g')" and nf: "\<not> failed g'"
    and *: "0 < next_reg g" "next_reg g \<le> 31" "regs_in scope (expr_vars (ECall ''poseidon'' [a, b])) (next_reg g)"
  obtain la g1 where g1: "generate_expr scope slots a g = (la, g1)" by (cases "generate_expr scope slots a g")
  obtain lb g2 where g2: "generate_expr scope slots b g1 = (lb, g2)" by (cases "generate_expr scope slots b g1")
  have "\<not> failed g" using gen nf by auto
  hence fin: "finish_binary Op_Poseidon (next_reg g) la (next_reg g1) lb g2 = (r, g')"
    using gen g1 g2 by simp
  show "\<exists>code. compiled slots scope (ECall ''poseidon'' [a, b]) g r g' code"
    by (rule compiled_operands [OF assms g1 g2 fin nf]) (use * in \<open>simp_all add: pure_asm\<close>)
qed

lemma compiles_context:
  assumes "f \<in> {''msg::sender'', ''msg::nonce'', ''block::number''}"
  shows "compiles slots scope (ECall f args)"
  unfolding compiles_def
proof (intro allI impI)
  fix g r g'
  assume gen: "generate_expr scope slots (ECall f args) g = (r, g')" and nf: "\<not> failed g'"
    and *: "0 < next_reg g"
  define n :: i32 where "n = (if f = ''msg::sender'' then 1 else if f = ''msg::nonce'' then 3 else 2)"
  have "\<not> failed g" using gen nf by auto
  hence sys: "emit_syscall n g = (r, g')" using gen assms
    by (elim insertE emptyE) (simp_all add: n_def)
  have n: "n \<in> {1, 2, 3}" by (simp add: n_def)
  have "eval slots c sto \<rho> (ECall f args) = (if n = 1 then sender c else if n = 2 then block_height c else nonce c)"
    for c sto \<rho> using assms by (elim insertE) (simp_all add: n_def)
  note compiled_syscall [OF sys nf * n this]
  thus "\<exists>code. compiled slots scope (ECall f args) g r g' code" by blast
qed

theorem generate_pure_expr:
  assumes "pure_expr e" "nonneg_slots slots"
  shows "compiles slots scope e"
  using assms
proof (induction e)
  case (EInt v)
  thus ?case unfolding compiles_def using compiled_int by (auto split: if_splits)
next
  case (EIdent x)
  show ?case unfolding compiles_def
  proof (intro allI impI)
    fix g r g'
    assume "generate_expr scope slots (EIdent x) g = (r, g')" "\<not> failed g'" and *: "0 < next_reg g"
      "next_reg g \<le> 31" "regs_in scope (expr_vars (EIdent x)) (next_reg g)"
    then obtain vi where "scope x = Some vi" "r = reg vi" "g' = g" by (auto split: if_splits option.splits)
    thus "\<exists>code. compiled slots scope (EIdent x) g r g' code" using *
      by (intro exI [of _ "[]"]) (auto simp: compiled_def regs_in_def holds_def)
  qed
next
  case (EStorageRead x)
  thus ?case unfolding compiles_def using compiled_storage_read by blast
next
  case (EMappingRead x k)
  thus ?case by (intro compiles_mapping_read) simp
next
  case (EBinary a op b)
  thus ?case by (intro compiles_binary) simp_all
next
  case (ECall f args)
  show ?case
  proof (cases "f = ''poseidon''")
    case True
    then obtain a b where "args = [a, b]"
      using ECall.prems(1) by (auto simp: length_Suc_conv numeral_2_eq_2)
    thus ?thesis using True ECall by (simp add: compiles_poseidon)
  next
    case False
    thus ?thesis using ECall.prems by (intro compiles_context) simp
  qed
qed simp_all

end
