(* ===== verification/Codegen_Run.thy ===== *)
theory Codegen_Run
  imports Codegen_Expr
begin

text \<open>
  Executing generated code on the virtual machine.  The core of a machine is its state without the
  trace and the gas; \<open>goes\<close> relates two cores when a finite run of instructions leads from one to the
  other, with the gas it uses.  Every machine with the first core and that much gas makes the run, and
  one with less stops with \<open>OutOfGas\<close>.  The lemmas give the step of each
  instruction the code generator uses, and the run of straight-line code.
\<close>

section \<open>Cores\<close>

definition core :: "vm \<Rightarrow> vm" where
  "core vm = vm\<lparr>trace := [], gas_used := 0, gas_limit := 0\<rparr>"

lemma core_simps [simp]:
  "registers (core vm) = registers vm" "pc (core vm) = pc vm" "stack (core vm) = stack vm"
  "memory (core vm) = memory vm" "storage (core vm) = storage vm" "events (core vm) = events vm"
  "ctx (core vm) = ctx vm" "halted (core vm) = halted vm"
  "error (core vm) = error vm" "state_writes (core vm) = state_writes vm"
  "mainnet_mode (core vm) = mainnet_mode vm" "core (core vm) = core vm"
  by (simp_all add: core_def)

lemma core_id: "trace c = [] \<Longrightarrow> gas_used c = 0 \<Longrightarrow> gas_limit c = 0 \<Longrightarrow> core c = c"
  by (simp add: core_def)

lemma execute_core:
  "execute i a b (vm\<lparr>trace := t, gas_used := u, gas_limit := l\<rparr>) =
   map_prod id (\<lambda>vm. vm\<lparr>trace := t, gas_used := u, gas_limit := l\<rparr>) (execute i a b vm)"
  by (cases "opcode i") (auto simp: execute_def exec_defs split: option.splits)

definition run_steps :: "u64 list \<Rightarrow> vm \<Rightarrow> vm \<Rightarrow> bool" where
  "run_steps P = (\<lambda>vm vm'. \<not> halted vm \<and> step vm P = (Inr (), vm'))\<^sup>*\<^sup>*"

lemma run_steps_refl: "run_steps P vm vm"
  by (simp add: run_steps_def)

lemma run_steps_one: "\<not> halted vm \<Longrightarrow> step vm P = (Inr (), vm') \<Longrightarrow> run_steps P vm vm'"
  unfolding run_steps_def by (rule r_into_rtranclp) simp

lemma run_steps_trans: "run_steps P vm vm' \<Longrightarrow> run_steps P vm' vm'' \<Longrightarrow> run_steps P vm vm''"
  unfolding run_steps_def by (rule rtranclp_trans)

lemma run_steps_loop: "run_steps P vm vm' \<Longrightarrow> run_loop P vm = run_loop P vm'"
  unfolding run_steps_def
proof (induction rule: converse_rtranclp_induct)
  case (step y z)
  thus ?case using run_loop.simps [of P y] by simp
qed simp

text \<open>The instruction a running machine is about to execute.\<close>

definition at_inst :: "u64 list \<Rightarrow> vm \<Rightarrow> instruction \<Rightarrow> bool" where
  "at_inst P vm i \<longleftrightarrow> \<not> halted vm \<and> length (registers vm) = 32 \<and> registers vm ! 0 = 0 \<and>
     unat (pc vm) < length P \<and> P ! unat (pc vm) = encode i \<and> encodable i \<and>
     opcode i \<noteq> Op_VerifyMerkle \<and> opcode i \<noteq> Op_VerifyInference"

abbreviation exec_at :: "instruction \<Rightarrow> vm \<Rightarrow> exec_result" where
  "exec_at i vm \<equiv> execute i (registers vm ! unat (rs1 i)) (registers vm ! unat (rs2 i)) vm"

lemma step_at_inst:
  assumes at: "at_inst P vm i" and gas: "unat (gas_used vm) + unat (gas_cost (opcode i)) \<le> unat (gas_limit vm)"
  shows "exec_at i (core vm) = (Inr eff, c) \<Longrightarrow> \<exists>vm'. step vm P = (Inr (), vm') \<and>
      core vm' = core (set_register 0 0 c) \<and> gas_limit vm' = gas_limit vm \<and>
      unat (gas_used vm') = unat (gas_used vm) + unat (gas_cost (opcode i))"
    and "exec_at i (core vm) = (Inl e, c) \<Longrightarrow> \<exists>vm'. step vm P = (Inl e, vm')"
proof -
  have r0: "(registers vm)[0 := 0] = registers vm"
    using at by (metis at_inst_def list_update_id)
  have dec: "decode_instruction (P ! unat (pc vm)) (mainnet_mode vm) = Inr i"
    using at by (auto simp: at_inst_def decode_instruction_def decode_for_mainnet_Inr decode_any_encode allows_default)
  have sat: "saturating_add (gas_used vm) (gas_cost (opcode i)) = gas_used vm + gas_cost (opcode i)"
    "unat (gas_used vm + gas_cost (opcode i)) = unat (gas_used vm) + unat (gas_cost (opcode i))"
    using gas u64_less [of "gas_limit vm"] by (simp_all add: saturating_add_def unat_add_small)
  have lim: "\<not> gas_used (charged vm i) > gas_limit vm"
    using gas sat by (simp add: word_less_nat_alt)
  have ch: "charged vm i = (core vm)\<lparr>trace := trace vm, gas_used := gas_used vm + gas_cost (opcode i), gas_limit := gas_limit vm\<rparr>"
    using r0 sat by (simp add: charged_def core_def set_register_def)
  have st: "step vm P = (case exec_at i (charged vm i) of
      (Inl e, vm1) \<Rightarrow> (Inl e, vm1)
    | (Inr eff, vm1) \<Rightarrow> (Inr (), record_step i (pc vm) (operand1 vm i) (operand2 vm i) eff vm1))"
  proof -
    have "\<not> halted vm" "\<not> length P \<le> unat (pc vm)" using at by (simp_all add: at_inst_def)
    thus ?thesis using lim by (simp add: step_running dec r0)
  qed
  have ex: "exec_at i (charged vm i) = map_prod id
      (\<lambda>v. v\<lparr>trace := trace vm, gas_used := gas_used vm + gas_cost (opcode i), gas_limit := gas_limit vm\<rparr>) (exec_at i (core vm))"
    unfolding ch by (subst execute_core) simp
  {
    assume e: "exec_at i (core vm) = (Inr eff, c)"
    show "\<exists>vm'. step vm P = (Inr (), vm') \<and> core vm' = core (set_register 0 0 c) \<and>
        gas_limit vm' = gas_limit vm \<and> unat (gas_used vm') = unat (gas_used vm) + unat (gas_cost (opcode i))"
      unfolding st ex e by (simp add: record_step_eq core_def set_register_def sat(2))
  next
    assume e: "exec_at i (core vm) = (Inl e, c)"
    show "\<exists>vm'. step vm P = (Inl e, vm')" unfolding st ex e by simp
  }
qed

lemma step_starved:
  assumes at: "at_inst P vm i" and gas: "unat (gas_limit vm) < unat (gas_used vm) + unat (gas_cost (opcode i))"
    and lim: "gas_limit vm \<noteq> - 1"
  shows "\<exists>vm'. step vm P = (Inl OutOfGas, vm')"
proof -
  have dec: "decode_instruction (P ! unat (pc vm)) (mainnet_mode vm) = Inr i"
    using at by (auto simp: at_inst_def decode_instruction_def decode_for_mainnet_Inr decode_any_encode allows_default)
  have r0: "(registers vm)[0 := 0] = registers vm"
    using at by (metis at_inst_def list_update_id)
  have "unat (gas_limit vm) \<noteq> unat (- 1 :: u64)" using lim by (metis unsigned_word_eqI)
  hence "unat (gas_limit vm) \<noteq> 2 ^ 64 - 1" by (simp add: unat_max_word)
  hence "unat (gas_limit vm) < unat (saturating_add (gas_used vm) (gas_cost (opcode i)))"
    using gas u64_less [of "gas_limit vm"] by (simp add: unat_saturating_add)
  hence "gas_used (charged vm i) > gas_limit vm" by (simp add: charged_def word_less_nat_alt)
  moreover have "\<not> halted vm" "\<not> length P \<le> unat (pc vm)" using at by (simp_all add: at_inst_def)
  ultimately show ?thesis by (simp add: step_running dec r0 vm_fail_def)
qed

section \<open>Runs between cores\<close>

text \<open>A finite run of instructions from one core to another, with the gas it uses.\<close>

definition one_step :: "u64 list \<Rightarrow> vm \<Rightarrow> instruction \<Rightarrow> vm \<Rightarrow> bool" where
  "one_step P c i c' \<longleftrightarrow> at_inst P c i \<and> core c = c \<and> core c' = c' \<and>
     (\<exists>eff c1. exec_at i c = (Inr eff, c1) \<and> c' = set_register 0 0 c1)"

inductive goes :: "u64 list \<Rightarrow> vm \<Rightarrow> vm \<Rightarrow> nat \<Rightarrow> bool" for P where
  goes_refl [simp, intro]: "goes P c c 0"
| goes_cons: "one_step P c i c' \<Longrightarrow> goes P c' c'' G \<Longrightarrow> goes P c c'' (unat (gas_cost (opcode i)) + G)"

lemma one_step_runs:
  assumes "one_step P c i c'" "core vm = c" "unat (gas_used vm) + unat (gas_cost (opcode i)) \<le> unat (gas_limit vm)"
  obtains vm1 where "\<not> halted vm" "step vm P = (Inr (), vm1)" "core vm1 = c'" "gas_limit vm1 = gas_limit vm"
    "unat (gas_used vm1) = unat (gas_used vm) + unat (gas_cost (opcode i))"
proof -
  obtain eff c1 where 1: "at_inst P c i" "core c' = c'" "exec_at i c = (Inr eff, c1)" "c' = set_register 0 0 c1"
    using assms(1) unfolding one_step_def by (elim conjE exE)
  have at: "at_inst P vm i" using 1(1) assms(2) by (auto simp: at_inst_def)
  have ex: "exec_at i (core vm) = (Inr eff, c1)" using 1(3) assms(2) by simp
  show thesis using step_at_inst(1) [OF at assms(3) ex] 1(2,4) at that by (auto simp: at_inst_def)
qed

text \<open>A run of instructions that ends in one that raises an error.\<close>

definition stops :: "u64 list \<Rightarrow> vm \<Rightarrow> vm_error \<Rightarrow> nat \<Rightarrow> bool" where
  "stops P c e G \<longleftrightarrow> (\<exists>c' G' i c1. goes P c c' G' \<and> at_inst P c' i \<and> core c' = c' \<and>
     exec_at i c' = (Inl e, c1) \<and> G = G' + unat (gas_cost (opcode i)))"

lemma goes_trans [trans]:
  assumes "goes P c c' G" "goes P c' c'' G'"
  shows "goes P c c'' (G + G')"
  using assms by (induction rule: goes.induct) (auto simp: add.assoc intro: goes_cons)

lemma goes_stops:
  assumes "goes P c c' G" "stops P c' e G'"
  shows "stops P c e (G + G')"
  using assms goes_trans [OF assms(1)] unfolding stops_def by (metis add.assoc)

lemma goes_inst:
  assumes "at_inst P c i" "core c = c" "exec_at i c = (Inr eff, c1)" "c' = set_register 0 0 c1" "core c' = c'"
  shows "goes P c c' (unat (gas_cost (opcode i)))"
  using goes_cons [OF _ goes_refl, of P c i c'] assms by (simp add: one_step_def)

lemma stops_inst:
  assumes "at_inst P c i" "core c = c" "exec_at i c = (Inl e, c1)"
  shows "stops P c e (unat (gas_cost (opcode i)))"
  using assms goes_refl unfolding stops_def by (metis add_0)

text \<open>Every machine with that core and enough gas makes the run.\<close>

lemma goes_runs:
  assumes "goes P c c' G" "core vm = c" "unat (gas_used vm) + G \<le> unat (gas_limit vm)"
  shows "\<exists>vm'. run_steps P vm vm' \<and> core vm' = c' \<and> gas_limit vm' = gas_limit vm \<and>
    unat (gas_used vm') = unat (gas_used vm) + G"
  using assms
proof (induction arbitrary: vm rule: goes.induct)
  case (goes_refl c)
  thus ?case using run_steps_refl by auto
next
  case (goes_cons c i c' c'' G)
  have gas: "unat (gas_used vm) + unat (gas_cost (opcode i)) \<le> unat (gas_limit vm)" using goes_cons.prems(2) by simp
  obtain vm1 where 1: "\<not> halted vm" "step vm P = (Inr (), vm1)" "core vm1 = c'" "gas_limit vm1 = gas_limit vm"
      "unat (gas_used vm1) = unat (gas_used vm) + unat (gas_cost (opcode i))"
    by (rule one_step_runs [OF goes_cons.hyps(1) goes_cons.prems(1) gas])
  have "unat (gas_used vm1) + G \<le> unat (gas_limit vm1)" using 1 goes_cons.prems(2) by simp
  from goes_cons.IH [OF 1(3) this] obtain vm2 where 2: "run_steps P vm1 vm2" "core vm2 = c''"
      "gas_limit vm2 = gas_limit vm1" "unat (gas_used vm2) = unat (gas_used vm1) + G" by blast
  have "run_steps P vm vm2" using run_steps_one [OF 1(1,2)] 2(1) by (rule run_steps_trans)
  thus ?case using 1 2 by auto
qed

lemma stops_runs:
  assumes "stops P c e G" "core vm = c" "unat (gas_used vm) + G \<le> unat (gas_limit vm)"
  shows "\<exists>vm'. run_loop P vm = Some (Some e, vm')"
proof -
  obtain c' G' i c1 where s: "goes P c c' G'" "at_inst P c' i" "core c' = c'" "exec_at i c' = (Inl e, c1)"
      "G = G' + unat (gas_cost (opcode i))"
    using assms(1) unfolding stops_def by blast
  have le: "unat (gas_used vm) + G' \<le> unat (gas_limit vm)" using assms(3) s(5) by simp
  obtain vm1 where 1: "run_steps P vm vm1" "core vm1 = c'" "gas_limit vm1 = gas_limit vm"
      "unat (gas_used vm1) = unat (gas_used vm) + G'"
    using goes_runs [OF s(1) assms(2) le] by blast
  have at: "at_inst P vm1 i" using s(2) 1(2) by (auto simp: at_inst_def)
  have ex: "exec_at i (core vm1) = (Inl e, c1)" using s(4) 1(2) by simp
  have gas: "unat (gas_used vm1) + unat (gas_cost (opcode i)) \<le> unat (gas_limit vm1)" using 1 s(5) assms(3) by simp
  obtain vm2 where "step vm1 P = (Inl e, vm2)" using step_at_inst(2) [OF at gas ex] by blast
  thus ?thesis using run_steps_loop [OF 1(1)] run_loop.simps [of P vm1] at by (simp add: at_inst_def)
qed

text \<open>A machine with less gas stops with \<open>OutOfGas\<close>, unless its limit is the one no counter exceeds.\<close>

lemma goes_starves:
  assumes "goes P c c' G" "core vm = c" "unat (gas_used vm) \<le> unat (gas_limit vm)"
    and "unat (gas_limit vm) < unat (gas_used vm) + G" "gas_limit vm \<noteq> - 1"
  shows "\<exists>vm'. run_loop P vm = Some (Some OutOfGas, vm')"
  using assms
proof (induction arbitrary: vm rule: goes.induct)
  case (goes_cons c i c' c'' G)
  have at: "at_inst P vm i" using goes_cons.hyps(1) goes_cons.prems(1) by (auto simp: at_inst_def one_step_def)
  show ?case
  proof (cases "unat (gas_used vm) + unat (gas_cost (opcode i)) \<le> unat (gas_limit vm)")
    case True
    obtain vm1 where 1: "\<not> halted vm" "step vm P = (Inr (), vm1)" "core vm1 = c'" "gas_limit vm1 = gas_limit vm"
        "unat (gas_used vm1) = unat (gas_used vm) + unat (gas_cost (opcode i))"
      by (rule one_step_runs [OF goes_cons.hyps(1) goes_cons.prems(1) True])
    have "\<exists>vm'. run_loop P vm1 = Some (Some OutOfGas, vm')"
      using 1(3-5) True goes_cons.prems(3,4) by (intro goes_cons.IH) simp_all
    thus ?thesis using run_loop.simps [of P vm] 1(1,2) by simp
  next
    case False
    hence "\<exists>vm'. step vm P = (Inl OutOfGas, vm')"
      using step_starved [OF at _ goes_cons.prems(4)] by simp
    thus ?thesis using run_loop.simps [of P vm] at by (auto simp: at_inst_def)
  qed
qed simp

lemma stops_starves:
  assumes "stops P c e G" "core vm = c" "unat (gas_used vm) \<le> unat (gas_limit vm)"
    and "unat (gas_limit vm) < unat (gas_used vm) + G" "gas_limit vm \<noteq> - 1"
  shows "\<exists>vm'. run_loop P vm = Some (Some OutOfGas, vm')"
proof -
  obtain c' G' i c1 where s: "goes P c c' G'" "at_inst P c' i" "core c' = c'" "exec_at i c' = (Inl e, c1)"
      "G = G' + unat (gas_cost (opcode i))"
    using assms(1) unfolding stops_def by blast
  show ?thesis
  proof (cases "unat (gas_used vm) + G' \<le> unat (gas_limit vm)")
    case True
    obtain vm1 where 1: "run_steps P vm vm1" "core vm1 = c'" "gas_limit vm1 = gas_limit vm"
        "unat (gas_used vm1) = unat (gas_used vm) + G'"
      using goes_runs [OF s(1) assms(2) True] by blast
    have at: "at_inst P vm1 i" using s(2) 1(2) by (auto simp: at_inst_def)
    obtain vm2 where "step vm1 P = (Inl OutOfGas, vm2)"
      using step_starved [OF at] 1(3,4) s(5) assms(4,5) by auto
    thus ?thesis using run_steps_loop [OF 1(1)] run_loop.simps [of P vm1] at by (simp add: at_inst_def)
  next
    case False
    thus ?thesis using goes_starves [OF s(1) assms(2,3) _ assms(5)] by simp
  qed
qed

section \<open>Code in a program\<close>

definition ok_inst :: "instruction \<Rightarrow> bool" where
  "ok_inst i \<longleftrightarrow> encodable i \<and> opcode i \<noteq> Op_VerifyMerkle \<and> opcode i \<noteq> Op_VerifyInference"

definition code_at :: "u64 list \<Rightarrow> nat \<Rightarrow> instruction list \<Rightarrow> bool" where
  "code_at P p code \<longleftrightarrow> p + length code \<le> length P \<and> list_all ok_inst code \<and>
     (\<forall>k < length code. P ! (p + k) = encode (code ! k))"

definition ready :: "u64 list \<Rightarrow> vm \<Rightarrow> nat \<Rightarrow> bool" where
  "ready P c p \<longleftrightarrow> trace c = [] \<and> gas_used c = 0 \<and> gas_limit c = 0 \<and> \<not> halted c \<and> length (registers c) = 32 \<and> registers c ! 0 = 0 \<and>
     pc c = of_nat p \<and> p \<le> length P \<and> length P < 2 ^ 31"

lemma code_at_Cons:
  "code_at P p (i # code) \<longleftrightarrow> p < length P \<and> ok_inst i \<and> P ! p = encode i \<and> code_at P (Suc p) code"
  by (auto simp: code_at_def less_Suc_eq_0_disj)

lemma code_at_append: "code_at P p (xs @ ys) \<longleftrightarrow> code_at P p xs \<and> code_at P (p + length xs) ys"
proof (induction xs arbitrary: p)
  case Nil
  thus ?case by (auto simp: code_at_def)
qed (simp add: code_at_Cons)

lemma unat_of_nat_pc: "n < 2 ^ 31 \<Longrightarrow> unat (of_nat n :: usize) = n"
  by (simp add: unsigned_of_nat take_bit_nat_eq_self)

lemma ready_at_inst: "ready P c p \<Longrightarrow> code_at P p (i # code) \<Longrightarrow> at_inst P c i"
  using unat_of_nat_pc [of p] by (simp add: ready_def at_inst_def code_at_Cons ok_inst_def)

lemma pure_inst_ok: "pure_inst i \<Longrightarrow> ok_inst i"
  by (auto simp: pure_inst_def ok_inst_def)

text \<open>Moving on to the next instruction.\<close>

definition moved :: "nat \<Rightarrow> vm \<Rightarrow> vm" where
  "moved p c = c\<lparr>pc := of_nat p\<rparr>"

lemma moved_simps [simp]:
  "registers (moved p c) = registers c" "storage (moved p c) = storage c" "events (moved p c) = events c"
  "ctx (moved p c) = ctx c" "stack (moved p c) = stack c" "state_writes (moved p c) = state_writes c"
  "halted (moved p c) = halted c" "gas_limit (moved p c) = gas_limit c" "pc (moved p c) = of_nat p"
  "moved q (moved p c) = moved q c" "trace (moved p c) = trace c" "gas_used (moved p c) = gas_used c"
  by (simp_all add: moved_def)

lemma goes_exec:
  assumes "ready P c p" "code_at P p (i # code)" "exec_at i c = (Inr eff, c')" "registers c' ! 0 = 0"
  shows "goes P c c' (unat (gas_cost (opcode i)))"
proof (rule goes_inst [OF ready_at_inst [OF assms(1,2)] _ assms(3)])
  note f = execute_frame [OF assms(3)]
  have c: "trace c = []" "gas_used c = 0" "gas_limit c = 0" using assms(1) by (simp_all add: ready_def)
  show "core c = c" using c by (rule core_id)
  have "(registers c')[0 := 0] = registers c'" using assms(4) by (metis list_update_id)
  thus "c' = set_register 0 0 c'" by (simp add: set_register_def)
  show "core c' = c'" using c f by (intro core_id) simp_all
qed

lemma stops_exec:
  assumes "ready P c p" "code_at P p (i # code)" "exec_at i c = (Inl e, c')"
  shows "stops P c e (unat (gas_cost (opcode i)))"
  using assms by (intro stops_inst [OF ready_at_inst core_id]) (simp_all add: ready_def)

lemma ready_moved: "ready P c p \<Longrightarrow> q \<le> length P \<Longrightarrow> ready P (moved q c) q"
  by (simp add: ready_def)

lemma exec_pure_inst:
  assumes "pure_inst i"
  shows "\<exists>eff. exec_at i c = (Inr eff, c\<lparr>registers := exec_inst (storage c) (ctx c) i (registers c), pc := pc c + 1\<rparr>)"
proof -
  consider "opcode i = Op_Load" "rs1 i = 0" | "opcode i = Op_Syscall" "imm i = 1 \<or> imm i = 2 \<or> imm i = 3"
    | "opcode i \<in> {Op_SRead, Op_Poseidon, Op_Add, Op_Sub, Op_Mul, Op_Div, Op_Eq, Op_Neq, Op_Lt, Op_Gt, Op_Lte, Op_Gte}"
    using assms by (auto simp: pure_inst_def)
  thus ?thesis
  proof cases
    case 1
    thus ?thesis by (simp add: execute_def exec_load_def finish_with_def set_register_def Let_def
          exec_inst_def inst_value_def)
  next
    case 2
    thus ?thesis by (auto simp: execute_def exec_syscall_def finish_with_def set_register_def Let_def
          exec_inst_def inst_value_def)
  next
    case 3
    thus ?thesis by (auto simp: execute_def exec_sread_def finish_with_def set_register_def Let_def
          exec_inst_def inst_value_def read_slot_def)
  qed
qed

definition code_gas :: "instruction list \<Rightarrow> nat" where
  "code_gas code = sum_list (map (\<lambda>i. unat (gas_cost (opcode i))) code)"

lemma goes_pure_code:
  assumes "ready P c p" "code_at P p code" "list_all pure_inst code"
  defines "c' \<equiv> (moved (p + length code) c)\<lparr>registers := exec_code (storage c) (ctx c) code (registers c)\<rparr>"
  shows "goes P c c' (code_gas code) \<and> ready P c' (p + length code)"
  using assms(1-3) unfolding c'_def
proof (induction code arbitrary: c p)
  case Nil
  hence "(moved p c)\<lparr>registers := registers c\<rparr> = c" by (simp add: moved_def ready_def)
  thus ?case using Nil by (simp add: code_gas_def)
next
  case (Cons i code)
  let ?c1 = "(moved (Suc p) c)\<lparr>registers := exec_inst (storage c) (ctx c) i (registers c)\<rparr>"
  have pure: "pure_inst i" and code: "list_all pure_inst code" using Cons.prems(3) by simp_all
  have at: "code_at P (Suc p) code" "p < length P" using Cons.prems(2) by (simp_all add: code_at_Cons)
  have r0: "registers ?c1 ! 0 = 0"
    using Cons.prems(1) pure by (auto simp: exec_inst_def ready_def pure_inst_def word_less_nat_alt)
  obtain eff where "exec_at i c = (Inr eff, ?c1)"
    using exec_pure_inst [OF pure, of c] Cons.prems(1) by (auto simp: moved_def ready_def ac_simps)
  hence g1: "goes P c ?c1 (unat (gas_cost (opcode i)))"
    using Cons.prems(1,2) r0 by (intro goes_exec)
  have "ready P ?c1 (Suc p)" using Cons.prems(1) at r0 by (simp add: ready_def exec_inst_def)
  from Cons.IH [OF this at(1) code]
  have g2: "goes P ?c1 ((moved (Suc p + length code) c)\<lparr>registers := exec_code (storage c) (ctx c) (i # code) (registers c)\<rparr>)
      (code_gas code)"
    and rd: "ready P ((moved (Suc p + length code) c)\<lparr>registers := exec_code (storage c) (ctx c) (i # code) (registers c)\<rparr>)
      (Suc p + length code)"
    by (simp_all add: moved_def)
  show ?case using goes_trans [OF g1 g2] rd by (simp add: code_gas_def)
qed

lemma jump_target_offset:
  assumes "p < 2 ^ 31" "q < 2 ^ 31"
  shows "jump_target (of_nat p) (jump_offset q p) = of_nat q"
proof -
  have off: "jump_offset q p = word_of_int (int q - int p)" by (simp add: jump_offset_def)
  have "signed_take_bit 31 (int q - int p) = int q - int p"
    using assms by (intro signed_take_bit_int_eq_self) simp_all
  moreover have "sint (word_of_int k :: i32) = signed_take_bit 31 k" for k by (simp add: signed_of_int)
  ultimately have "sint (jump_offset q p) = int q - int p" unfolding off by (simp only:)
  thus ?thesis by (simp add: jump_target_def scast_eq)
qed

lemma goes_jmp:
  assumes "ready P c p" "code_at P p (asm Op_Jmp 0 0 0 (jump_offset q p) # code)" "q \<le> length P"
  shows "goes P c (moved q c) 1 \<and> ready P (moved q c) q"
proof -
  have "p < 2 ^ 31" "q < 2 ^ 31" "pc c = of_nat p" using assms by (simp_all add: ready_def)
  hence "exec_at (asm Op_Jmp 0 0 0 (jump_offset q p)) c = (Inr (plain_effect 0 (of_nat q)), moved q c)"
    by (simp add: execute_def exec_jmp_def jump_target_offset moved_def Let_def)
  thus ?thesis using goes_exec [OF assms(1,2)] assms(1,3) by (auto simp: ready_def)
qed

lemma goes_jnz:
  assumes "ready P c p" "code_at P p (asm Op_Jnz 0 r 0 (jump_offset q p) # code)" "q \<le> length P" "r < 32"
  defines "t \<equiv> if registers c ! r \<noteq> 0 then q else Suc p"
  shows "goes P c (moved t c) 1 \<and> ready P (moved t c) t"
proof -
  have "p < 2 ^ 31" "q < 2 ^ 31" "pc c = of_nat p" using assms by (simp_all add: ready_def)
  hence "exec_at (asm Op_Jnz 0 r 0 (jump_offset q p)) c = (Inr (plain_effect 0 (of_nat t)), moved t c)"
    using assms(4) by (auto simp: execute_def exec_jnz_def jump_target_offset moved_def t_def Let_def ac_simps)
  moreover have "t \<le> length P" using assms(2,3) by (simp add: t_def code_at_Cons)
  ultimately show ?thesis using goes_exec [OF assms(1,2)] assms(1) by (auto simp: ready_def)
qed

lemma goes_assert:
  assumes "ready P c p" "code_at P p (asm Op_Assert 0 r 0 0 # code)" "r < 32"
  shows "registers c ! r \<noteq> 0 \<Longrightarrow> goes P c (moved (Suc p) c) 1 \<and> ready P (moved (Suc p) c) (Suc p)"
    and "registers c ! r = 0 \<Longrightarrow> stops P c AssertionFailed 1"
proof -
  let ?i = "asm Op_Assert 0 r 0 0"
  have pc: "pc c = of_nat p" "Suc p \<le> length P" using assms(1,2) by (simp_all add: ready_def code_at_Cons)
  {
    assume "registers c ! r \<noteq> 0"
    hence "exec_at ?i c = (Inr (plain_effect 0 (of_nat p + 1)), moved (Suc p) c)"
      using assms(3) pc by (simp add: execute_def exec_assert_def finish_plain_def moved_def ac_simps)
    thus "goes P c (moved (Suc p) c) 1 \<and> ready P (moved (Suc p) c) (Suc p)"
      using goes_exec [OF assms(1,2)] assms(1) pc(2) by (auto simp: ready_def)
  next
    assume "registers c ! r = 0"
    hence "exec_at ?i c = (Inl AssertionFailed, c\<lparr>halted := True, error := Some AssertionFailed\<rparr>)"
      using assms(3) by (simp add: execute_def exec_assert_def vm_fail_def)
    thus "stops P c AssertionFailed 1" using stops_exec [OF assms(1,2)] by fastforce
  }
qed

lemma goes_swrite:
  assumes "ready P c p" "code_at P p (asm Op_SWrite 0 r t im # code)" "r < 32" "t < 32"
  defines "slot \<equiv> if im = - 1 then ucast (registers c ! t) else im"
  defines "c' \<equiv> (moved (Suc p) c)\<lparr>storage := (storage c)(slot \<mapsto> registers c ! r),
      state_writes := state_writes c @ [(slot, registers c ! r)]\<rparr>"
  shows "goes P c c' 12 \<and> ready P c' (Suc p)"
proof -
  have pc: "pc c = of_nat p" "Suc p \<le> length P" using assms(1,2) by (simp_all add: ready_def code_at_Cons)
  have "exec_at (asm Op_SWrite 0 r t im) c = (Inr (plain_effect 0 (of_nat p + 1)), c')"
    using assms(3,4) pc
    by (simp add: execute_def exec_swrite_def finish_plain_def Let_def c'_def moved_def storage_slot_def
        slot_def ac_simps)
  thus ?thesis using goes_exec [OF assms(1,2)] assms(1) pc(2) by (fastforce simp: ready_def c'_def)
qed

lemma goes_log:
  assumes "ready P c p" "code_at P p (asm Op_Log 0 r 0 0 # code)" "r < 32"
  defines "c' \<equiv> (moved (Suc p) c)\<lparr>events := events c @ [registers c ! r]\<rparr>"
  shows "goes P c c' 1 \<and> ready P c' (Suc p)"
proof -
  have pc: "pc c = of_nat p" "Suc p \<le> length P" using assms(1,2) by (simp_all add: ready_def code_at_Cons)
  have "exec_at (asm Op_Log 0 r 0 0) c = (Inr (plain_effect 0 (of_nat p + 1)), c')"
    using assms(3) pc
    by (simp add: execute_def exec_log_def finish_plain_def c'_def moved_def ac_simps)
  thus ?thesis using goes_exec [OF assms(1,2)] assms(1) pc(2) by (fastforce simp: ready_def c'_def)
qed

lemma goes_push:
  assumes "ready P c p" "code_at P p (asm Op_Push 0 r 0 0 # code)" "r < 32" "length (stack c) < 1024"
  defines "c' \<equiv> (moved (Suc p) c)\<lparr>stack := stack c @ [registers c ! r]\<rparr>"
  shows "goes P c c' 2 \<and> ready P c' (Suc p)"
proof -
  have pc: "pc c = of_nat p" "Suc p \<le> length P" using assms(1,2) by (simp_all add: ready_def code_at_Cons)
  have "exec_at (asm Op_Push 0 r 0 0) c = (Inr (plain_effect (registers c ! r) (of_nat p + 1)), c')"
    using assms(3,4) pc
    by (simp add: execute_def exec_push_def Let_def c'_def moved_def ac_simps)
  thus ?thesis using goes_exec [OF assms(1,2)] assms(1) pc(2) by (fastforce simp: ready_def c'_def)
qed

lemma goes_pop:
  assumes "ready P c p" "code_at P p (asm Op_Pop r 0 0 0 # code)" "r < 32" "0 < r" "stack c = st @ [v]"
  defines "c' \<equiv> (moved (Suc p) c)\<lparr>stack := st, registers := (registers c)[r := v]\<rparr>"
  shows "goes P c c' 2 \<and> ready P c' (Suc p)"
proof -
  have pc: "pc c = of_nat p" "Suc p \<le> length P" using assms(1,2) by (simp_all add: ready_def code_at_Cons)
  have "exec_at (asm Op_Pop r 0 0 0) c = (Inr (plain_effect v (of_nat p + 1)), c')"
    using assms(3,5) pc
    by (simp add: execute_def exec_pop_def vec_pop_def finish_with_def set_register_def Let_def c'_def
        moved_def ac_simps)
  thus ?thesis using goes_exec [OF assms(1,2)] assms(1,3,4) pc(2) by (fastforce simp: ready_def c'_def)
qed

lemma goes_call:
  assumes "ready P c p" "code_at P p (asm Op_Call 0 0 0 (jump_offset q p) # code)" "q \<le> length P"
    and "length (stack c) < 1024"
  defines "c' \<equiv> (moved q c)\<lparr>stack := stack c @ [of_nat (Suc p)]\<rparr>"
  shows "goes P c c' 2 \<and> ready P c' q"
proof -
  have pc: "pc c = of_nat p" "p < 2 ^ 31" "q < 2 ^ 31" using assms(1-3) by (simp_all add: ready_def)
  have "exec_at (asm Op_Call 0 0 0 (jump_offset q p)) c = (Inr (plain_effect (of_nat p + 1) (of_nat q)), c')"
    using assms(4) pc
    by (simp add: execute_def exec_call_def Let_def c'_def moved_def jump_target_offset ac_simps)
  thus ?thesis using goes_exec [OF assms(1,2)] assms(1,3) by (fastforce simp: ready_def c'_def)
qed

lemma goes_ret:
  assumes "ready P c p" "code_at P p (asm Op_Ret 0 0 0 0 # code)" "stack c = st @ [of_nat q]" "q \<le> length P"
  defines "c' \<equiv> (moved q c)\<lparr>stack := st\<rparr>"
  shows "goes P c c' 2 \<and> ready P c' q"
proof -
  have "exec_at (asm Op_Ret 0 0 0 0) c = (Inr (plain_effect (of_nat q) (of_nat q)), c')"
    using assms(3) by (simp add: execute_def exec_ret_def vec_pop_def c'_def moved_def)
  thus ?thesis using goes_exec [OF assms(1,2)] assms(1,4) by (fastforce simp: ready_def c'_def)
qed

lemma goes_halt:
  assumes "ready P c p" "code_at P p (asm Op_Halt 0 0 0 0 # code)"
  shows "goes P c (c\<lparr>halted := True\<rparr>) 0"
proof -
  have "exec_at (asm Op_Halt 0 0 0 0) c = (Inr (plain_effect 0 (pc c)), c\<lparr>halted := True\<rparr>)"
    by (simp add: execute_def)
  thus ?thesis using goes_exec [OF assms] assms(1) by (fastforce simp: ready_def)
qed

end
