(* ===== verification/Codegen_Stmt.thy ===== *)
theory Codegen_Stmt
  imports Codegen_Run
begin

text \<open>
  What the code for a block of statements does.  A source-level semantics of the statements whose
  expressions are covered by \<open>Codegen_Expr\<close> (bindings, assignments, storage and mapping writes,
  constraints, events, \<open>if\<close>, \<open>while\<close> and \<open>match\<close>), with fuel for \<open>while\<close>, and the simulation for all of
  these but \<open>match\<close>: whenever the
  source execution ends, the generated code, run on the virtual machine from a matching state with
  enough gas, reaches its end in the matching final state, or stops on the violated constraint.
\<close>

section \<open>Source semantics\<close>

record src_state =
  vars :: "string \<Rightarrow> u64"
  s_storage :: "i32 \<rightharpoonup> u64"
  s_events :: "u64 list"
  s_writes :: "(i32 \<times> u64) list"

datatype outcome = Done src_state | Violated

abbreviation value_of :: "storage_map \<Rightarrow> vm_context \<Rightarrow> src_state \<Rightarrow> expr \<Rightarrow> u64" where
  "value_of slots c \<sigma> e \<equiv> eval slots c (s_storage \<sigma>) (vars \<sigma>) e"

definition bind_var :: "string \<Rightarrow> u64 \<Rightarrow> src_state \<Rightarrow> src_state" where
  "bind_var x v \<sigma> = \<sigma>\<lparr>vars := (vars \<sigma>)(x := v)\<rparr>"

definition write_slot :: "i32 \<Rightarrow> u64 \<Rightarrow> src_state \<Rightarrow> src_state" where
  "write_slot slot v \<sigma> =
     \<sigma>\<lparr>s_storage := (s_storage \<sigma>)(slot \<mapsto> v), s_writes := s_writes \<sigma> @ [(slot, v)]\<rparr>"

definition log_events :: "u64 list \<Rightarrow> src_state \<Rightarrow> src_state" where
  "log_events vs \<sigma> = \<sigma>\<lparr>s_events := s_events \<sigma> @ vs\<rparr>"

fun pattern_matches :: "match_pattern \<Rightarrow> u64 \<Rightarrow> bool" where
  "pattern_matches (IntLit k) v \<longleftrightarrow> v = k"
| "pattern_matches Wildcard v \<longleftrightarrow> True"

fun exec_stmt :: "storage_map \<Rightarrow> vm_context \<Rightarrow> nat \<Rightarrow> stmt \<Rightarrow> src_state \<Rightarrow> outcome option"
  and exec_stmts :: "storage_map \<Rightarrow> vm_context \<Rightarrow> nat \<Rightarrow> stmt list \<Rightarrow> src_state \<Rightarrow> outcome option"
  and exec_arms :: "storage_map \<Rightarrow> vm_context \<Rightarrow> nat \<Rightarrow> u64 \<Rightarrow> match_arm list \<Rightarrow> src_state \<Rightarrow> outcome option" where
  "exec_stmt slots c n (SLet x e) \<sigma> = Some (Done (bind_var x (value_of slots c \<sigma> e) \<sigma>))"
| "exec_stmt slots c n (SAssign x e) \<sigma> = Some (Done (bind_var x (value_of slots c \<sigma> e) \<sigma>))"
| "exec_stmt slots c n (SConstrain e) \<sigma> =
     Some (if value_of slots c \<sigma> e = 0 then Violated else Done \<sigma>)"
| "exec_stmt slots c n (SStorageWrite x e) \<sigma> =
     Some (Done (write_slot (the (slots x)) (value_of slots c \<sigma> e) \<sigma>))"
| "exec_stmt slots c n (SMappingWrite x k e) \<sigma> =
     Some (Done (write_slot (mapping_slot (the (slots x)) (value_of slots c \<sigma> k)) (value_of slots c \<sigma> e) \<sigma>))"
| "exec_stmt slots c n (SIf e th el) \<sigma> =
     (if value_of slots c \<sigma> e \<noteq> 0 then exec_stmts slots c n th \<sigma>
      else (case el of None \<Rightarrow> Some (Done \<sigma>) | Some eb \<Rightarrow> exec_stmts slots c n eb \<sigma>))"
| "exec_stmt slots c 0 (SWhile e body) \<sigma> = None"
| "exec_stmt slots c (Suc n) (SWhile e body) \<sigma> =
     (if value_of slots c \<sigma> e \<noteq> 0 then
        (case exec_stmts slots c n body \<sigma> of
           Some (Done \<sigma>') \<Rightarrow> exec_stmt slots c n (SWhile e body) \<sigma>'
         | r \<Rightarrow> r)
      else Some (Done \<sigma>))"
| "exec_stmt slots c n (SEmit _ args) \<sigma> = Some (Done (log_events (map (value_of slots c \<sigma>) args) \<sigma>))"
| "exec_stmt slots c n (SExpr e) \<sigma> = Some (Done \<sigma>)"
| "exec_stmt slots c n (SFor _ _ _ _) \<sigma> = None"
| "exec_stmt slots c n (SMatch e arms) \<sigma> = exec_arms slots c n (value_of slots c \<sigma> e) arms \<sigma>"
| "exec_stmt slots c n (SReturn _) \<sigma> = None"
| "exec_stmts slots c n [] \<sigma> = Some (Done \<sigma>)"
| "exec_stmts slots c n (s # ss) \<sigma> =
     (case exec_stmt slots c n s \<sigma> of
        Some (Done \<sigma>') \<Rightarrow> exec_stmts slots c n ss \<sigma>'
      | r \<Rightarrow> r)"
| "exec_arms slots c n v [] \<sigma> = Some (Done \<sigma>)"
| "exec_arms slots c n v (MatchArm pattern body # arms) \<sigma> =
     (if pattern_matches pattern v then exec_stmts slots c n body \<sigma> else exec_arms slots c n v arms \<sigma>)"

section \<open>Covered statements\<close>

text \<open>\<open>V\<close> holds the variables in scope.  A binding introduces a new name and is not a plain copy of
  a variable; the names bound inside a branch or a loop body end with it.\<close>

definition reads :: "string set \<Rightarrow> expr \<Rightarrow> bool" where
  "reads V e \<longleftrightarrow> pure_expr e \<and> expr_vars e \<subseteq> V"

fun binds :: "stmt \<Rightarrow> string set" where
  "binds (SLet x e) = {x}"
| "binds _ = {}"

fun covered :: "string set \<Rightarrow> stmt \<Rightarrow> bool"
  and covered_block :: "string set \<Rightarrow> stmt list \<Rightarrow> bool" where
  "covered V (SLet x e) = (reads V e \<and> x \<notin> V \<and> (\<forall>y. e \<noteq> EIdent y))"
| "covered V (SAssign x e) = (reads V e \<and> x \<in> V)"
| "covered V (SConstrain e) = reads V e"
| "covered V (SStorageWrite x e) = reads V e"
| "covered V (SMappingWrite x k e) = (reads V k \<and> reads V e)"
| "covered V (SIf e th el) =
     (reads V e \<and> covered_block V th \<and> (case el of None \<Rightarrow> True | Some eb \<Rightarrow> covered_block V eb))"
| "covered V (SWhile e body) = (reads V e \<and> covered_block V body)"
| "covered V (SEmit _ args) = (\<forall>a \<in> set args. reads V a)"
| "covered V (SExpr e) = reads V e"
| "covered V _ = False"
| "covered_block V [] = True"
| "covered_block V (s # ss) = (covered V s \<and> covered_block (V \<union> binds s) ss)"

section \<open>Field elements\<close>

text \<open>The machine's values stay canonical, so copying a register by adding zero is exact.\<close>

definition canonical_ctx :: "vm_context \<Rightarrow> bool" where
  "canonical_ctx c \<longleftrightarrow> canonical (sender c) \<and> canonical (nonce c) \<and> canonical (block_height c)"

definition canonical_src :: "string set \<Rightarrow> src_state \<Rightarrow> bool" where
  "canonical_src V \<sigma> \<longleftrightarrow> (\<forall>x \<in> V. canonical (vars \<sigma> x)) \<and>
     (\<forall>slot v. s_storage \<sigma> slot = Some v \<longrightarrow> canonical v)"

lemma canonical_bool_word [simp]: "canonical (bool_word b)"
  by (simp add: bool_word_def canonical_small)

lemma canonical_poseidon4 [simp]: "canonical (poseidon4_hash a b)"
proof -
  let ?f = "\<lambda>(round, rc) s. poseidon_round round rc s" and ?xs = "List.enumerate 0 POSEIDON_RC_FULL"
  have "?xs \<noteq> []" by (simp add: POSEIDON_RC_FULL_def RC_FULL_LEADING_def)
  then obtain ys y where "?xs = ys @ [y]" by (cases ?xs rule: rev_cases) auto
  hence "fold ?f ?xs s ! 0 = mds_layer (sbox_layer (fst y) (add_round_constants (snd y) (fold ?f ys s))) ! 0" for s
    by (simp add: poseidon_round_def case_prod_unfold)
  moreover have "canonical (mds_layer s ! 0)" for s
    using mds_layer_canonical [of s] by (simp add: canonical_state_def list_all_length)
  ultimately show ?thesis
    unfolding poseidon4_hash_def poseidon4_hash_state_def poseidon_full_hash_state_def by simp
qed

lemma canonical_binop: "canonical (binop_value op a b)"
  by (cases op) (simp_all add: canonical_small)

lemma canonical_read_slot: "canonical_src V \<sigma> \<Longrightarrow> canonical (read_slot (s_storage \<sigma>) slot)"
  by (auto simp: read_slot_def canonical_src_def canonical_small split: option.split)

lemma canonical_eval:
  assumes "canonical_ctx c" "canonical_src V \<sigma>" "reads V e"
  shows "canonical (value_of slots c \<sigma> e)"
proof (cases e)
  case (ECall f args)
  show ?thesis
  proof (cases "f = ''poseidon''")
    case True
    then obtain a b where "args = [a, b]"
      using assms(3) ECall by (auto simp: reads_def length_Suc_conv numeral_2_eq_2)
    thus ?thesis using True ECall by simp
  next
    case False
    thus ?thesis using ECall assms(1) by (simp add: canonical_ctx_def)
  qed
qed (use assms canonical_read_slot [OF assms(2)] in
    \<open>auto simp: reads_def canonical_def [of "_ :: u64", symmetric] canonical_binop canonical_src_def\<close>)

lemma field_add_zero: "canonical v \<Longrightarrow> field_add_goldilocks v 0 = v"
  by (rule gf.add_zero)

section \<open>The simulation relation\<close>

definition scope_ok :: "scope \<Rightarrow> string set \<Rightarrow> nat \<Rightarrow> bool" where
  "scope_ok scope V n \<longleftrightarrow> (\<forall>x \<in> V. scope x \<noteq> None) \<and> regs_in scope V n \<and>
     inj_on (\<lambda>x. reg (the (scope x))) V"

definition matches :: "scope \<Rightarrow> string set \<Rightarrow> src_state \<Rightarrow> vm \<Rightarrow> bool" where
  "matches scope V \<sigma> c \<longleftrightarrow> holds scope V (vars \<sigma>) (registers c) \<and> storage c = s_storage \<sigma> \<and>
     events c = s_events \<sigma> \<and> state_writes c = s_writes \<sigma> \<and>
     canonical_src V \<sigma> \<and> canonical_ctx (ctx c)"

text \<open>What the statement leaves alone.\<close>

definition same_frame :: "vm \<Rightarrow> vm \<Rightarrow> bool" where
  "same_frame c c' \<longleftrightarrow> stack c' = stack c \<and> ctx c' = ctx c \<and> memory c' = memory c \<and>
     mainnet_mode c' = mainnet_mode c"

text \<open>The code placed at \<open>p\<close> takes a matching machine to the end of the code, in the final state of
  the source execution.\<close>

definition reaches ::
    "u64 list \<Rightarrow> nat \<Rightarrow> scope \<Rightarrow> string set \<Rightarrow> outcome \<Rightarrow> vm \<Rightarrow> bool" where
  "reaches P q scope V out c =
     (case out of
        Done \<sigma>' \<Rightarrow> \<exists>c' G. goes P c c' G \<and> ready P c' q \<and> matches scope V \<sigma>' c' \<and> same_frame c c'
      | Violated \<Rightarrow> \<exists>G. stops P c AssertionFailed G)"

definition simulates ::
    "(vm_context \<Rightarrow> src_state \<Rightarrow> outcome \<Rightarrow> bool) \<Rightarrow> instruction list \<Rightarrow>
     scope \<Rightarrow> string set \<Rightarrow> scope \<Rightarrow> string set \<Rightarrow> bool" where
  "simulates ex code scope V scope' V' \<longleftrightarrow>
     (\<forall>P p c \<sigma> out. code_at P p code \<longrightarrow> ready P c p \<longrightarrow> matches scope V \<sigma> c \<longrightarrow> ex (ctx c) \<sigma> out \<longrightarrow>
        reaches P (p + length code) scope' V' out c)"

text \<open>What generating a statement establishes.\<close>

definition block_ok ::
    "(vm_context \<Rightarrow> src_state \<Rightarrow> outcome \<Rightarrow> bool) \<Rightarrow> string set \<Rightarrow> string set \<Rightarrow> scope \<Rightarrow> codegen \<Rightarrow> scope \<Rightarrow>
     codegen \<Rightarrow> bool" where
  "block_ok ex V V' scope g scope' g' \<longleftrightarrow>
     (\<exists>code. g' = emits code (g\<lparr>next_reg := next_reg g'\<rparr>) \<and> list_all ok_inst code \<and>
        next_reg g \<le> next_reg g' \<and> next_reg g' \<le> 31 \<and>
        (\<forall>x \<in> V. scope' x = scope x) \<and> scope_ok scope' V' (next_reg g') \<and>
        simulates ex code scope V scope' V')"

lemma same_frame_refl [simp]: "same_frame c c"
  by (simp add: same_frame_def)

lemma matches_moved [simp]: "matches scope V \<sigma> (moved p c) \<longleftrightarrow> matches scope V \<sigma> c"
  by (simp add: matches_def)

lemma same_frame_moved [simp]: "same_frame c (moved p c)"
  by (simp add: same_frame_def moved_def)

lemma same_frame_trans: "same_frame c c' \<Longrightarrow> same_frame c' c'' \<Longrightarrow> same_frame c c''"
  by (simp add: same_frame_def)

lemma reaches_after:
  assumes "goes P c c1 G" "same_frame c c1" "reaches P q scope V out c1"
  shows "reaches P q scope V out c"
  using assms goes_trans [OF assms(1)] goes_stops [OF assms(1)] same_frame_trans [OF assms(2)]
  unfolding reaches_def by (cases out) (simp_all, blast+)

lemma reaches_done:
  "goes P c c' G \<Longrightarrow> ready P c' q \<Longrightarrow> matches scope V \<sigma>' c' \<Longrightarrow> same_frame c c' \<Longrightarrow>
   reaches P q scope V (Done \<sigma>') c"
  unfolding reaches_def by auto

lemma matches_subset: "matches scope V \<sigma> c \<Longrightarrow> W \<subseteq> V \<Longrightarrow> matches scope W \<sigma> c"
  unfolding matches_def canonical_src_def using holds_subset by fastforce

lemma matches_scope: "(\<forall>x \<in> V. scope' x = scope x) \<Longrightarrow> matches scope' V \<sigma> c \<longleftrightarrow> matches scope V \<sigma> c"
  unfolding matches_def holds_def by auto

lemma reaches_scope:
  assumes "\<forall>x \<in> V. scope' x = scope x" "reaches P q scope V out c"
  shows "reaches P q scope' V out c"
  using assms matches_scope [OF assms(1)] unfolding reaches_def by (cases out) auto

lemma reaches_subset: "reaches P q scope V out c \<Longrightarrow> W \<subseteq> V \<Longrightarrow> reaches P q scope W out c"
  unfolding reaches_def by (cases out) (auto intro: matches_subset)

lemma scope_ok_mono: "scope_ok scope V n \<Longrightarrow> n \<le> m \<Longrightarrow> W \<subseteq> V \<Longrightarrow> scope_ok scope W m"
  unfolding scope_ok_def using regs_in_mono inj_on_subset by blast

lemma scope_ok_cong:
  assumes "\<forall>x \<in> V. scope' x = scope x" "scope_ok scope V n"
  shows "scope_ok scope' V n"
  using assms unfolding scope_ok_def regs_in_def inj_on_def by auto

text \<open>Running the code of an expression.\<close>

lemma run_expr:
  assumes comp: "compiled slots scope e g r g' code" and code: "code_at P p code" and c: "ready P c p"
    and m: "matches scope V \<sigma> c" and e: "reads V e" and scope: "scope_ok scope V (next_reg g)"
  obtains c1 G where "goes P c c1 G" "ready P c1 (p + length code)" "matches scope V \<sigma> c1"
    "same_frame c c1" "registers c1 ! r = value_of slots (ctx c) \<sigma> e"
    "\<And>k. k < next_reg g \<Longrightarrow> registers c1 ! k = registers c ! k"
proof -
  let ?rs = "exec_code (storage c) (ctx c) code (registers c)"
  let ?c1 = "(moved (p + length code) c)\<lparr>registers := ?rs\<rparr>"
  have w: "writes_from (next_reg g) code" using comp by (simp add: compiled_def)
  hence "list_all pure_inst code" by (simp add: writes_from_def list_all_iff)
  from goes_pure_code [OF c code this]
  have 1: "goes P c ?c1 (code_gas code)" "ready P ?c1 (p + length code)" by simp_all
  have h: "holds scope V (vars \<sigma>) (registers c)" and sto: "storage c = s_storage \<sigma>"
    using m by (simp_all add: matches_def)
  have keep: "?rs ! k = registers c ! k" if "k < next_reg g" for k using writes_from_keeps [OF w] that by simp
  have "holds scope V (vars \<sigma>) ?rs" using w h scope by (intro holds_keeps) (auto simp: scope_ok_def)
  hence 2: "matches scope V \<sigma> ?c1" using m by (simp add: matches_def)
  have "holds scope (expr_vars e) (vars \<sigma>) (registers c)" using h e by (auto simp: reads_def intro: holds_subset)
  hence 3: "?rs ! r = value_of slots (ctx c) \<sigma> e"
    using comp c sto by (simp add: compiled_def ready_def)
  show thesis using that [OF 1 2] 3 keep by (simp add: same_frame_def moved_def)
qed

section \<open>Simple statements\<close>

definition gen_ok :: "storage_map \<Rightarrow> scope \<Rightarrow> string set \<Rightarrow> codegen \<Rightarrow> bool" where
  "gen_ok slots scope V g \<longleftrightarrow>
     nonneg_slots slots \<and> scope_ok scope V (next_reg g) \<and> 0 < next_reg g \<and> next_reg g \<le> 31"

definition stmt_ok :: "storage_map \<Rightarrow> stmt \<Rightarrow> string set \<Rightarrow> scope \<Rightarrow> codegen \<Rightarrow> scope \<Rightarrow> codegen \<Rightarrow> bool" where
  "stmt_ok slots s V = block_ok (\<lambda>c \<sigma> out. \<exists>n. exec_stmt slots c n s \<sigma> = Some out) V (V \<union> binds s)"

lemma expr_compiled:
  assumes "reads V e" "gen_ok slots scope V g" "generate_expr scope slots e g = (r, g1)" "\<not> failed g1"
  obtains code where "compiled slots scope e g r g1 code"
proof -
  have "regs_in scope (expr_vars e) (next_reg g)"
    using assms(1,2) by (auto simp: gen_ok_def scope_ok_def reads_def intro: regs_in_mono)
  thus thesis using compilesD [OF generate_pure_expr assms(3,4)] that assms(1,2)
    by (auto simp: gen_ok_def reads_def)
qed

lemma compiled_facts:
  assumes "compiled slots scope e g r g' code"
  shows "g' = emits code (g\<lparr>next_reg := next_reg g'\<rparr>)" "next_reg g \<le> next_reg g'" "next_reg g' \<le> 31"
    "0 < r" "r < 31" "list_all ok_inst code" "(\<And>x. e \<noteq> EIdent x) \<Longrightarrow> next_reg g \<le> r"
  using assms by (auto simp: compiled_def writes_from_def list_all_iff intro: pure_inst_ok)

text \<open>The code of an expression followed by more code.\<close>

lemma block_okI:
  assumes comp: "compiled slots scope e g r g1 ce" and e: "reads V e" and g: "gen_ok slots scope V g"
    and g': "g' = emits tail (g1\<lparr>next_reg := m\<rparr>)" "list_all ok_inst tail" "next_reg g \<le> m" "m \<le> 31"
    and scope': "\<forall>x \<in> V. scope' x = scope x"
    and run: "\<And>P p c \<sigma> out. code_at P p (ce @ tail) \<Longrightarrow> ready P c (p + length ce) \<Longrightarrow> matches scope V \<sigma> c \<Longrightarrow>
        registers c ! r = value_of slots (ctx c) \<sigma> e \<Longrightarrow> ex (ctx c) \<sigma> out \<Longrightarrow>
        reaches P (p + length ce + length tail) scope V out c"
  shows "block_ok ex V V scope g scope' g'"
  unfolding block_ok_def
proof (intro exI [of _ "ce @ tail"] conjI)
  note f = compiled_facts [OF comp]
  have s: "scope_ok scope V (next_reg g)" using g by (simp add: gen_ok_def)
  show "g' = emits (ce @ tail) (g\<lparr>next_reg := next_reg g'\<rparr>)"
    using g'(1) arg_cong [OF f(1), of "\<lambda>h. h\<lparr>next_reg := m\<rparr>"] by simp
  show "scope_ok scope' V (next_reg g')"
    using scope_ok_cong [OF scope' scope_ok_mono [OF s]] g' by simp
  show "simulates ex (ce @ tail) scope V scope' V"
    unfolding simulates_def
  proof (intro allI impI)
    fix P p c \<sigma> out
    assume code: "code_at P p (ce @ tail)" and c: "ready P c p" and m: "matches scope V \<sigma> c" and x: "ex (ctx c) \<sigma> out"
    have at: "code_at P p ce" using code by (simp add: code_at_append)
    obtain c1 G where c1: "goes P c c1 G" "ready P c1 (p + length ce)" "matches scope V \<sigma> c1" "same_frame c c1"
      "registers c1 ! r = value_of slots (ctx c) \<sigma> e" by (rule run_expr [OF comp at c m e s])
    hence "ctx c1 = ctx c" by (simp add: same_frame_def)
    hence "reaches P (p + length ce + length tail) scope V out c1" using run [OF code c1(2,3)] c1(5) x by simp
    thus "reaches P (p + length (ce @ tail)) scope' V out c"
      using reaches_scope [OF scope' reaches_after [OF c1(1,4)]] by (simp add: add.assoc)
  qed
qed (use compiled_facts [OF comp] g' scope' in \<open>auto simp: gen_ok_def\<close>)

lemma ok_asm [simp]:
  "op \<noteq> Op_VerifyMerkle \<Longrightarrow> op \<noteq> Op_VerifyInference \<Longrightarrow> d < 32 \<Longrightarrow> a < 32 \<Longrightarrow> b < 32 \<Longrightarrow> ok_inst (asm op d a b im)"
  by (simp add: ok_inst_def)

lemma let_ok:
  assumes "covered V (SLet x e)" "gen_ok slots scope V g" "generate_stmt slots (SLet x e) scope g = (scope', g')"
    and "\<not> failed g'"
  shows "stmt_ok slots (SLet x e) V scope g scope' g'"
proof -
  have cov: "reads V e" "x \<notin> V" "\<And>y. e \<noteq> EIdent y" using assms(1) by auto
  have nf: "\<not> failed g" using assms(3,4) by auto
  obtain r g1 where gen: "generate_expr scope slots e g = (r, g1)" by (cases "generate_expr scope slots e g")
  define vi where "vi = \<lparr>reg = r, struct_type = expr_struct_type e scope\<rparr>"
  have s': "scope' = scope(x \<mapsto> vi)" and "\<not> failed g1"
    using assms(3,4) nf gen by (auto simp: vi_def Let_def)
  then obtain code where comp: "compiled slots scope e g r g1 code"
    using expr_compiled [OF cov(1) assms(2) gen] by blast
  note f = compiled_facts [OF comp]
  have r: "next_reg g \<le> r" using f(7) cov(3) .
  hence g': "g' = g1\<lparr>next_reg := r + 1\<rparr>" using assms(3) nf gen by (auto simp: Let_def)
  have old: "scope_ok scope V (next_reg g)" using assms(2) by (simp add: gen_ok_def)
  have new: "scope' x = Some vi" "reg vi = r" using s' by (simp_all add: vi_def)
  have keep: "\<forall>y \<in> V. scope' y = scope y" using s' cov(2) by auto
  have old': "scope_ok scope' V (next_reg g)" using keep old by (rule scope_ok_cong)
  have lt: "reg (the (scope' y)) < r" if y: "y \<in> V" for y
  proof -
    obtain vj where "scope' y = Some vj" using old' y by (auto simp: scope_ok_def)
    moreover hence "reg vj < next_reg g" using old' y unfolding scope_ok_def regs_in_def by blast
    ultimately show ?thesis using r by simp
  qed
  have sc: "scope_ok scope' (V \<union> {x}) (r + 1)"
    unfolding scope_ok_def
  proof (intro conjI)
    show "\<forall>y \<in> V \<union> {x}. scope' y \<noteq> None" using old' new by (auto simp: scope_ok_def)
    have "regs_in scope' V (r + 1)" using old' r by (auto simp: scope_ok_def intro: regs_in_mono)
    thus "regs_in scope' (V \<union> {x}) (r + 1)" using new f(4) by (auto simp: regs_in_def)
    have "reg (the (scope' x)) \<notin> (\<lambda>y. reg (the (scope' y))) ` (V - {x})"
      using lt new by (auto dest: less_not_refl2)
    thus "inj_on (\<lambda>y. reg (the (scope' y))) (V \<union> {x})"
      using old' by (simp add: scope_ok_def)
  qed
  have sim: "simulates (\<lambda>c \<sigma> out. \<exists>n. exec_stmt slots c n (SLet x e) \<sigma> = Some out) code scope V scope' (V \<union> {x})"
    unfolding simulates_def
  proof (intro allI impI)
    fix P p c \<sigma> out
    assume code: "code_at P p code" and c: "ready P c p" and m: "matches scope V \<sigma> c"
      and "\<exists>n. exec_stmt slots (ctx c) n (SLet x e) \<sigma> = Some out"
    hence out: "out = Done (bind_var x (value_of slots (ctx c) \<sigma> e) \<sigma>)" by simp
    obtain c1 G where c1: "goes P c c1 G" "ready P c1 (p + length code)" "matches scope V \<sigma> c1" "same_frame c c1"
      "registers c1 ! r = value_of slots (ctx c) \<sigma> e" by (rule run_expr [OF comp code c m cov(1) old])
    have "canonical (value_of slots (ctx c) \<sigma> e)"
      using m cov(1) by (intro canonical_eval) (simp_all add: matches_def)
    hence "matches scope' (V \<union> {x}) (bind_var x (value_of slots (ctx c) \<sigma> e) \<sigma>) c1"
      using c1(3,5) new keep cov(2) by (auto simp: matches_def holds_def bind_var_def canonical_src_def)
    thus "reaches P (p + length code) scope' (V \<union> {x}) out c" unfolding out by (rule reaches_done [OF c1(1,2) _ c1(4)])
  qed
  have "g' = emits code (g\<lparr>next_reg := next_reg g'\<rparr>)"
    unfolding g' using arg_cong [OF f(1), of "\<lambda>h. h\<lparr>next_reg := r + 1\<rparr>"] by simp
  thus ?thesis unfolding stmt_ok_def block_ok_def
    using f r g' sc sim keep by (intro exI [of _ code]) simp
qed

text \<open>The statements that evaluate one expression and finish with one instruction.\<close>

lemma stmt_expr:
  assumes "reads V e" "gen_ok slots scope V g" "generate_expr scope slots e g = (r, g1)" "\<not> failed g1"
    and "g' = emits tail (g1\<lparr>next_reg := next_reg g\<rparr>)" "r < 31 \<Longrightarrow> list_all ok_inst tail"
    and "\<And>P p c \<sigma> n out. r < 31 \<Longrightarrow> code_at P p tail \<Longrightarrow> ready P c p \<Longrightarrow> matches scope V \<sigma> c \<Longrightarrow>
        registers c ! r = value_of slots (ctx c) \<sigma> e \<Longrightarrow> exec_stmt slots (ctx c) n s \<sigma> = Some out \<Longrightarrow>
        reaches P (p + length tail) scope V out c"
    and "binds s = {}"
  shows "stmt_ok slots s V scope g scope g'"
proof -
  obtain code where comp: "compiled slots scope e g r g1 code" using expr_compiled [OF assms(1-4)] .
  have r: "r < 31" using compiled_facts(5) [OF comp] .
  show ?thesis unfolding stmt_ok_def assms(8) Un_empty_right
  proof (rule block_okI [OF comp assms(1,2,5)])
    fix P p c \<sigma> out
    assume "code_at P p (code @ tail)" "ready P c (p + length code)" "matches scope V \<sigma> c"
      "registers c ! r = value_of slots (ctx c) \<sigma> e" "\<exists>n. exec_stmt slots (ctx c) n s \<sigma> = Some out"
    thus "reaches P (p + length code + length tail) scope V out c"
      using assms(7) [OF r] by (auto simp: code_at_append)
  qed (use assms(2,6) r in \<open>auto simp: gen_ok_def\<close>)
qed

lemma constrain_ok:
  assumes "covered V (SConstrain e)" "gen_ok slots scope V g"
    and gen: "generate_stmt slots (SConstrain e) scope g = (scope', g')" and nf: "\<not> failed g'"
  shows "stmt_ok slots (SConstrain e) V scope g scope' g'"
proof -
  have "\<not> failed g" using gen nf by auto
  moreover obtain r g1 where ge: "generate_expr scope slots e g = (r, g1)" by (cases "generate_expr scope slots e g")
  ultimately have s': "scope' = scope" and g': "g' = emits [asm Op_Assert 0 r 0 0] (g1\<lparr>next_reg := next_reg g\<rparr>)"
    using gen by (auto simp: Let_def emit_emits)
  have "\<not> failed g1" using nf g' by simp
  moreover have "reaches P (p + length [asm Op_Assert 0 r 0 0]) scope V out c"
    if "r < 31" "code_at P p [asm Op_Assert 0 r 0 0]" "ready P c p" "matches scope V \<sigma> c"
      "registers c ! r = value_of slots (ctx c) \<sigma> e" "exec_stmt slots (ctx c) n (SConstrain e) \<sigma> = Some out"
    for P p c \<sigma> n out
  proof (cases "value_of slots (ctx c) \<sigma> e = 0")
    case True
    thus ?thesis using goes_assert(2) [OF that(3,2)] that by (auto simp: reaches_def)
  next
    case False
    hence "goes P c (moved (Suc p) c) 1 \<and> ready P (moved (Suc p) c) (Suc p)"
      using goes_assert(1) [OF that(3,2)] that by simp
    moreover have "out = Done \<sigma>" using False that(6) by simp
    ultimately show ?thesis using that(4)
      by (auto intro!: reaches_done simp: matches_def same_frame_def moved_def)
  qed
  ultimately show ?thesis unfolding s' using assms(1)
    by (intro stmt_expr [OF _ assms(2) ge _ g']) auto
qed

lemma storage_write_ok:
  assumes "covered V (SStorageWrite x e)" "gen_ok slots scope V g"
    and gen: "generate_stmt slots (SStorageWrite x e) scope g = (scope', g')" and nf: "\<not> failed g'"
  shows "stmt_ok slots (SStorageWrite x e) V scope g scope' g'"
proof -
  have "\<not> failed g" using gen nf by auto
  moreover obtain r g1 where ge: "generate_expr scope slots e g = (r, g1)" by (cases "generate_expr scope slots e g")
  ultimately obtain slot where slot: "slots x = Some slot" and s': "scope' = scope"
    and g': "g' = emits [asm Op_SWrite 0 r 0 slot] (g1\<lparr>next_reg := next_reg g\<rparr>)"
    using gen nf by (auto simp: Let_def emit_emits split: option.splits)
  have "slot \<noteq> - 1" using slot assms(2) by (simp add: gen_ok_def nonneg_slots_def)
  have "\<not> failed g1" using nf g' by simp
  moreover have "reaches P (p + length [asm Op_SWrite 0 r 0 slot]) scope V out c"
    if "r < 31" "code_at P p [asm Op_SWrite 0 r 0 slot]" "ready P c p" "matches scope V \<sigma> c"
      "registers c ! r = value_of slots (ctx c) \<sigma> e" "exec_stmt slots (ctx c) n (SStorageWrite x e) \<sigma> = Some out"
    for P p c \<sigma> n out
  proof -
    have "canonical (value_of slots (ctx c) \<sigma> e)"
      using that(4) assms(1) by (intro canonical_eval) (auto simp: matches_def)
    moreover note goes_swrite [OF that(3,2)]
    moreover have "out = Done (write_slot slot (value_of slots (ctx c) \<sigma> e) \<sigma>)" using that(6) slot by simp
    ultimately show ?thesis using that(1,4,5) \<open>slot \<noteq> - 1\<close>
      by (auto intro!: reaches_done simp: matches_def same_frame_def moved_def write_slot_def canonical_src_def)
  qed
  ultimately show ?thesis unfolding s' using assms(1)
    by (intro stmt_expr [OF _ assms(2) ge _ g']) auto
qed

lemma assign_ok:
  assumes "covered V (SAssign x e)" "gen_ok slots scope V g"
    and gen: "generate_stmt slots (SAssign x e) scope g = (scope', g')" and nf: "\<not> failed g'"
  shows "stmt_ok slots (SAssign x e) V scope g scope' g'"
proof -
  have "\<not> failed g" using gen nf by auto
  moreover obtain r g1 where ge: "generate_expr scope slots e g = (r, g1)" by (cases "generate_expr scope slots e g")
  ultimately obtain vi where vi: "scope x = Some vi" and s': "scope' = scope"
    and g': "g' = emits [asm Op_Add (reg vi) r 0 0] (g1\<lparr>next_reg := next_reg g\<rparr>)"
    using gen nf by (auto simp: Let_def emit_emits split: option.splits)
  let ?i = "asm Op_Add (reg vi) r 0 0"
  have x: "x \<in> V" and e: "reads V e" using assms(1) by auto
  have so: "scope_ok scope V (next_reg g)" "next_reg g \<le> 31" using assms(2) by (simp_all add: gen_ok_def)
  hence vr: "0 < reg vi" "reg vi < 31" using vi x by (auto simp: scope_ok_def regs_in_def)
  have other: "\<exists>vj. scope y = Some vj \<and> reg vj \<noteq> reg vi" if "y \<in> V" "y \<noteq> x" for y
    using so(1) that x vi unfolding scope_ok_def inj_on_def by fastforce
  have "\<not> failed g1" using nf g' by simp
  moreover have "reaches P (p + length [?i]) scope V out c"
    if "r < 31" "code_at P p [?i]" "ready P c p" "matches scope V \<sigma> c"
      "registers c ! r = value_of slots (ctx c) \<sigma> e" "exec_stmt slots (ctx c) n (SAssign x e) \<sigma> = Some out"
    for P p c \<sigma> n out
  proof -
    let ?v = "value_of slots (ctx c) \<sigma> e"
    let ?c1 = "(moved (Suc p) c)\<lparr>registers := (registers c)[reg vi := ?v]\<rparr>"
    have canon: "canonical ?v" using that(4) e by (intro canonical_eval) (auto simp: matches_def)
    have c: "length (registers c) = 32" "registers c ! 0 = 0" using that(3) by (simp_all add: ready_def)
    hence "exec_code (storage c) (ctx c) [?i] (registers c) = (registers c)[reg vi := ?v]"
      using vr that(1,5) canon by (simp add: exec_inst_asm field_add_zero)
    hence go: "goes P c ?c1 (code_gas [?i])" "ready P ?c1 (Suc p)"
      using goes_pure_code [OF that(3,2)] vr that(1) by (simp_all add: pure_asm)
    have "holds scope V ((vars \<sigma>)(x := ?v)) ((registers c)[reg vi := ?v])"
      unfolding holds_def
    proof
      fix y assume y: "y \<in> V"
      show "\<exists>vj. scope y = Some vj \<and> (registers c)[reg vi := ?v] ! reg vj = ((vars \<sigma>)(x := ?v)) y"
      proof (cases "y = x")
        case True
        thus ?thesis using vi vr c(1) by simp
      next
        case False
        thus ?thesis using other [OF y False] that(4) y by (auto simp: matches_def holds_def)
      qed
    qed
    moreover have "out = Done (bind_var x ?v \<sigma>)" using that(6) by simp
    ultimately show ?thesis using go canon that(4)
      by (auto intro!: reaches_done simp: matches_def same_frame_def moved_def bind_var_def canonical_src_def)
  qed
  ultimately show ?thesis unfolding s' using e vr
    by (intro stmt_expr [OF _ assms(2) ge _ g']) auto
qed

lemma expr_stmt_ok:
  assumes "covered V (SExpr e)" "gen_ok slots scope V g"
    and gen: "generate_stmt slots (SExpr e) scope g = (scope', g')" and nf: "\<not> failed g'"
  shows "stmt_ok slots (SExpr e) V scope g scope' g'"
proof -
  have "\<not> failed g" using gen nf by auto
  moreover obtain r g1 where ge: "generate_expr scope slots e g = (r, g1)" by (cases "generate_expr scope slots e g")
  ultimately have s': "scope' = scope" and g': "g' = emits [] (g1\<lparr>next_reg := next_reg g\<rparr>)"
    using gen by (auto simp: Let_def)
  have "\<not> failed g1" using nf g' by simp
  thus ?thesis unfolding s' using assms(1)
    by (intro stmt_expr [OF _ assms(2) ge _ g']) (auto intro!: reaches_done)
qed

lemma code_at_Nil: "code_at P p [] \<longleftrightarrow> p \<le> length P"
  by (simp add: code_at_def)

lemma mapping_write_ok:
  assumes "covered V (SMappingWrite x k e)" "gen_ok slots scope V g"
    and gen: "generate_stmt slots (SMappingWrite x k e) scope g = (scope', g')" and nf: "\<not> failed g'"
  shows "stmt_ok slots (SMappingWrite x k e) V scope g scope' g'"
proof -
  have cov: "reads V k" "reads V e" using assms(1) by auto
  have nfg: "\<not> failed g" using gen nf by auto
  then obtain slot where slot: "slots x = Some slot" using gen nf by (auto split: option.splits)
  obtain kr g1 where ge1: "generate_expr scope slots k g = (kr, g1)" by (cases "generate_expr scope slots k g")
  obtain vr g2 where ge2: "generate_expr scope slots e g1 = (vr, g2)" by (cases "generate_expr scope slots e g1")
  obtain b g3 where a1: "alloc_reg g2 = (b, g3)" by (cases "alloc_reg g2")
  obtain t g4 where a2: "alloc_reg (emits [asm Op_Load b 0 0 slot] g3) = (t, g4)"
    by (cases "alloc_reg (emits [asm Op_Load b 0 0 slot] g3)")
  let ?tail = "[asm Op_Poseidon t b kr 0, asm Op_SWrite 0 vr t (- 1)]"
  have s': "scope' = scope" and g': "g' = emits ?tail (g4\<lparr>next_reg := next_reg g\<rparr>)"
    using gen nfg slot ge1 ge2 a1 a2 by (auto simp: Let_def emit_emits)
  have "\<not> failed g4" using nf g' by simp
  note o2 = alloc_reg_ok [OF a2 this]
  hence "\<not> failed g3" by simp
  note o1 = alloc_reg_ok [OF a1 this]
  hence nf2: "\<not> failed g2" by simp
  hence nf1: "\<not> failed g1" using ge2 by auto
  obtain ck where k: "compiled slots scope k g kr g1 ck" using expr_compiled [OF cov(1) assms(2) ge1 nf1] .
  note fk = compiled_facts [OF k]
  have g1ok: "gen_ok slots scope V g1"
    using assms(2) fk by (auto simp: gen_ok_def intro: scope_ok_mono)
  obtain cv where v: "compiled slots scope e g1 vr g2 cv" using expr_compiled [OF cov(2) g1ok ge2 nf2] .
  note fv = compiled_facts [OF v]
  have regs: "b = next_reg g2" "t = b + 1" "t < 31" "kr < next_reg g1" "kr < b" "vr < b"
    using o1 o2 k v by (auto simp: compiled_def)
  let ?ld = "asm Op_Load b 0 0 slot" and ?ps = "asm Op_Poseidon t b kr 0" and ?sw = "asm Op_SWrite 0 vr t (- 1)"
  have g'2: "g' = emits (cv @ [?ld, ?ps, ?sw]) (g1\<lparr>next_reg := next_reg g\<rparr>)"
    using g' o1 o2 arg_cong [OF fv(1), of "\<lambda>h. h\<lparr>next_reg := next_reg g\<rparr>"] by simp
  have "block_ok (\<lambda>c \<sigma> out. \<exists>n. exec_stmt slots c n (SMappingWrite x k e) \<sigma> = Some out) V V scope g scope g'"
  proof (rule block_okI [OF k cov(1) assms(2) g'2])
    show "list_all ok_inst (cv @ [?ld, ?ps, ?sw])" using fv regs by simp
    fix P p c \<sigma> out
    assume code: "code_at P p (ck @ cv @ [?ld, ?ps, ?sw])" and c: "ready P c (p + length ck)"
      and m: "matches scope V \<sigma> c" and kv: "registers c ! kr = value_of slots (ctx c) \<sigma> k"
      and "\<exists>n. exec_stmt slots (ctx c) n (SMappingWrite x k e) \<sigma> = Some out"
    hence out: "out = Done (write_slot (mapping_slot slot (value_of slots (ctx c) \<sigma> k)) (value_of slots (ctx c) \<sigma> e) \<sigma>)"
      using slot by simp
    let ?q = "p + length ck + length cv"
    have at: "code_at P (p + length ck) cv" "code_at P ?q [?ld, ?ps]" "code_at P (Suc (Suc ?q)) [?sw]"
      using code by (auto simp: code_at_append code_at_Cons add.assoc code_at_Nil)
    have s1: "scope_ok scope V (next_reg g1)" using g1ok by (simp add: gen_ok_def)
    obtain c1 G where c1: "goes P c c1 G" "ready P c1 ?q" "matches scope V \<sigma> c1" "same_frame c c1"
        "registers c1 ! vr = value_of slots (ctx c) \<sigma> e"
      and keep: "\<And>j. j < next_reg g1 \<Longrightarrow> registers c1 ! j = registers c ! j"
      by (rule run_expr [OF v at(1) c m cov(2) s1]) blast
    define rs where "rs = exec_code (storage c1) (ctx c1) [?ld, ?ps] (registers c1)"
    define c2 where "c2 = (moved (Suc (Suc ?q)) c1)\<lparr>registers := rs\<rparr>"
    have pure: "list_all pure_inst [?ld, ?ps]" using regs fk(4) fv(2) by (simp add: pure_load pure_asm)
    have c2: "goes P c1 c2 (code_gas [?ld, ?ps])" "ready P c2 (Suc (Suc ?q))"
      using goes_pure_code [OF c1(2) at(2) pure] by (simp_all add: c2_def rs_def)
    have len: "length (registers c1) = 32" using c1(2) by (simp add: ready_def)
    have rs: "rs ! t = poseidon4_hash (scast slot) (value_of slots (ctx c) \<sigma> k)" "rs ! vr = value_of slots (ctx c) \<sigma> e"
      using regs len kv keep [of kr] c1(5) by (simp_all add: rs_def exec_inst_asm)
    note sw = goes_swrite [OF c2(2) at(3)]
    have "canonical (value_of slots (ctx c) \<sigma> e)"
      using m cov(2) by (intro canonical_eval) (auto simp: matches_def)
    moreover have "holds scope V (vars \<sigma>) rs"
    proof -
      have "writes_from (next_reg g2) [?ld, ?ps]" using pure regs by simp
      moreover have "scope_ok scope V (next_reg g2)" using s1 fv(2) by (auto intro: scope_ok_mono)
      ultimately show ?thesis using c1(3) unfolding rs_def
        by (intro holds_keeps) (auto simp: matches_def scope_ok_def)
    qed
    ultimately have "reaches P (Suc (Suc (Suc ?q))) scope V out c2"
      unfolding out using sw regs rs c1(3)
      by (auto intro!: reaches_done simp: matches_def same_frame_def moved_def write_slot_def canonical_src_def
          mapping_slot_def c2_def)
    moreover have "same_frame c1 c2" by (simp add: c2_def same_frame_def moved_def)
    ultimately have "reaches P (Suc (Suc (Suc ?q))) scope V out c"
      using reaches_after [OF c1(1,4)] reaches_after [OF c2(1)] by blast
    thus "reaches P (p + length ck + length (cv @ [?ld, ?ps, ?sw])) scope V out c" by (simp add: add.assoc)
  qed (use assms(2) in \<open>auto simp: gen_ok_def\<close>)
  thus ?thesis unfolding s' by (simp add: stmt_ok_def)
qed

section \<open>Sequences\<close>

lemma block_seq:
  assumes 1: "block_ok ex1 V V1 scope g scope1 g1" and 2: "block_ok ex2 V1 V2 scope1 g1 scope2 g2"
    and sub: "V \<subseteq> V1"
    and split: "\<And>c \<sigma> out. ex c \<sigma> out \<Longrightarrow>
      (\<exists>\<sigma>1. ex1 c \<sigma> (Done \<sigma>1) \<and> ex2 c \<sigma>1 out) \<or> (ex1 c \<sigma> Violated \<and> out = Violated)"
  shows "block_ok ex V V2 scope g scope2 g2"
proof -
  obtain xs where g1: "g1 = emits xs (g\<lparr>next_reg := next_reg g1\<rparr>)" and f1: "list_all ok_inst xs"
      "next_reg g \<le> next_reg g1" "\<forall>x \<in> V. scope1 x = scope x" and s1: "simulates ex1 xs scope V scope1 V1"
    using 1 by (auto simp: block_ok_def)
  obtain ys where g2: "g2 = emits ys (g1\<lparr>next_reg := next_reg g2\<rparr>)" and f2: "list_all ok_inst ys"
      "next_reg g1 \<le> next_reg g2" "next_reg g2 \<le> 31" "\<forall>x \<in> V1. scope2 x = scope1 x"
      "scope_ok scope2 V2 (next_reg g2)" and s2: "simulates ex2 ys scope1 V1 scope2 V2"
    using 2 by (auto simp: block_ok_def)
  have "simulates ex (xs @ ys) scope V scope2 V2"
    unfolding simulates_def
  proof (intro allI impI)
    fix P p c \<sigma> out
    assume code: "code_at P p (xs @ ys)" and c: "ready P c p" "matches scope V \<sigma> c" and x: "ex (ctx c) \<sigma> out"
    have at: "code_at P p xs" "code_at P (p + length xs) ys" using code by (simp_all add: code_at_append)
    from split [OF x] show "reaches P (p + length (xs @ ys)) scope2 V2 out c"
    proof (elim disjE exE conjE)
      fix \<sigma>1 assume e: "ex1 (ctx c) \<sigma> (Done \<sigma>1)" "ex2 (ctx c) \<sigma>1 out"
      have "reaches P (p + length xs) scope1 V1 (Done \<sigma>1) c"
        using s1 at(1) c e(1) unfolding simulates_def by blast
      then obtain c' G where c': "goes P c c' G" "ready P c' (p + length xs)" "matches scope1 V1 \<sigma>1 c'" "same_frame c c'"
        by (auto simp: reaches_def)
      hence "ctx c' = ctx c" by (simp add: same_frame_def)
      hence "reaches P (p + length xs + length ys) scope2 V2 out c'"
        using s2 at(2) c' e(2) unfolding simulates_def by metis
      thus ?thesis using reaches_after [OF c'(1,4)] by (simp add: add.assoc)
    next
      assume e: "ex1 (ctx c) \<sigma> Violated" "out = Violated"
      have "reaches P (p + length xs) scope1 V1 Violated c"
        using s1 at(1) c e(1) unfolding simulates_def by blast
      thus ?thesis using e(2) by (simp add: reaches_def)
    qed
  qed
  moreover have "g2 = emits (xs @ ys) (g\<lparr>next_reg := next_reg g2\<rparr>)"
    using g2 arg_cong [OF g1, of "\<lambda>h. h\<lparr>next_reg := next_reg g2\<rparr>"] by simp
  moreover have "\<forall>x \<in> V. scope2 x = scope x" using f1(3) f2(4) sub by auto
  ultimately show ?thesis unfolding block_ok_def using f1 f2 by (intro exI [of _ "xs @ ys"]) auto
qed

lemma block_ok_gen_ok:
  "block_ok ex V V' scope g scope' g' \<Longrightarrow> gen_ok slots scope V g \<Longrightarrow> gen_ok slots scope' V' g'"
  by (auto simp: block_ok_def gen_ok_def)

lemma block_weaken:
  "block_ok ex V V' scope g scope' g' \<Longrightarrow> (\<And>c \<sigma> out. ex' c \<sigma> out \<Longrightarrow> ex c \<sigma> out) \<Longrightarrow>
   block_ok ex' V V' scope g scope' g'"
  unfolding block_ok_def simulates_def by blast

lemma block_nil:
  assumes "gen_ok slots scope V g" "\<And>c \<sigma> out. ex c \<sigma> out \<Longrightarrow> out = Done \<sigma>"
  shows "block_ok ex V V scope g scope g"
  unfolding block_ok_def
proof (intro exI [of _ "[]"] conjI)
  show "simulates ex [] scope V scope V"
    unfolding simulates_def
  proof (intro allI impI)
    fix P p c \<sigma> out
    assume "ready P c p" "matches scope V \<sigma> c" and x: "ex (ctx c) \<sigma> out"
    thus "reaches P (p + length []) scope V out c"
      using assms(2) [OF x] reaches_done [OF goes_refl] by simp
  qed
qed (use assms(1) in \<open>auto simp: gen_ok_def\<close>)

definition emit_arg :: "scope \<Rightarrow> storage_map \<Rightarrow> expr \<Rightarrow> codegen \<Rightarrow> codegen" where
  "emit_arg scope slots arg g = (let (r, g) = generate_expr scope slots arg g in emit Op_Log 0 r 0 0 g)"

lemma emit_arg_failed: "failed g \<Longrightarrow> failed (emit_arg scope slots a g)"
  by (simp add: emit_arg_def)

lemma emit_args_failed: "failed g \<Longrightarrow> failed (fold (emit_arg scope slots) as g)"
  by (induction as arbitrary: g) (simp_all add: emit_arg_failed)

lemma emit_arg_ok:
  assumes "reads V a" "gen_ok slots scope V g" "\<not> failed (emit_arg scope slots a g)"
  shows "block_ok (\<lambda>c \<sigma> out. out = Done (log_events [value_of slots c \<sigma> a] \<sigma>)) V V scope g scope (emit_arg scope slots a g)"
proof -
  obtain r g1 where ge: "generate_expr scope slots a g = (r, g1)" by (cases "generate_expr scope slots a g")
  let ?i = "asm Op_Log 0 r 0 0"
  have g': "emit_arg scope slots a g = emits [?i] (g1\<lparr>next_reg := next_reg g1\<rparr>)"
    by (simp add: emit_arg_def ge emit_emits)
  have "\<not> failed g1" using assms(3) g' by simp
  then obtain code where comp: "compiled slots scope a g r g1 code" using expr_compiled [OF assms(1,2) ge] by blast
  note f = compiled_facts [OF comp]
  show ?thesis
  proof (rule block_okI [OF comp assms(1,2) g'])
    fix P p c \<sigma> out
    assume "code_at P p (code @ [?i])" and c: "ready P c (p + length code)" "matches scope V \<sigma> c"
      "registers c ! r = value_of slots (ctx c) \<sigma> a" "out = Done (log_events [value_of slots (ctx c) \<sigma> a] \<sigma>)"
    hence at: "code_at P (p + length code) [?i]" by (simp add: code_at_append)
    show "reaches P (p + length code + length [?i]) scope V out c"
      using goes_log [OF c(1) at] c f(5)
      by (auto intro!: reaches_done simp: matches_def same_frame_def moved_def log_events_def canonical_src_def)
  qed (use f in auto)
qed

lemma emit_args_ok:
  assumes "\<forall>a \<in> set args. reads V a" "gen_ok slots scope V g" "\<not> failed (fold (emit_arg scope slots) args g)"
  shows "block_ok (\<lambda>c \<sigma> out. out = Done (log_events (map (value_of slots c \<sigma>) args) \<sigma>)) V V scope g scope
    (fold (emit_arg scope slots) args g)"
  using assms
proof (induction args arbitrary: g)
  case Nil
  thus ?case by (auto intro!: block_nil simp: log_events_def)
next
  case (Cons a as)
  have "\<not> failed (emit_arg scope slots a g)" using Cons.prems(3) emit_args_failed by auto
  hence 1: "block_ok (\<lambda>c \<sigma> out. out = Done (log_events [value_of slots c \<sigma> a] \<sigma>)) V V scope g scope (emit_arg scope slots a g)"
    using Cons.prems by (intro emit_arg_ok) simp_all
  have 2: "block_ok (\<lambda>c \<sigma> out. out = Done (log_events (map (value_of slots c \<sigma>) as) \<sigma>)) V V scope
      (emit_arg scope slots a g) scope (fold (emit_arg scope slots) (a # as) g)"
    using Cons.IH [of "emit_arg scope slots a g"] Cons.prems block_ok_gen_ok [OF 1] by simp
  show ?case by (rule block_seq [OF 1 2]) (auto simp: log_events_def)
qed

lemma block_reset:
  assumes "block_ok ex V V scope g scope g1" "gen_ok slots scope V g"
  shows "block_ok ex V V scope g scope (g1\<lparr>next_reg := next_reg g\<rparr>)"
proof -
  obtain code where g1: "g1 = emits code (g\<lparr>next_reg := next_reg g1\<rparr>)"
    and "list_all ok_inst code" "simulates ex code scope V scope V"
    using assms(1) by (auto simp: block_ok_def)
  moreover have "g1\<lparr>next_reg := next_reg g\<rparr> = emits code g"
    using arg_cong [OF g1, of "\<lambda>h. h\<lparr>next_reg := next_reg g\<rparr>"] by simp
  ultimately show ?thesis unfolding block_ok_def using assms(2)
    by (intro exI [of _ code]) (simp add: gen_ok_def)
qed

lemma emit_ok:
  assumes "covered V (SEmit ev args)" "gen_ok slots scope V g"
    and gen: "generate_stmt slots (SEmit ev args) scope g = (scope', g')" and nf: "\<not> failed g'"
  shows "stmt_ok slots (SEmit ev args) V scope g scope' g'"
proof -
  have "\<not> failed g" using gen nf by auto
  hence s': "scope' = scope" and g': "g' = (fold (emit_arg scope slots) args g)\<lparr>next_reg := next_reg g\<rparr>"
    using gen by (auto simp: Let_def emit_arg_def [abs_def])
  have "block_ok (\<lambda>c \<sigma> out. out = Done (log_events (map (value_of slots c \<sigma>) args) \<sigma>)) V V scope g scope
      (fold (emit_arg scope slots) args g)"
    using assms(1,2) nf g' by (intro emit_args_ok) auto
  from block_reset [OF this assms(2)]
  show ?thesis unfolding s' g' stmt_ok_def binds.simps Un_empty_right by (rule block_weaken) auto
qed

section \<open>Jumps\<close>

lemma patch_failed: "failed g \<Longrightarrow> patch_to idx t g = g"
  by (simp add: patch_to_def patch_jump_def)

lemma jump_offset_shift: "jump_offset (p + a) (p + b) = jump_offset a b"
  by (simp add: jump_offset_def)

lemma patch_to_emits:
  assumes "\<not> failed g" "k < length code" "encodable (code ! k)"
  shows "patch_to (here g + k) (here g + t) (emits code g) =
    emits (code[k := (code ! k)\<lparr>imm := jump_offset t k\<rparr>]) g"
proof -
  have "(instructions g @ map encode code) ! (here g + k) = encode (code ! k)"
    using assms(2) by (simp add: here_def nth_append)
  thus ?thesis using assms decode_any_encode [OF assms(3)]
    by (simp add: patch_to_def patch_jump_def here_def emits_def jump_offset_shift list_update_append map_update
        failed_def)
qed

lemma failed_generate_stmt [simp]: "failed g \<Longrightarrow> generate_stmt slots s scope g = (scope, g)"
  by (cases s) simp_all

lemma failed_generate_stmts [simp]: "failed g \<Longrightarrow> generate_stmts slots ss scope g = (scope, g)"
  by (induction ss) simp_all

text \<open>Appending a jump to the code that ends at its position.\<close>

lemma reaches_jump:
  assumes "reaches P q scope V out c"
    and "\<And>c'. ready P c' q \<Longrightarrow> goes P c' (moved t c') 1 \<and> ready P (moved t c') t"
  shows "reaches P t scope V out c"
proof (cases out)
  case (Done \<sigma>')
  then obtain c' G where c': "goes P c c' G" "ready P c' q" "matches scope V \<sigma>' c'" "same_frame c c'"
    using assms(1) by (auto simp: reaches_def)
  moreover have "matches scope V \<sigma>' (moved t c')" "same_frame c (moved t c')"
    using c' by (simp_all add: matches_def same_frame_def moved_def)
  ultimately show ?thesis unfolding Done
    using assms(2) [OF c'(2)] goes_trans [OF c'(1)] by (blast intro: reaches_done)
next
  case Violated
  thus ?thesis using assms(1) by (simp add: reaches_def)
qed

section \<open>Branches and loops\<close>

definition compiles_block :: "storage_map \<Rightarrow> stmt list \<Rightarrow> string set \<Rightarrow> bool" where
  "compiles_block slots ss V \<longleftrightarrow> (\<forall>scope g scope' g'. gen_ok slots scope V g \<longrightarrow>
     generate_stmts slots ss scope g = (scope', g') \<longrightarrow> \<not> failed g' \<longrightarrow>
     (\<exists>V'. V \<subseteq> V' \<and>
        block_ok (\<lambda>c \<sigma> out. \<exists>n. exec_stmts slots c n ss \<sigma> = Some out) V V' scope g scope' g'))"

lemma compiles_blockE:
  assumes "compiles_block slots ss V" "gen_ok slots scope V g" "generate_stmts slots ss scope g = (scope', g')" "\<not> failed g'"
  obtains code where "g' = emits code (g\<lparr>next_reg := next_reg g'\<rparr>)" "list_all ok_inst code"
    "gen_ok slots scope' V g'" "next_reg g \<le> next_reg g'" "\<forall>x \<in> V. scope' x = scope x"
    "\<And>P p c \<sigma> n out. code_at P p code \<Longrightarrow> ready P c p \<Longrightarrow> matches scope V \<sigma> c \<Longrightarrow>
       exec_stmts slots (ctx c) n ss \<sigma> = Some out \<Longrightarrow> reaches P (p + length code) scope V out c"
proof -
  obtain V' where V': "V \<subseteq> V'"
    and b: "block_ok (\<lambda>c \<sigma> out. \<exists>n. exec_stmts slots c n ss \<sigma> = Some out) V V' scope g scope' g'"
    using assms(1) [unfolded compiles_block_def, rule_format, OF assms(2-4)] by (elim exE conjE)
  then obtain code where code: "g' = emits code (g\<lparr>next_reg := next_reg g'\<rparr>)" "list_all ok_inst code"
      "next_reg g \<le> next_reg g'" "\<forall>x \<in> V. scope' x = scope x"
    and sim: "simulates (\<lambda>c \<sigma> out. \<exists>n. exec_stmts slots c n ss \<sigma> = Some out) code scope V scope' V'"
    unfolding block_ok_def by blast
  have "gen_ok slots scope' V g'"
    using block_ok_gen_ok [OF b assms(2)] V' by (auto simp: gen_ok_def intro: scope_ok_mono)
  moreover have "reaches P (p + length code) scope V out c"
    if "code_at P p code" "ready P c p" "matches scope V \<sigma> c" "exec_stmts slots (ctx c) n ss \<sigma> = Some out"
    for P p c \<sigma> n out
  proof -
    have "reaches P (p + length code) scope' V' out c" using sim that unfolding simulates_def by blast
    hence "reaches P (p + length code) scope' V out c" using V' by (rule reaches_subset)
    thus ?thesis using reaches_scope [of V scope scope'] code(4) by simp
  qed
  ultimately show thesis using that [OF code(1,2)] code(3,4) by blast
qed

lemma asm_set_imm [simp]: "(asm op d a b im)\<lparr>imm := im'\<rparr> = asm op d a b im'"
  by (simp add: asm_def)

lemma gen_ok_agree:
  assumes "gen_ok slots scope V g" "next_reg h = next_reg g"
  shows "gen_ok slots scope V h"
  using assms by (simp add: gen_ok_def)

lemma if_ok:
  assumes cov: "reads V e" and g: "gen_ok slots scope V g"
    and th: "compiles_block slots th V" and el: "\<And>eb. el = Some eb \<Longrightarrow> compiles_block slots eb V"
    and gen: "generate_stmt slots (SIf e th el) scope g = (scope', g')" and nf: "\<not> failed g'"
  shows "stmt_ok slots (SIf e th el) V scope g scope' g'"
proof -
  define eb where "eb = (case el of Some eb \<Rightarrow> eb | None \<Rightarrow> [])"
  have nfg: "\<not> failed g" using gen nf by auto
  obtain r g1 where ge: "generate_expr scope slots e g = (r, g1)" by (cases "generate_expr scope slots e g")
  define g2 where "g2 = (emits [asm Op_Jnz 0 r 0 0] g1)\<lparr>next_reg := next_reg g\<rparr>"
  obtain scope1 g3 where gel: "generate_stmts slots eb scope g2 = (scope1, g3)" by (cases "generate_stmts slots eb scope g2")
  define g4 where "g4 = emits [asm Op_Jmp 0 0 0 0] g3"
  obtain scope2 g5 where gth: "generate_stmts slots th scope1 g4 = (scope2, g5)" by (cases "generate_stmts slots th scope1 g4")
  have elg: "(case el of Some eb \<Rightarrow> generate_stmts slots eb scope g2 | None \<Rightarrow> (scope, g2)) = (scope1, g3)"
    using gel by (cases el) (simp_all add: eb_def)
  have s': "scope' = scope2" and g': "g' = patch_to (here g3) (here g5) (patch_to (here g1) (here g4) g5)"
    using gen nfg ge gth elg [unfolded g2_def]
    by (auto simp: Let_def emit_emits g4_def simp del: emits_simps(10,11))
  have nf5: "\<not> failed g5" using nf g' patch_failed by auto
  hence nf4: "\<not> failed g4" using gth by auto
  hence nf3: "\<not> failed g3" by (simp add: g4_def)
  hence nf2: "\<not> failed g2" using gel by auto
  hence nf1: "\<not> failed g1" by (simp add: g2_def)
  obtain ce where comp: "compiled slots scope e g r g1 ce" using expr_compiled [OF cov g ge nf1] .
  note f = compiled_facts [OF comp]
  have g2: "gen_ok slots scope V g2" using g by (rule gen_ok_agree) (simp add: g2_def)
  have elc: "compiles_block slots eb V"
    using el by (cases el) (auto simp: eb_def compiles_block_def intro!: exI [of _ V] block_nil)
  obtain xs where xs: "g3 = emits xs (g2\<lparr>next_reg := next_reg g3\<rparr>)" "list_all ok_inst xs" "gen_ok slots scope1 V g3"
      "next_reg g2 \<le> next_reg g3" "\<forall>x \<in> V. scope1 x = scope x"
    and simx: "\<And>P p c \<sigma> n out. code_at P p xs \<Longrightarrow> ready P c p \<Longrightarrow> matches scope V \<sigma> c \<Longrightarrow>
       exec_stmts slots (ctx c) n eb \<sigma> = Some out \<Longrightarrow> reaches P (p + length xs) scope V out c"
    by (rule compiles_blockE [OF elc g2 gel nf3]) blast
  have g4: "gen_ok slots scope1 V g4" using xs(3) by (rule gen_ok_agree) (simp add: g4_def)
  obtain ys where ys: "g5 = emits ys (g4\<lparr>next_reg := next_reg g5\<rparr>)" "list_all ok_inst ys" "gen_ok slots scope2 V g5"
      "next_reg g4 \<le> next_reg g5" "\<forall>x \<in> V. scope2 x = scope1 x"
    and simy: "\<And>P p c \<sigma> n out. code_at P p ys \<Longrightarrow> ready P c p \<Longrightarrow> matches scope1 V \<sigma> c \<Longrightarrow>
       exec_stmts slots (ctx c) n th \<sigma> = Some out \<Longrightarrow> reaches P (p + length ys) scope1 V out c"
    by (rule compiles_blockE [OF th g4 gth nf5]) blast
  define k where "k = length ce"
  define t where "t = k + 2 + length xs"
  let ?J = "\<lambda>im. asm Op_Jnz 0 r 0 im" and ?M = "\<lambda>im. asm Op_Jmp 0 0 0 im"
  define h where "h = g\<lparr>next_reg := next_reg g5\<rparr>"
  have nfh: "\<not> failed h" using nfg by (simp add: h_def)
  let ?tail = "?J (jump_offset t k) # xs @ ?M (jump_offset (t + length ys) (t - 1)) # ys"
  have at: "here g1 = here h + k" "here g3 = here h + (t - 1)" "here g4 = here h + t" "here g5 = here h + (t + length ys)"
    using arg_cong [OF f(1), of here] arg_cong [OF xs(1), of here] arg_cong [OF ys(1), of here]
    by (simp_all add: g4_def g2_def k_def t_def here_def h_def)
  have g5: "g5 = emits (ce @ ?J 0 # xs @ ?M 0 # ys) h"
    using ys(1) arg_cong [OF xs(1), of "\<lambda>g. g\<lparr>next_reg := next_reg g5\<rparr>"]
      arg_cong [OF f(1), of "\<lambda>g. g\<lparr>next_reg := next_reg g5\<rparr>"] by (simp add: g4_def g2_def h_def)
  have p1: "patch_to (here g1) (here g4) g5 = emits (ce @ ?J (jump_offset t k) # xs @ ?M 0 # ys) h"
    unfolding at g5 using nfh f(5) by (subst patch_to_emits) (simp_all add: k_def list_update_append)
  have g'2: "g' = emits (ce @ ?tail) h"
    unfolding g' p1 unfolding at using nfh
    by (subst patch_to_emits) (simp_all add: k_def t_def nth_append list_update_append)
  hence g'3: "g' = emits ?tail (g1\<lparr>next_reg := next_reg g5\<rparr>)"
    using arg_cong [OF f(1), of "\<lambda>g. g\<lparr>next_reg := next_reg g5\<rparr>"] by (simp add: h_def)
  have agree: "\<forall>x \<in> V. scope2 x = scope x" using xs(5) ys(5) by simp
  have "block_ok (\<lambda>c \<sigma> out. \<exists>n. exec_stmt slots c n (SIf e th el) \<sigma> = Some out) V V scope g scope2 g'"
  proof (rule block_okI [OF comp cov g g'3 _ _ _ agree])
    show "list_all ok_inst ?tail" using xs(2) ys(2) f(5) by simp
    show "next_reg g \<le> next_reg g5" "next_reg g5 \<le> 31" using xs(4) ys(3,4) by (simp_all add: g2_def g4_def gen_ok_def)
    fix P p c \<sigma> out
    assume code: "code_at P p (ce @ ?tail)" and c: "ready P c (p + length ce)" and m: "matches scope V \<sigma> c"
      and v: "registers c ! r = value_of slots (ctx c) \<sigma> e"
      and ex: "\<exists>n. exec_stmt slots (ctx c) n (SIf e th el) \<sigma> = Some out"
    have co: "code_at P (p + k) ?tail" "code_at P (p + k + 1) xs"
        "code_at P (p + (t - 1)) (?M (jump_offset (t + length ys) (t - 1)) # ys)" "code_at P (p + t) ys"
      using code by (auto simp: code_at_append code_at_Cons k_def t_def ac_simps)
    have le: "p + (t + length ys) \<le> length P" using co(4) by (simp add: code_at_def)
    obtain n where n: "exec_stmt slots (ctx c) n (SIf e th el) \<sigma> = Some out" using ex by blast
    note jnz = goes_jnz [where p = "p + k" and q = "p + t", unfolded jump_offset_shift, OF c [folded k_def] co(1)]
    have "reaches P (p + (t + length ys)) scope V out c"
    proof (cases "value_of slots (ctx c) \<sigma> e = 0")
      case False
      let ?c1 = "moved (p + t) c"
      have go: "goes P c ?c1 1" "ready P ?c1 (p + t)" using jnz False v le f(5) by auto
      have "matches scope1 V \<sigma> ?c1" using m matches_scope [OF xs(5)] by simp
      moreover have "exec_stmts slots (ctx ?c1) n th \<sigma> = Some out" using n False by simp
      ultimately have "reaches P (p + t + length ys) scope1 V out ?c1" using simy [OF co(4) go(2)] by blast
      hence "reaches P (p + (t + length ys)) scope V out ?c1"
        using reaches_scope [of V scope scope1] xs(5) by (simp add: add.assoc)
      thus ?thesis using reaches_after [OF go(1)] by simp
    next
      case True
      let ?c1 = "moved (p + k + 1) c"
      have go: "goes P c ?c1 1" "ready P ?c1 (p + k + 1)" using jnz True v le f(5) by auto
      have "matches scope V \<sigma> ?c1" using m by simp
      moreover have "exec_stmts slots (ctx ?c1) n eb \<sigma> = Some out"
        using n True by (auto simp: eb_def split: option.splits)
      ultimately have "reaches P (p + k + 1 + length xs) scope V out ?c1" using simx [OF co(2) go(2)] by blast
      hence 1: "reaches P (p + (t - 1)) scope V out ?c1" by (simp add: t_def ac_simps)
      have "reaches P (p + (t + length ys)) scope V out ?c1"
        using goes_jmp [where p = "p + (t - 1)" and q = "p + (t + length ys)", unfolded jump_offset_shift, OF _ co(3) le]
        by (intro reaches_jump [OF 1]) blast
      thus ?thesis using reaches_after [OF go(1)] by simp
    qed
    thus "reaches P (p + length ce + length ?tail) scope V out c" by (simp add: t_def k_def ac_simps)
  qed
  thus ?thesis unfolding s' by (simp add: stmt_ok_def)
qed

text \<open>A loop: test, jump into the body or past it, body, jump back to the test.\<close>

lemma while_runs:
  assumes comp: "compiled slots scope e g r g1 ce" and cov: "reads V e" and g: "scope_ok scope V (next_reg g)"
    and xs: "\<And>p c \<sigma> n out. code_at P p xs \<Longrightarrow> ready P c p \<Longrightarrow> matches scope V \<sigma> c \<Longrightarrow>
       exec_stmts slots (ctx c) n body \<sigma> = Some out \<Longrightarrow> reaches P (p + length xs) scope V out c"
    and k: "k = length ce" "t = k + 2 + length xs"
    and code: "code_at P p (ce @ asm Op_Jnz 0 r 0 (jump_offset (k + 2) k) #
        asm Op_Jmp 0 0 0 (jump_offset (t + 1) (k + 1)) # xs @ [asm Op_Jmp 0 0 0 (jump_offset 0 t)])"
  shows "ready P c p \<Longrightarrow> matches scope V \<sigma> c \<Longrightarrow> exec_stmt slots (ctx c) n (SWhile e body) \<sigma> = Some out \<Longrightarrow>
    reaches P (p + (t + 1)) scope V out c"
proof (induction n arbitrary: c \<sigma>)
  case (Suc n)
  note f = compiled_facts [OF comp]
  have co: "code_at P p ce" "code_at P (p + k) (asm Op_Jnz 0 r 0 (jump_offset (k + 2) k) #
        asm Op_Jmp 0 0 0 (jump_offset (t + 1) (k + 1)) # xs @ [asm Op_Jmp 0 0 0 (jump_offset 0 t)])"
      "code_at P (p + (k + 1)) (asm Op_Jmp 0 0 0 (jump_offset (t + 1) (k + 1)) # xs @ [asm Op_Jmp 0 0 0 (jump_offset 0 t)])"
      "code_at P (p + (k + 2)) xs" "code_at P (p + t) [asm Op_Jmp 0 0 0 (jump_offset 0 t)]"
    using code by (auto simp: code_at_append code_at_Cons k ac_simps)
  have le: "p + (t + 1) \<le> length P" using co(5) by (simp add: code_at_def)
  obtain c1 G where c1: "goes P c c1 G" "ready P c1 (p + k)" "matches scope V \<sigma> c1" "same_frame c c1"
    "registers c1 ! r = value_of slots (ctx c) \<sigma> e"
    using run_expr [OF comp co(1) Suc.prems(1,2) cov g] k(1) by metis
  have ctx: "ctx c1 = ctx c" using c1(4) by (simp add: same_frame_def)
  note jnz = goes_jnz [where p = "p + k" and q = "p + (k + 2)", unfolded jump_offset_shift, OF c1(2) co(2)]
  have "reaches P (p + (t + 1)) scope V out c1"
  proof (cases "value_of slots (ctx c) \<sigma> e = 0")
    case True
    let ?c2 = "moved (p + (k + 1)) c1"
    have go: "goes P c1 ?c2 1" "ready P ?c2 (p + (k + 1))" using jnz True c1(5) le f(5) k by auto
    have "out = Done \<sigma>" using Suc.prems(3) True by simp
    hence "reaches P (p + (k + 1)) scope V out ?c2" using go(2) c1(3) by (auto intro!: reaches_done [OF goes_refl])
    hence "reaches P (p + (t + 1)) scope V out ?c2"
      by (rule reaches_jump)
        (rule goes_jmp [where p = "p + (k + 1)" and q = "p + (t + 1)", unfolded jump_offset_shift, OF _ co(3) le])
    thus ?thesis using reaches_after [OF go(1)] by simp
  next
    case False
    let ?c2 = "moved (p + (k + 2)) c1"
    have go: "goes P c1 ?c2 1" "ready P ?c2 (p + (k + 2))" using jnz False c1(5) le f(5) k by auto
    have m2: "matches scope V \<sigma> ?c2" using c1(3) by simp
    have jump: "goes P c' (moved (p + 0) c') 1 \<and> ready P (moved (p + 0) c') (p + 0)" if "ready P c' (p + t)" for c'
      using goes_jmp [where p = "p + t" and q = "p + 0", unfolded jump_offset_shift, OF that co(5)] le by simp
    from Suc.prems(3) False consider \<sigma>1 where "exec_stmts slots (ctx c) n body \<sigma> = Some (Done \<sigma>1)"
        "exec_stmt slots (ctx c) n (SWhile e body) \<sigma>1 = Some out"
      | "exec_stmts slots (ctx c) n body \<sigma> = Some Violated" "out = Violated"
      by (auto split: option.splits outcome.splits)
    thus ?thesis
    proof cases
      case 1
      have "reaches P (p + (k + 2) + length xs) scope V (Done \<sigma>1) ?c2"
        using xs [OF co(4) go(2) m2, of n] 1(1) ctx by simp
      hence "reaches P (p + t) scope V (Done \<sigma>1) ?c2" by (simp add: k ac_simps)
      hence "reaches P (p + 0) scope V (Done \<sigma>1) ?c2" using jump by (rule reaches_jump)
      then obtain c3 H where c3: "goes P ?c2 c3 H" "ready P c3 p" "matches scope V \<sigma>1 c3" "same_frame ?c2 c3"
        by (auto simp: reaches_def)
      have "reaches P (p + (t + 1)) scope V out c3"
        using Suc.IH [OF c3(2,3)] 1(2) c3(4) ctx by (simp add: same_frame_def)
      thus ?thesis using reaches_after [OF c3(1,4)] reaches_after [OF go(1)] by simp
    next
      case 2
      have "reaches P (p + (k + 2) + length xs) scope V Violated ?c2"
        using xs [OF co(4) go(2) m2, of n] 2(1) ctx by simp
      hence "reaches P (p + (t + 1)) scope V out ?c2" using 2(2) by (simp add: reaches_def)
      thus ?thesis using reaches_after [OF go(1)] by simp
    qed
  qed
  thus ?case using reaches_after [OF c1(1,4)] by blast
qed simp

lemma while_ok:
  assumes cov: "reads V e" and g: "gen_ok slots scope V g" and body: "compiles_block slots body V"
    and gen: "generate_stmt slots (SWhile e body) scope g = (scope', g')" and nf: "\<not> failed g'"
  shows "stmt_ok slots (SWhile e body) V scope g scope' g'"
proof -
  have nfg: "\<not> failed g" using gen nf by auto
  obtain r g1 where ge: "generate_expr scope slots e g = (r, g1)" by (cases "generate_expr scope slots e g")
  define g2 where "g2 = emits [asm Op_Jmp 0 0 0 0] ((emits [asm Op_Jnz 0 r 0 0] g1)\<lparr>next_reg := next_reg g\<rparr>)"
  obtain scope1 g3 where gb: "generate_stmts slots body scope g2 = (scope1, g3)" by (cases "generate_stmts slots body scope g2")
  define g4 where "g4 = emits [asm Op_Jmp 0 0 0 (jump_offset (here g) (here g3))] g3"
  have s': "scope' = scope1"
    and g': "g' = patch_to (here (emits [asm Op_Jnz 0 r 0 0] g1)) (here g4) (patch_to (here g1) (here g2) g4)"
    using gen nfg ge gb [unfolded g2_def]
    by (auto simp: Let_def emit_emits g4_def g2_def here_def simp del: emits_simps(10,11))
  have "\<not> failed g4" using nf g' patch_failed by auto
  hence nf3: "\<not> failed g3" by (simp add: g4_def)
  hence "\<not> failed g2" using gb by auto
  hence nf1: "\<not> failed g1" by (simp add: g2_def)
  obtain ce where comp: "compiled slots scope e g r g1 ce" using expr_compiled [OF cov g ge nf1] .
  note f = compiled_facts [OF comp]
  have g2: "gen_ok slots scope V g2" using g by (rule gen_ok_agree) (simp add: g2_def)
  obtain xs where xs: "g3 = emits xs (g2\<lparr>next_reg := next_reg g3\<rparr>)" "list_all ok_inst xs" "gen_ok slots scope1 V g3"
      "next_reg g2 \<le> next_reg g3" "\<forall>x \<in> V. scope1 x = scope x"
    and simx: "\<And>P p c \<sigma> n out. code_at P p xs \<Longrightarrow> ready P c p \<Longrightarrow> matches scope V \<sigma> c \<Longrightarrow>
       exec_stmts slots (ctx c) n body \<sigma> = Some out \<Longrightarrow> reaches P (p + length xs) scope V out c"
    by (rule compiles_blockE [OF body g2 gb nf3]) blast
  define k where "k = length ce"
  define t where "t = k + 2 + length xs"
  define h where "h = g\<lparr>next_reg := next_reg g3\<rparr>"
  let ?J = "\<lambda>im. asm Op_Jnz 0 r 0 im" and ?M = "\<lambda>im. asm Op_Jmp 0 0 0 im"
  let ?code = "\<lambda>a b. ce @ ?J a # ?M b # xs @ [?M (jump_offset 0 t)]"
  have nfh: "\<not> failed h" using nfg by (simp add: h_def)
  have at: "here g1 = here h + k" "here (emits [?J 0] g1) = here h + (k + 1)" "here g2 = here h + (k + 2)"
      "here g3 = here h + t" "here g4 = here h + (t + 1)" "here g = here h + 0"
    using arg_cong [OF f(1), of here] arg_cong [OF xs(1), of here]
    by (simp_all add: g4_def g2_def k_def t_def here_def h_def)
  have "g3 = emits (ce @ ?J 0 # ?M 0 # xs) h"
    using xs(1) arg_cong [OF f(1), of "\<lambda>g. g\<lparr>next_reg := next_reg g3\<rparr>"] by (simp add: g2_def h_def)
  moreover have "jump_offset (here g) (here g3) = jump_offset 0 t" unfolding at by (rule jump_offset_shift)
  ultimately have g4: "g4 = emits (?code 0 0) h" unfolding g4_def by simp
  have p1: "patch_to (here g1) (here g2) g4 = emits (?code (jump_offset (k + 2) k) 0) h"
    unfolding at g4 using nfh f(5) by (subst patch_to_emits) (simp_all add: k_def list_update_append)
  have g'2: "g' = emits (?code (jump_offset (k + 2) k) (jump_offset (t + 1) (k + 1))) h"
    unfolding g' p1 unfolding at using nfh
    by (subst patch_to_emits) (simp_all add: k_def nth_append list_update_append)
  have n': "next_reg g' = next_reg g3" unfolding g'2 by (simp add: h_def)
  let ?c = "?code (jump_offset (k + 2) k) (jump_offset (t + 1) (k + 1))"
  have so: "scope_ok scope V (next_reg g)" using g by (simp add: gen_ok_def)
  have len: "length ?c = t + 1" by (simp add: t_def k_def)
  have "simulates (\<lambda>c \<sigma> out. \<exists>n. exec_stmt slots c n (SWhile e body) \<sigma> = Some out) ?c scope V scope1 V"
    unfolding simulates_def len
  proof (intro allI impI)
    fix P p c \<sigma> out
    assume a: "code_at P p ?c" "ready P c p" "matches scope V \<sigma> c"
      and "\<exists>n. exec_stmt slots (ctx c) n (SWhile e body) \<sigma> = Some out"
    then obtain n where n: "exec_stmt slots (ctx c) n (SWhile e body) \<sigma> = Some out" by blast
    have "reaches P (p + (t + 1)) scope V out c"
      by (rule while_runs [OF comp cov so _ k_def t_def a n]) (rule simx)
    thus "reaches P (p + (t + 1)) scope1 V out c" by (rule reaches_scope [OF xs(5)])
  qed
  hence "block_ok (\<lambda>c \<sigma> out. \<exists>n. exec_stmt slots c n (SWhile e body) \<sigma> = Some out) V V scope g scope1 g'"
    unfolding block_ok_def using xs f g'2 n'
    by (intro exI [of _ ?c]) (auto simp: gen_ok_def h_def g2_def)
  thus ?thesis unfolding s' by (simp add: stmt_ok_def)
qed

section \<open>Blocks\<close>

definition compiles_stmt :: "storage_map \<Rightarrow> stmt \<Rightarrow> string set \<Rightarrow> bool" where
  "compiles_stmt slots s V \<longleftrightarrow> (\<forall>scope g scope' g'. gen_ok slots scope V g \<longrightarrow>
     generate_stmt slots s scope g = (scope', g') \<longrightarrow> \<not> failed g' \<longrightarrow> stmt_ok slots s V scope g scope' g')"

lemma exec_stmts_Cons:
  assumes "exec_stmts slots c n (s # ss) \<sigma> = Some out"
  shows "(\<exists>\<sigma>1. exec_stmt slots c n s \<sigma> = Some (Done \<sigma>1) \<and> exec_stmts slots c n ss \<sigma>1 = Some out) \<or>
    exec_stmt slots c n s \<sigma> = Some Violated \<and> out = Violated"
proof (cases "exec_stmt slots c n s \<sigma>")
  case (Some y)
  thus ?thesis using assms by (cases y) simp_all
qed (use assms in simp)

lemma block_cons:
  assumes s: "compiles_stmt slots s V" and ss: "compiles_block slots ss (V \<union> binds s)"
  shows "compiles_block slots (s # ss) V"
  unfolding compiles_block_def
proof (intro allI impI)
  fix scope g scope' g'
  assume g: "gen_ok slots scope V g" and gen: "generate_stmts slots (s # ss) scope g = (scope', g')" and nf: "\<not> failed g'"
  obtain scope1 g1 where g1: "generate_stmt slots s scope g = (scope1, g1)" by (cases "generate_stmt slots s scope g")
  hence g2: "generate_stmts slots ss scope1 g1 = (scope', g')" using gen by simp
  hence "\<not> failed g1" using nf by auto
  hence 1: "block_ok (\<lambda>c \<sigma> out. \<exists>n. exec_stmt slots c n s \<sigma> = Some out) V (V \<union> binds s) scope g scope1 g1"
    using s g g1 unfolding compiles_stmt_def stmt_ok_def by blast
  note ss [unfolded compiles_block_def, rule_format, OF block_ok_gen_ok [OF 1 g] g2 nf]
  then obtain V' where V': "V \<union> binds s \<subseteq> V'"
    and 2: "block_ok (\<lambda>c \<sigma> out. \<exists>n. exec_stmts slots c n ss \<sigma> = Some out) (V \<union> binds s) V' scope1 g1 scope' g'"
    by (elim exE conjE)
  have "block_ok (\<lambda>c \<sigma> out. \<exists>n. exec_stmts slots c n (s # ss) \<sigma> = Some out) V V' scope g scope' g'"
    by (rule block_seq [OF 1 2]) (blast, blast dest: exec_stmts_Cons)
  thus "\<exists>V'. V \<subseteq> V' \<and> block_ok (\<lambda>c \<sigma> out. \<exists>n. exec_stmts slots c n (s # ss) \<sigma> = Some out) V V' scope g scope' g'"
    using V' by blast
qed

lemmas simple_stmts_ok = let_ok assign_ok constrain_ok storage_write_ok mapping_write_ok emit_ok expr_stmt_ok

lemma compiles_if:
  assumes "reads V e" "compiles_block slots th V" "\<And>eb. el = Some eb \<Longrightarrow> compiles_block slots eb V"
  shows "compiles_stmt slots (SIf e th el) V"
  unfolding compiles_stmt_def using if_ok [OF assms(1) _ assms(2,3)] by blast

lemma compiles_while:
  assumes "reads V e" "compiles_block slots body V"
  shows "compiles_stmt slots (SWhile e body) V"
  unfolding compiles_stmt_def using while_ok [OF assms(1) _ assms(2)] by blast

lemma compiles_simple:
  assumes "covered V s" "\<And>e th el. s \<noteq> SIf e th el" "\<And>e body. s \<noteq> SWhile e body"
  shows "compiles_stmt slots s V"
  unfolding compiles_stmt_def using assms
  by (cases s) (blast intro: simple_stmts_ok | simp)+

text \<open>Generated code of covered statements and blocks simulates their source execution.\<close>

theorem covered_compiles:
  "covered V s \<Longrightarrow> compiles_stmt slots s V"
  "covered_block V ss \<Longrightarrow> compiles_block slots ss V"
proof (induction V s and V ss rule: covered_covered_block.induct)
  case (6 V e th el)
  thus ?case by (intro compiles_if) (auto split: option.splits)
next
  case (7 V e body)
  thus ?case by (intro compiles_while) auto
next
  case (11 V)
  show ?case by (auto simp: compiles_block_def intro!: exI [of _ V] block_nil)
next
  case (12 V s ss)
  thus ?case by (intro block_cons) auto
qed (auto intro!: compiles_simple)

end
