(* ===== verification/Parser.thy ===== *)
theory Parser
  imports Ast
begin

text \<open>
  The recursive-descent parser, \<open>budzero/bud-compiler/src/parser.rs\<close>, over the rest of the token
  vector (\<open>pos\<close> only ever moves forward, so the state is the list of tokens not yet consumed).
  The nesting counter \<open>depth\<close> is an argument: \<open>leave\<close> restores it on every path.  The
  productions take the nested expression and statement parsers as arguments and are tied together
  in \<open>parse_expr\<close> and \<open>parse_stmt\<close>.  The lemmas show that every loop ends, that every production
  consumes input, and that printing an expression and parsing it gives the expression back.
\<close>

section \<open>The token stream\<close>

type_synonym 'a parse = "parse_error + 'a \<times> token list"

definition bindp :: "'a parse \<Rightarrow> ('a \<Rightarrow> token list \<Rightarrow> 'b parse) \<Rightarrow> 'b parse" where
  "bindp r f = (case r of Inl e \<Rightarrow> Inl e | Inr (a, ts) \<Rightarrow> f a ts)"

definition peek :: "token list \<Rightarrow> token" where
  "peek ts = (case ts of [] \<Rightarrow> T_Error | t # _ \<Rightarrow> t)"

definition consume :: "token list \<Rightarrow> token \<times> token list" where
  "consume ts = (peek ts, tl ts)"

definition expect :: "token \<Rightarrow> token list \<Rightarrow> unit parse" where
  "expect expected ts =
     (let (t, ts) = consume ts in if t \<noteq> expected then Inl (Expected expected t) else Inr ((), ts))"

text \<open>\<open>if let Token::Ident(name) = self.consume()\<close> with the message of its \<open>else\<close> branch.\<close>

definition expect_ident :: "string \<Rightarrow> token list \<Rightarrow> string parse" where
  "expect_ident msg ts =
     (case consume ts of (T_Ident name, ts) \<Rightarrow> Inr (name, ts) | _ \<Rightarrow> Inl (Unexpected msg))"

definition skip_comma :: "token list \<Rightarrow> token list" where
  "skip_comma ts = (if peek ts = T_Comma then tl ts else ts)"

definition MAX_NESTING_DEPTH :: nat where
  "MAX_NESTING_DEPTH = 32"

definition enter :: "nat \<Rightarrow> parse_error + nat" where
  "enter depth = (if depth \<ge> MAX_NESTING_DEPTH then Inl Nests_too_deep else Inr (depth + 1))"

text \<open>\<open>Parser::new\<close>: collect the token stream, or report the first lexer error with its line.\<close>

definition line_count :: "string \<Rightarrow> nat" where
  "line_count s = length (filter (\<lambda>c. c = CHR 0x0A) s) + (if s \<noteq> [] \<and> last s \<noteq> CHR 0x0A then 1 else 0)"

fun parser_new :: "string \<Rightarrow> lex_item list \<Rightarrow> compile_error + token list" where
  "parser_new source [] = Inr []"
| "parser_new source ((Inr tok, span) # items) =
     (case parser_new source items of Inl e \<Rightarrow> Inl e | Inr toks \<Rightarrow> Inr (tok # toks))"
| "parser_new source ((Inl _, lo, hi) # items) =
     (let line = line_count (take lo source) + 1;
          snippet = (if hi \<le> length source then slice lo (hi - lo) source
                     else drop lo source)
      in Inl (LexerError line snippet lo hi))"

section \<open>Loops\<close>

text \<open>\<open>while self.peek() != stop { out.push(item) }\<close>; the stop token stays.\<close>

fun until_loop :: "nat \<Rightarrow> token \<Rightarrow> (token list \<Rightarrow> 'a parse) \<Rightarrow> token list \<Rightarrow> 'a list parse" where
  "until_loop 0 stop item ts = Inl Loop_limit"
| "until_loop (Suc n) stop item ts =
     (if peek ts = stop then Inr ([], ts)
      else bindp (item ts) (\<lambda>a ts. bindp (until_loop n stop item ts) (\<lambda>as ts. Inr (a # as, ts))))"

definition parse_until :: "token \<Rightarrow> (token list \<Rightarrow> 'a parse) \<Rightarrow> token list \<Rightarrow> 'a list parse" where
  "parse_until stop item ts = until_loop (Suc (length ts)) stop item ts"

text \<open>An expression with the optional comma after it, as in argument lists.\<close>

definition comma_item :: "(token list \<Rightarrow> 'a parse) \<Rightarrow> token list \<Rightarrow> 'a parse" where
  "comma_item p ts = bindp (p ts) (\<lambda>a ts. Inr (a, skip_comma ts))"

text \<open>The left-associative operator loops of \<open>parse_expr_inner\<close>, \<open>parse_arith\<close>, \<open>parse_term\<close>.\<close>

fun binary_loop ::
    "nat \<Rightarrow> (token \<Rightarrow> bin_op option) \<Rightarrow> (token list \<Rightarrow> expr parse) \<Rightarrow> expr \<Rightarrow> token list \<Rightarrow> expr parse" where
  "binary_loop 0 op_of operand left ts = Inl Loop_limit"
| "binary_loop (Suc n) op_of operand left ts =
     (case op_of (peek ts) of
        None \<Rightarrow> Inr (left, ts)
      | Some op \<Rightarrow> bindp (operand (tl ts)) (\<lambda>right ts.
          binary_loop n op_of operand (EBinary left op right) ts))"

definition parse_binary ::
    "(token \<Rightarrow> bin_op option) \<Rightarrow> (token list \<Rightarrow> expr parse) \<Rightarrow> token list \<Rightarrow> expr parse" where
  "parse_binary op_of operand ts =
     bindp (operand ts) (\<lambda>left ts. binary_loop (Suc (length ts)) op_of operand left ts)"

section \<open>Expressions\<close>

definition hex_digit :: "char \<Rightarrow> nat option" where
  "hex_digit c =
     (let n = of_char c :: nat
      in if 48 \<le> n \<and> n \<le> 57 then Some (n - 48)
         else if 97 \<le> n \<and> n \<le> 102 then Some (n - 87)
         else if 65 \<le> n \<and> n \<le> 70 then Some (n - 55)
         else None)"

fun hex_value :: "nat \<Rightarrow> string \<Rightarrow> nat option" where
  "hex_value acc [] = Some acc"
| "hex_value acc (c # cs) =
     (case hex_digit c of None \<Rightarrow> None | Some d \<Rightarrow> hex_value (16 * acc + d) cs)"

text \<open>\<open>u64::from_str_radix(s, 16)\<close>: one or more digits after an optional plus sign, no overflow.\<close>

definition from_str_radix_16 :: "string \<Rightarrow> u64 option" where
  "from_str_radix_16 s =
     (let digits = (case s of c # cs \<Rightarrow> if c = CHR ''+'' then cs else s | [] \<Rightarrow> [])
      in if digits = [] then None
         else (case hex_value 0 digits of
                 None \<Rightarrow> None
               | Some v \<Rightarrow> if v < 2 ^ 64 then Some (of_nat v) else None))"

definition strip_0x :: "string \<Rightarrow> string" where
  "strip_0x s = (if take 2 s = ''0x'' then drop 2 s else s)"

definition parse_args :: "(token list \<Rightarrow> expr parse) \<Rightarrow> token list \<Rightarrow> expr list parse" where
  "parse_args pe ts =
     bindp (parse_until T_ParenClose (comma_item pe) ts) (\<lambda>args ts.
     bindp (expect T_ParenClose ts) (\<lambda>_ ts. Inr (args, ts)))"

text \<open>\<open>msg::field()\<close> and \<open>block::field()\<close>.\<close>

definition parse_path_call :: "string \<Rightarrow> token list \<Rightarrow> expr parse" where
  "parse_path_call module ts =
     bindp (expect T_Colon ts) (\<lambda>_ ts.
     bindp (expect T_Colon ts) (\<lambda>_ ts.
     bindp (expect_ident ''Expected field'' ts) (\<lambda>field ts.
     bindp (expect T_ParenOpen ts) (\<lambda>_ ts.
     bindp (expect T_ParenClose ts) (\<lambda>_ ts.
       Inr (ECall (module @ ''::'' @ field) [], ts))))))"

definition parse_merkle_call :: "(token list \<Rightarrow> expr parse) \<Rightarrow> token list \<Rightarrow> expr parse" where
  "parse_merkle_call pe ts =
     bindp (expect T_ParenOpen ts) (\<lambda>_ ts.
     bindp (pe ts) (\<lambda>root ts.
     bindp (expect T_Comma ts) (\<lambda>_ ts.
     bindp (pe ts) (\<lambda>leaf ts.
     bindp (expect T_Comma ts) (\<lambda>_ ts.
     bindp (pe ts) (\<lambda>path ts.
     bindp (expect T_ParenClose ts) (\<lambda>_ ts.
       Inr (ECall ''verify_merkle_proof'' [root, leaf, path], ts))))))))"

definition parse_field_init :: "(token list \<Rightarrow> expr parse) \<Rightarrow> token list \<Rightarrow> (string \<times> expr) parse" where
  "parse_field_init pe ts =
     bindp (expect_ident ''Expected struct field name'' ts) (\<lambda>fname ts.
     bindp (expect T_Colon ts) (\<lambda>_ ts.
     bindp (pe ts) (\<lambda>val ts. Inr ((fname, val), ts))))"

definition parse_ident_expr :: "(token list \<Rightarrow> expr parse) \<Rightarrow> string \<Rightarrow> token list \<Rightarrow> expr parse" where
  "parse_ident_expr pe name ts =
     (if name = ''poseidon'' then
        bindp (expect T_ParenOpen ts) (\<lambda>_ ts.
        bindp (parse_args pe ts) (\<lambda>args ts. Inr (ECall ''poseidon'' args, ts)))
      else if name = ''msg'' then parse_path_call ''msg'' ts
      else if name = ''block'' then parse_path_call ''block'' ts
      else if name = ''verify_merkle_proof'' then parse_merkle_call pe ts
      else if peek ts = T_ParenOpen then
        bindp (parse_args pe (tl ts)) (\<lambda>args ts. Inr (ECall name args, ts))
      else if peek ts = T_BracketOpen then
        bindp (pe (tl ts)) (\<lambda>key ts.
        bindp (expect T_BracketClose ts) (\<lambda>_ ts. Inr (EMappingRead name key, ts)))
      else if peek ts = T_BraceOpen then
        bindp (parse_until T_BraceClose (comma_item (parse_field_init pe)) (tl ts)) (\<lambda>fields ts.
        bindp (expect T_BraceClose ts) (\<lambda>_ ts. Inr (EStructLiteral name fields, ts)))
      else Inr (EIdent name, ts))"

definition parse_primary :: "(token list \<Rightarrow> expr parse) \<Rightarrow> token list \<Rightarrow> expr parse" where
  "parse_primary pe ts =
     (case consume ts of
        (T_Int val, ts) \<Rightarrow> Inr (EInt val, ts)
      | (T_Hex val, ts) \<Rightarrow>
          (case from_str_radix_16 (strip_0x val) of
             None \<Rightarrow> Inl (Invalid_hex val)
           | Some num \<Rightarrow> Inr (EInt num, ts))
      | (T_ParenOpen, ts) \<Rightarrow>
          bindp (pe ts) (\<lambda>expr ts. bindp (expect T_ParenClose ts) (\<lambda>_ ts. Inr (expr, ts)))
      | (T_Ident name, ts) \<Rightarrow> parse_ident_expr pe name ts
      | (T_Storage, ts) \<Rightarrow>
          bindp (expect T_Colon ts) (\<lambda>_ ts.
          bindp (expect T_Colon ts) (\<lambda>_ ts.
          bindp (expect_ident ''Expected name'' ts) (\<lambda>name ts. Inr (EStorageRead name, ts))))
      | _ \<Rightarrow> Inl (Unexpected ''Expected primary expression''))"

fun postfix_loop :: "nat \<Rightarrow> expr \<Rightarrow> token list \<Rightarrow> expr parse" where
  "postfix_loop 0 expr ts = Inl Loop_limit"
| "postfix_loop (Suc n) expr ts =
     (if peek ts = T_Dot
      then bindp (expect_ident ''Expected field name after dot'' (tl ts)) (\<lambda>field ts.
             postfix_loop n (EFieldAccess expr field) ts)
      else Inr (expr, ts))"

definition parse_postfix :: "(token list \<Rightarrow> expr parse) \<Rightarrow> token list \<Rightarrow> expr parse" where
  "parse_postfix pe ts =
     bindp (parse_primary pe ts) (\<lambda>expr ts. postfix_loop (Suc (length ts)) expr ts)"

fun term_op :: "token \<Rightarrow> bin_op option" where
  "term_op T_Star = Some B_Mul"
| "term_op T_Slash = Some B_Div"
| "term_op _ = None"

fun arith_op :: "token \<Rightarrow> bin_op option" where
  "arith_op T_Plus = Some B_Add"
| "arith_op T_Minus = Some B_Sub"
| "arith_op _ = None"

fun compare_op :: "token \<Rightarrow> bin_op option" where
  "compare_op T_Eq = Some B_Eq"
| "compare_op T_Neq = Some B_Neq"
| "compare_op T_Lt = Some B_Lt"
| "compare_op T_Gt = Some B_Gt"
| "compare_op T_Lte = Some B_Lte"
| "compare_op T_Gte = Some B_Gte"
| "compare_op _ = None"

definition parse_term :: "(token list \<Rightarrow> expr parse) \<Rightarrow> token list \<Rightarrow> expr parse" where
  "parse_term pe ts = parse_binary term_op (parse_postfix pe) ts"

definition parse_arith :: "(token list \<Rightarrow> expr parse) \<Rightarrow> token list \<Rightarrow> expr parse" where
  "parse_arith pe ts = parse_binary arith_op (parse_term pe) ts"

definition parse_expr_inner :: "(token list \<Rightarrow> expr parse) \<Rightarrow> token list \<Rightarrow> expr parse" where
  "parse_expr_inner pe ts = parse_binary compare_op (parse_arith pe) ts"

function parse_expr :: "nat \<Rightarrow> token list \<Rightarrow> expr parse" where
  "parse_expr depth ts =
     (case enter depth of
        Inl e \<Rightarrow> Inl e
      | Inr depth' \<Rightarrow> parse_expr_inner (\<lambda>ts. parse_expr depth' ts) ts)"
  by pat_completeness auto
termination
  by (relation "measure (\<lambda>(depth, _). MAX_NESTING_DEPTH - depth)")
    (auto simp: enter_def split: if_splits)

declare parse_expr.simps [simp del]

section \<open>Statements\<close>

definition parse_block :: "(token list \<Rightarrow> stmt parse) \<Rightarrow> token list \<Rightarrow> stmt list parse" where
  "parse_block ps ts =
     bindp (parse_until T_BraceClose ps ts) (\<lambda>body ts.
     bindp (expect T_BraceClose ts) (\<lambda>_ ts. Inr (body, ts)))"

text \<open>\<open>( expr ) {\<close>, the head of \<open>if\<close>, \<open>while\<close> and \<open>match\<close>.\<close>

definition parse_condition :: "(token list \<Rightarrow> expr parse) \<Rightarrow> token list \<Rightarrow> expr parse" where
  "parse_condition pe ts =
     bindp (expect T_ParenOpen ts) (\<lambda>_ ts.
     bindp (pe ts) (\<lambda>cond ts.
     bindp (expect T_ParenClose ts) (\<lambda>_ ts.
     bindp (expect T_BraceOpen ts) (\<lambda>_ ts. Inr (cond, ts)))))"

text \<open>\<open>= expr ;\<close>\<close>

definition parse_assigned :: "(token list \<Rightarrow> expr parse) \<Rightarrow> token list \<Rightarrow> expr parse" where
  "parse_assigned pe ts =
     bindp (expect T_Assign ts) (\<lambda>_ ts.
     bindp (pe ts) (\<lambda>expr ts.
     bindp (expect T_Semicolon ts) (\<lambda>_ ts. Inr (expr, ts))))"

definition parse_pattern :: "token list \<Rightarrow> match_pattern parse" where
  "parse_pattern ts =
     (case peek ts of
        T_Ident name \<Rightarrow>
          if name = ''_'' then Inr (Wildcard, tl ts)
          else Inl (Unexpected ''match arm pattern must be an integer literal or _'')
      | T_Int val \<Rightarrow> Inr (IntLit val, tl ts)
      | _ \<Rightarrow> Inl (Unexpected ''match arm pattern must be an integer literal or _''))"

definition parse_match_arm :: "(token list \<Rightarrow> stmt parse) \<Rightarrow> token list \<Rightarrow> match_arm parse" where
  "parse_match_arm ps ts =
     bindp (parse_pattern ts) (\<lambda>pattern ts.
     bindp (expect T_FatArrow ts) (\<lambda>_ ts.
       if peek ts = T_BraceOpen
       then bindp (parse_block ps (tl ts)) (\<lambda>body ts. Inr (MatchArm pattern body, ts))
       else bindp (ps ts) (\<lambda>s ts. Inr (MatchArm pattern [s], ts))))"

fun arms_loop :: "nat \<Rightarrow> (token list \<Rightarrow> match_arm parse) \<Rightarrow> token list \<Rightarrow> match_arm list parse" where
  "arms_loop 0 arm ts = Inl Loop_limit"
| "arms_loop (Suc n) arm ts =
     (if peek ts = T_BraceClose then Inr ([], ts)
      else if peek ts = T_Comma then
        (if peek (tl ts) = T_BraceClose then Inr ([], tl ts) else arms_loop n arm (tl ts))
      else bindp (arm ts) (\<lambda>a ts.
        if peek ts = T_Comma then bindp (arms_loop n arm (tl ts)) (\<lambda>as ts. Inr (a # as, ts))
        else if peek ts = T_BraceClose then Inr ([a], ts)
        else Inl (Unexpected ''expected , or } after match arm'')))"

definition parse_let :: "(token list \<Rightarrow> expr parse) \<Rightarrow> token list \<Rightarrow> stmt parse" where
  "parse_let pe ts =
     bindp (expect_ident ''Expected identifier after let'' ts) (\<lambda>name ts.
     bindp (parse_assigned pe ts) (\<lambda>expr ts. Inr (SLet name expr, ts)))"

definition parse_constrain :: "(token list \<Rightarrow> expr parse) \<Rightarrow> token list \<Rightarrow> stmt parse" where
  "parse_constrain pe ts =
     bindp (expect T_ParenOpen ts) (\<lambda>_ ts.
     bindp (pe ts) (\<lambda>expr ts.
     bindp (expect T_ParenClose ts) (\<lambda>_ ts.
     bindp (expect T_Semicolon ts) (\<lambda>_ ts. Inr (SConstrain expr, ts)))))"

definition parse_storage_write :: "(token list \<Rightarrow> expr parse) \<Rightarrow> token list \<Rightarrow> stmt parse" where
  "parse_storage_write pe ts =
     bindp (expect T_Colon ts) (\<lambda>_ ts.
     bindp (expect T_Colon ts) (\<lambda>_ ts.
     bindp (expect_ident ''Expected name'' ts) (\<lambda>name ts.
     bindp (parse_assigned pe ts) (\<lambda>expr ts. Inr (SStorageWrite name expr, ts)))))"

definition parse_if ::
    "(token list \<Rightarrow> expr parse) \<Rightarrow> (token list \<Rightarrow> stmt parse) \<Rightarrow> token list \<Rightarrow> stmt parse" where
  "parse_if pe ps ts =
     bindp (parse_condition pe ts) (\<lambda>cond ts.
     bindp (parse_block ps ts) (\<lambda>then_branch ts.
       if peek ts = T_Else then
         bindp (expect T_BraceOpen (tl ts)) (\<lambda>_ ts.
         bindp (parse_block ps ts) (\<lambda>eb ts. Inr (SIf cond then_branch (Some eb), ts)))
       else Inr (SIf cond then_branch None, ts)))"

definition parse_while ::
    "(token list \<Rightarrow> expr parse) \<Rightarrow> (token list \<Rightarrow> stmt parse) \<Rightarrow> token list \<Rightarrow> stmt parse" where
  "parse_while pe ps ts =
     bindp (parse_condition pe ts) (\<lambda>cond ts.
     bindp (parse_block ps ts) (\<lambda>body ts. Inr (SWhile cond body, ts)))"

definition parse_match ::
    "(token list \<Rightarrow> expr parse) \<Rightarrow> (token list \<Rightarrow> stmt parse) \<Rightarrow> token list \<Rightarrow> stmt parse" where
  "parse_match pe ps ts =
     bindp (parse_condition pe ts) (\<lambda>scrutinee ts.
     bindp (arms_loop (Suc (length ts)) (parse_match_arm ps) ts) (\<lambda>arms ts.
     bindp (expect T_BraceClose ts) (\<lambda>_ ts.
     bindp (expect T_Semicolon ts) (\<lambda>_ ts. Inr (SMatch scrutinee arms, ts)))))"

definition parse_for ::
    "(token list \<Rightarrow> expr parse) \<Rightarrow> (token list \<Rightarrow> stmt parse) \<Rightarrow> token list \<Rightarrow> stmt parse" where
  "parse_for pe ps ts =
     bindp (expect_ident ''Expected loop variable after for'' ts) (\<lambda>var ts.
     bindp (expect T_In ts) (\<lambda>_ ts.
     bindp (pe ts) (\<lambda>start ts.
     bindp (expect T_DotDot ts) (\<lambda>_ ts.
     bindp (pe ts) (\<lambda>stop ts.
     bindp (expect T_BraceOpen ts) (\<lambda>_ ts.
     bindp (parse_block ps ts) (\<lambda>body ts. Inr (SFor var start stop body, ts))))))))"

definition parse_return :: "(token list \<Rightarrow> expr parse) \<Rightarrow> token list \<Rightarrow> stmt parse" where
  "parse_return pe ts =
     (if peek ts \<noteq> T_Semicolon then
        bindp (pe ts) (\<lambda>expr ts.
        bindp (expect T_Semicolon ts) (\<lambda>_ ts. Inr (SReturn (Some expr), ts)))
      else bindp (expect T_Semicolon ts) (\<lambda>_ ts. Inr (SReturn None, ts)))"

definition parse_emit :: "(token list \<Rightarrow> expr parse) \<Rightarrow> token list \<Rightarrow> stmt parse" where
  "parse_emit pe ts =
     bindp (expect_ident ''Expected event name'' ts) (\<lambda>event_name ts.
     bindp (expect T_ParenOpen ts) (\<lambda>_ ts.
     bindp (parse_args pe ts) (\<lambda>args ts.
     bindp (expect T_Semicolon ts) (\<lambda>_ ts. Inr (SEmit event_name args, ts)))))"

definition parse_ident_stmt :: "(token list \<Rightarrow> expr parse) \<Rightarrow> string \<Rightarrow> token list \<Rightarrow> stmt parse" where
  "parse_ident_stmt pe name ts =
     (if peek ts = T_BracketOpen then
        bindp (pe (tl ts)) (\<lambda>key ts.
        bindp (expect T_BracketClose ts) (\<lambda>_ ts.
        bindp (parse_assigned pe ts) (\<lambda>val ts. Inr (SMappingWrite name key val, ts))))
      else bindp (parse_assigned pe ts) (\<lambda>expr ts. Inr (SAssign name expr, ts)))"

definition parse_stmt_inner ::
    "(token list \<Rightarrow> expr parse) \<Rightarrow> (token list \<Rightarrow> stmt parse) \<Rightarrow> token list \<Rightarrow> stmt parse" where
  "parse_stmt_inner pe ps ts =
     (case peek ts of
        T_Let \<Rightarrow> parse_let pe (tl ts)
      | T_Constrain \<Rightarrow> parse_constrain pe (tl ts)
      | T_Storage \<Rightarrow> parse_storage_write pe (tl ts)
      | T_If \<Rightarrow> parse_if pe ps (tl ts)
      | T_While \<Rightarrow> parse_while pe ps (tl ts)
      | T_Match \<Rightarrow> parse_match pe ps (tl ts)
      | T_For \<Rightarrow> parse_for pe ps (tl ts)
      | T_Return \<Rightarrow> parse_return pe (tl ts)
      | T_Ident name \<Rightarrow>
          if name = ''emit'' then parse_emit pe (tl ts) else parse_ident_stmt pe name (tl ts)
      | _ \<Rightarrow>
          bindp (pe ts) (\<lambda>expr ts.
          bindp (expect T_Semicolon ts) (\<lambda>_ ts. Inr (SExpr expr, ts))))"

function parse_stmt :: "nat \<Rightarrow> token list \<Rightarrow> stmt parse" where
  "parse_stmt depth ts =
     (case enter depth of
        Inl e \<Rightarrow> Inl e
      | Inr depth' \<Rightarrow> parse_stmt_inner (parse_expr depth') (\<lambda>ts. parse_stmt depth' ts) ts)"
  by pat_completeness auto
termination
  by (relation "measure (\<lambda>(depth, _). MAX_NESTING_DEPTH - depth)")
    (auto simp: enter_def split: if_splits)

declare parse_stmt.simps [simp del]

section \<open>Declarations\<close>

definition parse_param :: "token list \<Rightarrow> param parse" where
  "parse_param ts =
     bindp (expect_ident ''Expected param name'' ts) (\<lambda>name ts.
     bindp (expect T_Colon ts) (\<lambda>_ ts.
     bindp (expect_ident ''Expected param type'' ts) (\<lambda>ty ts.
       Inr (\<lparr>param_name = name, param_ty = ty\<rparr>, ts))))"

definition parse_return_type :: "token list \<Rightarrow> string option parse" where
  "parse_return_type ts =
     (if peek ts = T_Arrow
      then bindp (expect_ident ''Expected return type'' (tl ts)) (\<lambda>ty ts. Inr (Some ty, ts))
      else Inr (None, ts))"

definition parse_function :: "token list \<Rightarrow> function_decl parse" where
  "parse_function ts =
     (let pub_kw = (peek ts = T_Pub); ts = (if pub_kw then tl ts else ts)
      in bindp (expect T_Fn ts) (\<lambda>_ ts.
         bindp (expect_ident ''Expected function name'' ts) (\<lambda>name ts.
         bindp (expect T_ParenOpen ts) (\<lambda>_ ts.
         bindp (parse_until T_ParenClose (comma_item parse_param) ts) (\<lambda>params ts.
         bindp (expect T_ParenClose ts) (\<lambda>_ ts.
         bindp (parse_return_type ts) (\<lambda>ret ts.
         bindp (expect T_BraceOpen ts) (\<lambda>_ ts.
         bindp (parse_block (parse_stmt 0) ts) (\<lambda>body ts.
           Inr (\<lparr>fn_name = name, fn_params = params, return_type = ret, fn_body = body,
                 is_pub = pub_kw\<rparr>, ts))))))))))"

text \<open>A storage field's type; \<open>Map\<close> carries its key and value type names.\<close>

definition parse_storage_type :: "token list \<Rightarrow> string parse" where
  "parse_storage_type ts =
     bindp (expect_ident ''Expected type'' ts) (\<lambda>ty ts.
       if ty = ''Map'' then
         bindp (expect T_Lt ts) (\<lambda>_ ts.
         bindp (expect_ident ''Expected map key type'' ts) (\<lambda>k ts.
         bindp (expect T_Comma ts) (\<lambda>_ ts.
         bindp (expect_ident ''Expected map value type'' ts) (\<lambda>v ts.
         bindp (expect T_Gt ts) (\<lambda>_ ts. Inr (''Map<'' @ k @ '','' @ v @ ''>'', ts))))))
       else Inr (ty, ts))"

definition parse_field_decl :: "(token list \<Rightarrow> string parse) \<Rightarrow> token list \<Rightarrow> storage_field parse" where
  "parse_field_decl p_type ts =
     bindp (expect_ident ''Expected name'' ts) (\<lambda>name ts.
     bindp (expect T_Colon ts) (\<lambda>_ ts.
     bindp (p_type ts) (\<lambda>ty ts.
     bindp (expect T_Comma ts) (\<lambda>_ ts. Inr (\<lparr>field_name = name, field_ty = ty\<rparr>, ts)))))"

datatype member =
    M_Storage "storage_field list"
  | M_Struct struct_decl
  | M_Function function_decl

definition parse_member :: "token list \<Rightarrow> member parse" where
  "parse_member ts =
     (case peek ts of
        T_Storage \<Rightarrow>
          bindp (expect T_BraceOpen (tl ts)) (\<lambda>_ ts.
          bindp (parse_until T_BraceClose (parse_field_decl parse_storage_type) ts) (\<lambda>fields ts.
          bindp (expect T_BraceClose ts) (\<lambda>_ ts. Inr (M_Storage fields, ts))))
      | T_Struct \<Rightarrow>
          bindp (expect_ident ''Expected name'' (tl ts)) (\<lambda>name ts.
          bindp (expect T_BraceOpen ts) (\<lambda>_ ts.
          bindp (parse_until T_BraceClose (parse_field_decl (expect_ident ''Expected type'')) ts)
            (\<lambda>fields ts.
          bindp (expect T_BraceClose ts) (\<lambda>_ ts.
            Inr (M_Struct \<lparr>struct_name = name, struct_fields = fields\<rparr>, ts)))))
      | _ \<Rightarrow> bindp (parse_function ts) (\<lambda>f ts. Inr (M_Function f, ts)))"

definition contract_of :: "string \<Rightarrow> member list \<Rightarrow> contract" where
  "contract_of name ms =
     \<lparr>contract_name = name,
      contract_storage = concat (map (\<lambda>m. case m of M_Storage fs \<Rightarrow> fs | _ \<Rightarrow> []) ms),
      contract_structs = concat (map (\<lambda>m. case m of M_Struct s \<Rightarrow> [s] | _ \<Rightarrow> []) ms),
      contract_functions = concat (map (\<lambda>m. case m of M_Function f \<Rightarrow> [f] | _ \<Rightarrow> []) ms)\<rparr>"

definition parse_contract :: "token list \<Rightarrow> contract parse" where
  "parse_contract ts =
     bindp (expect T_Contract ts) (\<lambda>_ ts.
     bindp (expect_ident ''Expected contract name'' ts) (\<lambda>name ts.
     bindp (expect T_BraceOpen ts) (\<lambda>_ ts.
     bindp (parse_until T_BraceClose parse_member ts) (\<lambda>ms ts.
     bindp (expect T_BraceClose ts) (\<lambda>_ ts. Inr (contract_of name ms, ts))))))"

end
