(* ===== verification/Sema.thy ===== *)
theory Sema
  imports Ast "HOL-Library.AList"
begin

text \<open>
  The semantic analyser, \<open>budzero/bud-compiler/src/sema.rs\<close>.  The functions return the errors they
  push, in order; \<open>analyze\<close> reports the first.  The hash maps of struct fields are association
  lists with distinct keys, since the analyser iterates over their keys.
\<close>

section \<open>Types\<close>

definition is_opaque_bytes32 :: "ty \<Rightarrow> bool" where
  "is_opaque_bytes32 t \<longleftrightarrow> t = Ty_Address \<or> t = Ty_Hash32"

definition is_struct_or_void :: "ty \<Rightarrow> bool" where
  "is_struct_or_void t \<longleftrightarrow> t = Ty_Void \<or> (\<exists>s. t = Ty_Struct s)"

lemma is_struct_or_void_code [code]:
  "is_struct_or_void t = (case t of Ty_Void \<Rightarrow> True | Ty_Struct _ \<Rightarrow> True | _ \<Rightarrow> False)"
  by (cases t) (simp_all add: is_struct_or_void_def)

definition RESERVED_TYPE_NAMES :: "(string \<times> string) list" where
  "RESERVED_TYPE_NAMES =
     [(''u8'', ''BudL has one integer type, `u64`, and it is a Goldilocks field element''),
      (''u16'', ''BudL has one integer type, `u64`, and it is a Goldilocks field element''),
      (''u32'', ''BudL has one integer type, `u64`; a narrower type would need range-check columns the AIR does not have''),
      (''u128'', ''BudL has one integer type, `u64`; a wider type would need multi-limb arithmetic the VM does not have''),
      (''i8'', ''BudL integers are unsigned field elements''),
      (''i16'', ''BudL integers are unsigned field elements''),
      (''i32'', ''BudL integers are unsigned field elements''),
      (''i64'', ''BudL integers are unsigned field elements''),
      (''usize'', ''BudL has one integer type, `u64`''),
      (''isize'', ''BudL has one integer type, `u64`''),
      (''String'', ''BudL has no string type''),
      (''str'', ''BudL has no string type''),
      (''Vec'', ''BudL has no dynamic collections; a proof has to bound its own length'')]"

text \<open>\<open>Type::from_str\<close>; the left summand is the name with the reason it is reserved.\<close>

definition from_str :: "string \<Rightarrow> (string \<times> string) + ty" where
  "from_str s =
     (if s = ''u64'' then Inr Ty_U64
      else if s = ''bool'' then Inr Ty_Bool
      else if s = ''field'' then Inr Ty_Field
      else if s = ''Address'' then Inr Ty_Address
      else if s = ''Hash32'' then Inr Ty_Hash32
      else (case map_of RESERVED_TYPE_NAMES s of
              Some why \<Rightarrow> Inl (s, why)
            | None \<Rightarrow> Inr (Ty_Struct s)))"

text \<open>\<open>Type::from_str(..).unwrap_or(Type::Unknown)\<close>\<close>

definition from_str_or_unknown :: "string \<Rightarrow> ty" where
  "from_str_or_unknown s = (case from_str s of Inr t \<Rightarrow> t | Inl _ \<Rightarrow> Ty_Unknown)"

section \<open>Analyser state\<close>

type_synonym type_env = "string \<rightharpoonup> ty"

record analyzer =
  structs :: "string \<rightharpoonup> (string \<times> ty) list"
  signatures :: "string \<rightharpoonup> ty list \<times> ty"
  current_func_ret :: ty

definition analyzer_new :: analyzer where
  "analyzer_new = \<lparr>structs = Map.empty, signatures = Map.empty, current_func_ret = Ty_Void\<rparr>"

section \<open>Expressions\<close>

definition arithmetic_or_ordering :: "bin_op \<Rightarrow> bool" where
  "arithmetic_or_ordering op \<longleftrightarrow> op \<noteq> B_Eq \<and> op \<noteq> B_Neq"

definition is_comparison :: "bin_op \<Rightarrow> bool" where
  "is_comparison op \<longleftrightarrow> op \<in> {B_Eq, B_Neq, B_Lt, B_Gt, B_Lte, B_Gte}"

text \<open>Both are known and differ.\<close>

definition mismatch :: "ty \<Rightarrow> ty \<Rightarrow> bool" where
  "mismatch a b \<longleftrightarrow> a \<noteq> b \<and> a \<noteq> Ty_Unknown \<and> b \<noteq> Ty_Unknown"

definition operand_errors :: "bin_op \<Rightarrow> ty \<Rightarrow> sema_error list" where
  "operand_errors op t =
     (if is_struct_or_void t then [Not_numeric op t] else []) @
     (if is_opaque_bytes32 t then [Opaque_operand op t] else [])"

definition binary_errors :: "bin_op \<Rightarrow> ty \<Rightarrow> ty \<Rightarrow> sema_error list" where
  "binary_errors op l_ty r_ty =
     (if mismatch l_ty r_ty then [Operand_mismatch] else []) @
     (if arithmetic_or_ordering op then operand_errors op l_ty @ operand_errors op r_ty else [])"

definition binary_type :: "bin_op \<Rightarrow> ty \<Rightarrow> ty" where
  "binary_type op l_ty = (if is_comparison op then Ty_Bool else l_ty)"

definition access_result :: "analyzer \<Rightarrow> ty \<Rightarrow> string \<Rightarrow> ty \<times> sema_error list" where
  "access_result st base_ty field =
     (case base_ty of
        Ty_Struct sname \<Rightarrow>
          (case structs st sname of
             None \<Rightarrow> (Ty_Unknown, [])
           | Some sfields \<Rightarrow>
               (case map_of sfields field of
                  Some fty \<Rightarrow> (fty, [])
                | None \<Rightarrow> (Ty_Unknown, [No_such_field sname field])))
      | Ty_Unknown \<Rightarrow> (Ty_Unknown, [])
      | _ \<Rightarrow> (Ty_Unknown, [Access_on_non_struct]))"

definition init_errors :: "(string \<times> ty) list \<Rightarrow> string \<Rightarrow> ty \<Rightarrow> sema_error list" where
  "init_errors sfields fname t =
     (case map_of sfields fname of
        Some expected \<Rightarrow> if t \<noteq> expected \<and> t \<noteq> Ty_Unknown then [Field_mismatch fname] else []
      | None \<Rightarrow> [Unknown_field fname])"

definition missing_errors :: "string \<Rightarrow> (string \<times> ty) list \<Rightarrow> string list \<Rightarrow> sema_error list" where
  "missing_errors name sfields provided =
     map (\<lambda>_. Missing_field name) (filter (\<lambda>k. k \<notin> set provided) (map fst sfields))"

fun repeated_errors :: "string \<Rightarrow> string set \<Rightarrow> string list \<Rightarrow> sema_error list" where
  "repeated_errors name seen [] = []"
| "repeated_errors name seen (f # fs) =
     (if f \<in> seen then Repeated_field name f # repeated_errors name seen fs
      else repeated_errors name (insert f seen) fs)"

definition argument_errors :: "string \<Rightarrow> ty list \<Rightarrow> ty list \<Rightarrow> sema_error list" where
  "argument_errors name params args =
     concat (map (\<lambda>(i, exp, act). if mismatch exp act then [Argument_mismatch i name] else [])
       (zip [0..<length params] (zip params args)))"

definition call_result :: "analyzer \<Rightarrow> string \<Rightarrow> ty list \<Rightarrow> ty \<times> sema_error list" where
  "call_result st name arg_types =
     (case signatures st name of
        None \<Rightarrow> (Ty_Unknown, [Undefined_function name])
      | Some (params, ret_ty) \<Rightarrow>
          (ret_ty,
           if length params \<noteq> length arg_types
           then [Wrong_arity name (length params) (length arg_types)]
           else argument_errors name params arg_types))"

fun analyze_expr :: "analyzer \<Rightarrow> type_env \<Rightarrow> expr \<Rightarrow> ty \<times> sema_error list" where
  "analyze_expr st env (EInt _) = (Ty_U64, [])"
| "analyze_expr st env (EIdent name) =
     (case env name of
        Some t \<Rightarrow> (t, [])
      | None \<Rightarrow> (Ty_Unknown, [Undefined_identifier name]))"
| "analyze_expr st env (EStorageRead _) = (Ty_U64, [])"
| "analyze_expr st env (EMappingRead _ key) = (Ty_U64, snd (analyze_expr st env key))"
| "analyze_expr st env (EFieldAccess base field) =
     (let (base_ty, errs) = analyze_expr st env base;
          (t, errs') = access_result st base_ty field
      in (t, errs @ errs'))"
| "analyze_expr st env (EStructLiteral name inits) =
     (case structs st name of
        None \<Rightarrow> (Ty_Unknown, [Undefined_struct name])
      | Some sfields \<Rightarrow>
          (Ty_Struct name,
           concat (map (\<lambda>(fname, val).
             let (t, errs) = analyze_expr st env val in errs @ init_errors sfields fname t) inits) @
           missing_errors name sfields (map fst inits) @
           repeated_errors name {} (map fst inits)))"
| "analyze_expr st env (ECall name args) =
     (let results = map (analyze_expr st env) args;
          (t, errs) = call_result st name (map fst results)
      in (t, concat (map snd results) @ errs))"
| "analyze_expr st env (EBinary left op right) =
     (let (l_ty, l_errs) = analyze_expr st env left;
          (r_ty, r_errs) = analyze_expr st env right
      in (binary_type op l_ty, l_errs @ r_errs @ binary_errors op l_ty r_ty))"

section \<open>Statements\<close>

definition check_condition_type :: "ty \<Rightarrow> string \<Rightarrow> sema_error list" where
  "check_condition_type t ctx = (if is_struct_or_void t then [Bad_condition ctx t] else [])"

definition check_struct_type :: "analyzer \<Rightarrow> ty \<Rightarrow> string list \<Rightarrow> sema_error list" where
  "check_struct_type st t ctx =
     (case t of
        Ty_Struct name \<Rightarrow> if structs st name = None then [Undefined_struct_type ctx name] else []
      | _ \<Rightarrow> [])"

fun analyze_stmt :: "analyzer \<Rightarrow> stmt \<Rightarrow> type_env \<Rightarrow> type_env \<times> sema_error list"
  and analyze_stmts :: "analyzer \<Rightarrow> stmt list \<Rightarrow> type_env \<Rightarrow> type_env \<times> sema_error list"
  and analyze_arms :: "analyzer \<Rightarrow> match_arm list \<Rightarrow> type_env \<Rightarrow> sema_error list" where
  "analyze_stmt st (SLet name expr) env =
     (let (t, errs) = analyze_expr st env expr in (env(name \<mapsto> t), errs))"
| "analyze_stmt st (SConstrain expr) env =
     (let (t, errs) = analyze_expr st env expr
      in (env, errs @ check_condition_type t ''constrain''))"
| "analyze_stmt st (SAssign name expr) env =
     (let (t, errs) = analyze_expr st env expr
      in (env,
          case env name of
            Some expected \<Rightarrow>
              errs @ (if mismatch t expected then [Assign_mismatch expected t] else [])
          | None \<Rightarrow> Undefined_variable name # errs))"
| "analyze_stmt st (SStorageWrite _ expr) env = (env, snd (analyze_expr st env expr))"
| "analyze_stmt st (SMappingWrite _ key val) env =
     (env, snd (analyze_expr st env key) @ snd (analyze_expr st env val))"
| "analyze_stmt st (SIf cond then_branch else_branch) env =
     (let (t, errs) = analyze_expr st env cond;
          (env, errs1) = analyze_stmts st then_branch env;
          (env, errs2) = (case else_branch of None \<Rightarrow> (env, []) | Some eb \<Rightarrow> analyze_stmts st eb env)
      in (env, errs @ check_condition_type t ''if'' @ errs1 @ errs2))"
| "analyze_stmt st (SWhile cond body) env =
     (let (t, errs) = analyze_expr st env cond;
          (env, errs1) = analyze_stmts st body env
      in (env, errs @ check_condition_type t ''while'' @ errs1))"
| "analyze_stmt st (SFor var start stop body) env =
     (let (_, errs1) = analyze_stmts st body (env(var \<mapsto> Ty_U64))
      in (env, snd (analyze_expr st env start) @ snd (analyze_expr st env stop) @ errs1))"
| "analyze_stmt st (SReturn expr) env =
     (let (t, errs) = (case expr of Some e \<Rightarrow> analyze_expr st env e | None \<Rightarrow> (Ty_Void, []));
          ret = current_func_ret st
      in (env, errs @ (if mismatch t ret then [Return_mismatch ret t] else [])))"
| "analyze_stmt st (SEmit _ args) env = (env, concat (map (\<lambda>a. snd (analyze_expr st env a)) args))"
| "analyze_stmt st (SMatch scrutinee arms) env =
     (let (t, errs) = analyze_expr st env scrutinee
      in (env,
          errs @ (if t \<noteq> Ty_U64 \<and> t \<noteq> Ty_Bool then [Bad_scrutinee t] else []) @
          analyze_arms st arms env))"
| "analyze_stmt st (SExpr expr) env = (env, snd (analyze_expr st env expr))"
| "analyze_stmts st [] env = (env, [])"
| "analyze_stmts st (s # ss) env =
     (let (env, errs) = analyze_stmt st s env;
          (env, errs') = analyze_stmts st ss env
      in (env, errs @ errs'))"
| "analyze_arms st [] env = []"
| "analyze_arms st (MatchArm _ body # arms) env =
     snd (analyze_stmts st body env) @ analyze_arms st arms env"

section \<open>Contracts\<close>

definition return_type_of :: "function_decl \<Rightarrow> ty" where
  "return_type_of func =
     (case return_type func of Some r \<Rightarrow> from_str_or_unknown r | None \<Rightarrow> Ty_Void)"

definition param_env :: "param list \<Rightarrow> type_env" where
  "param_env ps = fold (\<lambda>p env. env(param_name p \<mapsto> from_str_or_unknown (param_ty p))) ps Map.empty"

definition analyze_function :: "analyzer \<Rightarrow> function_decl \<Rightarrow> analyzer \<times> sema_error list" where
  "analyze_function st func =
     (let st = st\<lparr>current_func_ret := return_type_of func\<rparr>
      in (st, snd (analyze_stmts st (fn_body func) (param_env (fn_params func)))))"

fun register_fields :: "storage_field list \<Rightarrow> (string \<times> ty) list \<Rightarrow> sema_error + (string \<times> ty) list" where
  "register_fields [] sfields = Inr sfields"
| "register_fields (f # fs) sfields =
     (case from_str (field_ty f) of
        Inl (s, why) \<Rightarrow> Inl (Reserved_type [] s why)
      | Inr t \<Rightarrow> register_fields fs (AList.update (field_name f) t sfields))"

fun register_structs :: "struct_decl list \<Rightarrow> analyzer \<Rightarrow> sema_error + analyzer" where
  "register_structs [] st = Inr st"
| "register_structs (s # ss) st =
     (case register_fields (struct_fields s) [] of
        Inl e \<Rightarrow> Inl e
      | Inr sfields \<Rightarrow> register_structs ss (st\<lparr>structs := (structs st)(struct_name s \<mapsto> sfields)\<rparr>))"

text \<open>A declared type: the error of a reserved name, or the check that a named struct exists.\<close>

definition declared_type_errors :: "analyzer \<Rightarrow> string list \<Rightarrow> string \<Rightarrow> sema_error list" where
  "declared_type_errors st ctx ty_name =
     (case from_str ty_name of
        Inl (s, why) \<Rightarrow> [Reserved_type ctx s why]
      | Inr t \<Rightarrow> check_struct_type st t ctx)"

definition field_type_errors :: "analyzer \<Rightarrow> struct_decl list \<Rightarrow> sema_error list" where
  "field_type_errors st ss =
     concat (map (\<lambda>s. concat (map (\<lambda>f.
       declared_type_errors st [''field'', struct_name s, field_name f] (field_ty f))
         (struct_fields s))) ss)"

definition signature_errors :: "analyzer \<Rightarrow> function_decl \<Rightarrow> sema_error list" where
  "signature_errors st f =
     concat (map (\<lambda>p.
       declared_type_errors st [''parameter'', param_name p, fn_name f] (param_ty p)) (fn_params f)) @
     (case return_type f of
        Some r \<Rightarrow> declared_type_errors st [''return type'', fn_name f] r
      | None \<Rightarrow> [])"

definition register_function :: "function_decl \<Rightarrow> analyzer \<Rightarrow> analyzer" where
  "register_function f st =
     st\<lparr>signatures := (signatures st)(fn_name f \<mapsto>
         (map (\<lambda>p. from_str_or_unknown (param_ty p)) (fn_params f), return_type_of f))\<rparr>"

definition register_builtins :: "analyzer \<Rightarrow> analyzer" where
  "register_builtins st =
     st\<lparr>signatures := (signatures st)
        (''poseidon'' \<mapsto> ([Ty_U64, Ty_U64], Ty_U64),
         ''verify_merkle_proof'' \<mapsto> ([Ty_U64, Ty_U64, Ty_U64], Ty_U64),
         ''msg::sender'' \<mapsto> ([], Ty_U64),
         ''msg::nonce'' \<mapsto> ([], Ty_U64),
         ''block::number'' \<mapsto> ([], Ty_U64))\<rparr>"

fun analyze_functions :: "function_decl list \<Rightarrow> analyzer \<Rightarrow> analyzer \<times> sema_error list" where
  "analyze_functions [] st = (st, [])"
| "analyze_functions (f # fs) st =
     (let (st, errs) = analyze_function st f;
          (st, errs') = analyze_functions fs st
      in (st, errs @ errs'))"

definition analyze :: "contract \<Rightarrow> analyzer \<Rightarrow> sema_error + analyzer" where
  "analyze contract st =
     (case register_structs (contract_structs contract) st of
        Inl e \<Rightarrow> Inl e
      | Inr st \<Rightarrow>
          (let errors1 = field_type_errors st (contract_structs contract);
               errors2 = concat (map (signature_errors st) (contract_functions contract));
               st = fold register_function (contract_functions contract) st;
               st = register_builtins st;
               (st, errors3) = analyze_functions (contract_functions contract) st;
               errors = errors1 @ errors2 @ errors3
           in case errors of [] \<Rightarrow> Inr st | e # _ \<Rightarrow> Inl e))"

end
