(* ===== verification/Compile.thy ===== *)
theory Compile
  imports Parser Sema Codegen
begin

text \<open>
  \<open>compile\<close> of \<open>budzero/bud-compiler/src/lib.rs\<close>: parser, analyser and code generator in sequence.
  The token stream of the generated lexer and the iteration order of the layout map are parameters.
\<close>

definition compile ::
    "(string \<Rightarrow> lex_item list) \<Rightarrow> ((string \<rightharpoonup> string list) \<Rightarrow> string list list) \<Rightarrow>
     string \<Rightarrow> isa_profile \<Rightarrow> compile_error + u64 list" where
  "compile lexer map_values source p =
     (case parser_new source (lexer source) of
        Inl e \<Rightarrow> Inl e
      | Inr tokens \<Rightarrow>
          (case parse_contract tokens of
             Inl e \<Rightarrow> Inl (ParserError e)
           | Inr (contract, _) \<Rightarrow>
               (case analyze contract analyzer_new of
                  Inl e \<Rightarrow> Inl (SemanticError e)
                | Inr _ \<Rightarrow> generate map_values contract (new_with_profile p))))"

end
