(* ===== verification/Codegen_Main.thy ===== *)
theory Codegen_Main
  imports Codegen_Stmt Compile
begin

text \<open>
  Running a compiled contract.  A contract whose only function is \<open>main\<close>, without parameters and
  with a body of covered statements, compiles to a program that, started on a fresh machine, does what
  the body does: the same storage, events and storage writes, or a failed assertion where the body
  violates a constraint, with a gas need that does not depend on the limit.
\<close>

section \<open>The shape of the program\<close>

lemma storage_map_nonneg:
  assumes "length fs < 2 ^ 31"
  shows "nonneg_slots (storage_map_of fs)"
proof -
  have m1: "(of_nat i :: i32) \<noteq> - 1" if "i < 2 ^ 31" for i
  proof
    assume "(of_nat i :: i32) = - 1"
    hence "unat (of_nat i :: i32) = unat (- 1 :: i32)" by (rule arg_cong)
    thus False using that by (simp add: unsigned_of_nat take_bit_nat_eq_self unat_max_word)
  qed
  have "nonneg_slots (fold (\<lambda>(i, f) m. m(field_name f \<mapsto> of_nat i)) xs m)"
    if "nonneg_slots m" "\<forall>(i, f) \<in> set xs. i < 2 ^ 31" for xs :: "(nat \<times> storage_field) list" and m
    using that
  proof (induction xs arbitrary: m)
    case (Cons x xs)
    obtain i f where x: "x = (i, f)" by (cases x)
    have "nonneg_slots (m(field_name f \<mapsto> of_nat i))" using Cons.prems m1 by (auto simp: x nonneg_slots_def)
    thus ?case using Cons.IH Cons.prems(2) by (simp add: x del: fun_upd_apply)
  qed simp
  moreover have "\<forall>(i, f) \<in> set (zip [0..<length fs] fs). i < 2 ^ 31"
    using assms by (auto simp: set_zip)
  moreover have "nonneg_slots Map.empty" by (simp add: nonneg_slots_def)
  ultimately show ?thesis unfolding storage_map_of_def by blast
qed

definition prologue :: "instruction list" where
  "prologue = [asm Op_Load 31 0 0 HEAP_BASE, asm Op_Call 0 0 0 (jump_offset 3 1), asm Op_Halt 0 0 0 0]"

definition main_code :: "nat \<Rightarrow> instruction list \<Rightarrow> instruction list" where
  "main_code t code = [asm Op_Pop 1 0 0 0, asm Op_Push 0 1 0 0] @ code @
     [asm Op_Pop t 0 0 0, asm Op_Load (t + 1) 0 0 0, asm Op_Push 0 (t + 1) 0 0, asm Op_Push 0 t 0 0, asm Op_Ret 0 0 0 0]"

lemma failed_patches:
  assumes "failed g"
  shows "failed (fold (patch_call offsets) cs g)"
proof -
  have "failed g' \<Longrightarrow> failed (patch_call offsets c g')" for c g'
    by (auto simp: patch_call_def patch_to_def patch_jump_def replace_error_def failed_def split: prod.splits option.splits)
  thus ?thesis using assms by (induction cs arbitrary: g) simp_all
qed

lemma generate_Inr:
  assumes "generate map_values contract (new_with_profile prof) = Inr P" "contract_functions contract = [func]"
    "fn_name func = ''main''"
  defines "g \<equiv> generate_function contract func (emits
      [asm Op_Load 31 0 0 HEAP_BASE, asm Op_Call 0 0 0 0, asm Op_Halt 0 0 0 0]
      ((new_with_profile prof)\<lparr>struct_layouts := layouts_of (contract_structs contract),
      layout_values := map_values (layouts_of (contract_structs contract))\<rparr>))"
  shows "\<not> failed g" "unpatched_calls (patch_to 1 3 g) = [] \<Longrightarrow> P = instructions (patch_to 1 3 g)"
proof -
  let ?g = "(patch_to 1 3 g)\<lparr>unpatched_calls := []\<rparr>"
  let ?h = "fold (patch_call [''main'' \<mapsto> 3]) (unpatched_calls (patch_to 1 3 g)) ?g"
  have P: "gen_error ?h = None" "P = instructions ?h"
    using assms(1-3)
    by (auto simp: generate_def Let_def emit_emits here_def new_with_profile_def g_def numeral_3_eq_3 split: option.splits)
  show "P = instructions (patch_to 1 3 g)" if "unpatched_calls (patch_to 1 3 g) = []"
    using P(2) that by simp
  show "\<not> failed g"
  proof
    assume "failed g"
    hence "failed ?g" by (simp add: patch_to_def patch_jump_def)
    hence "failed ?h" by (rule failed_patches)
    thus False using P(1) by (simp add: failed_def)
  qed
qed

lemma generate_main:
  assumes gen: "generate map_values contract (new_with_profile prof) = Inr P"
    and main: "contract_functions contract = [func]" "fn_name func = ''main''" "fn_params func = []"
    and cov: "covered_block {} (fn_body func)" and slots: "nonneg_slots (storage_map_of (contract_storage contract))"
  obtains code t where "P = map encode (prologue @ main_code t code)" "0 < t" "t < 30" "list_all ok_inst code"
    "\<And>P p c \<sigma> n out. code_at P p code \<Longrightarrow> ready P c p \<Longrightarrow> matches Map.empty {} \<sigma> c \<Longrightarrow>
       exec_stmts (storage_map_of (contract_storage contract)) (ctx c) n (fn_body func) \<sigma> = Some out \<Longrightarrow>
       reaches P (p + length code) Map.empty {} out c"
proof -
  let ?slots = "storage_map_of (contract_storage contract)"
  let ?pre = "[asm Op_Load 31 0 0 HEAP_BASE, asm Op_Call 0 0 0 0, asm Op_Halt 0 0 0 0]"
  let ?pp = "[asm Op_Pop 1 0 0 0, asm Op_Push 0 1 0 0]"
  define g0 where "g0 = (new_with_profile prof)\<lparr>struct_layouts := layouts_of (contract_structs contract),
      layout_values := map_values (layouts_of (contract_structs contract))\<rparr>"
  have g0: "next_reg g0 = 1" "\<not> failed g0" "instructions g0 = []" "unpatched_calls g0 = []" "here g0 = 0"
    by (simp_all add: g0_def new_with_profile_def failed_def here_def)
  define h where "h = emits (?pre @ ?pp) (g0\<lparr>next_reg := Suc (Suc 0)\<rparr>)"
  obtain scope1 g1 where g1: "generate_stmts ?slots (fn_body func) Map.empty h = (scope1, g1)"
    by (cases "generate_stmts ?slots (fn_body func) Map.empty h")
  obtain t g2 where g2: "alloc_reg g1 = (t, g2)" by (cases "alloc_reg g1")
  obtain z g3 where g3: "alloc_reg g2 = (z, g3)" by (cases "alloc_reg g2")
  let ?post = "[asm Op_Pop t 0 0 0, asm Op_Load z 0 0 0, asm Op_Push 0 z 0 0, asm Op_Push 0 t 0 0, asm Op_Ret 0 0 0 0]"
  have a: "alloc_reg (g0\<lparr>next_reg := Suc 0\<rparr>) = (Suc 0, g0\<lparr>next_reg := Suc (Suc 0)\<rparr>)"
    by (simp add: alloc_reg_def)
  have fn: "generate_function contract func (emits ?pre g0) = emits ?post g3"
    using g0 g1 g2 g3 main(3)
    by (simp add: generate_function_def a emit_emits param_scope_def Let_def h_def emit_return_def emit_zero_def alloc_emits)
  note P = generate_Inr [OF gen main(1,2), folded g0_def, unfolded fn]
  have nf: "\<not> failed g3" using P(1) by simp
  note g3' = alloc_reg_ok [OF g3 nf] 
  hence "\<not> failed g2" by simp
  note g2' = alloc_reg_ok [OF g2 this]
  hence nf1: "\<not> failed g1" by simp
  have h: "gen_ok ?slots Map.empty {} h"
    using slots by (simp add: gen_ok_def scope_ok_def regs_in_def h_def)
  obtain code where code: "g1 = emits code (h\<lparr>next_reg := next_reg g1\<rparr>)" "list_all ok_inst code"
    "next_reg h \<le> next_reg g1"
    "\<And>P p c \<sigma> n out. code_at P p code \<Longrightarrow> ready P c p \<Longrightarrow> matches Map.empty {} \<sigma> c \<Longrightarrow>
       exec_stmts ?slots (ctx c) n (fn_body func) \<sigma> = Some out \<Longrightarrow> reaches P (p + length code) Map.empty {} out c"
    by (rule compiles_blockE [OF covered_compiles(2) [OF cov] h g1 nf1]) blast
  have t: "t = next_reg g1" "z = t + 1" "t < 30" "0 < t" using g2' g3' code(3) by (simp_all add: h_def)
  have "g3 = g1\<lparr>next_reg := t + 2\<rparr>" using g2' g3' by simp
  also have "\<dots> = emits code (h\<lparr>next_reg := t + 2\<rparr>)" using arg_cong [OF code(1), of "\<lambda>h. h\<lparr>next_reg := t + 2\<rparr>"] by simp
  finally have "emits ?post g3 = emits (?pre @ main_code t code) (g0\<lparr>next_reg := t + 2\<rparr>)"
    by (simp add: h_def main_code_def t(2))
  hence "patch_to 1 3 (emits ?post g3) = emits (prologue @ main_code t code) (g0\<lparr>next_reg := t + 2\<rparr>)"
    using patch_to_emits [of "g0\<lparr>next_reg := t + 2\<rparr>" 1 "?pre @ main_code t code" 3] g0
    by (simp add: here_def prologue_def)
  hence "P = map encode (prologue @ main_code t code)" using P(2) g0 by simp
  thus thesis using that [of t code] t code by blast
qed

section \<open>Running it\<close>

lemma code_at_drop:
  assumes "code_at P p xs" "k \<le> length xs"
  shows "code_at P (p + k) (drop k xs)"
proof -
  have "code_at P p (take k xs @ drop k xs)" using assms(1) by simp
  thus ?thesis unfolding code_at_append using assms(2) by (simp add: min_absorb2)
qed

lemma code_at_encoded: "list_all ok_inst xs \<Longrightarrow> code_at (map encode xs) 0 xs"
  by (simp add: code_at_def)

lemma code_at_take: "code_at P p xs \<Longrightarrow> code_at P p (take k xs)"
  using code_at_append [of P p "take k xs" "drop k xs"] by simp

definition keeps :: "vm \<Rightarrow> vm \<Rightarrow> bool" where
  "keeps c c' \<longleftrightarrow> storage c' = storage c \<and> events c' = events c \<and> state_writes c' = state_writes c \<and> ctx c' = ctx c"

lemma keeps_trans: "keeps c c' \<Longrightarrow> keeps c' c'' \<Longrightarrow> keeps c c''"
  by (simp add: keeps_def)

lemma matches_keeps: "keeps c c' \<Longrightarrow> matches Map.empty {} \<sigma> c \<Longrightarrow> matches Map.empty {} \<sigma> c'"
  by (simp add: keeps_def matches_def holds_def)

text \<open>Enter \<open>main\<close>: set the heap pointer, call, and save the return address on the stack.\<close>

lemma enter_main:
  assumes code: "code_at P 0 (prologue @ main_code t code)" and c: "ready P c 0" "stack c = []"
  obtains c' G where "goes P c c' G" "ready P c' 5" "keeps c c'" "stack c' = [2]"
proof -
  let ?load = "[asm Op_Load 31 0 0 HEAP_BASE]"
  have at: "code_at P 0 ?load" "code_at P 1 (asm Op_Call 0 0 0 (jump_offset 3 1) # asm Op_Halt 0 0 0 0 # main_code t code)"
      "code_at P 3 (asm Op_Pop 1 0 0 0 # asm Op_Push 0 1 0 0 # drop 2 (main_code t code))"
      "code_at P 4 (asm Op_Push 0 1 0 0 # drop 2 (main_code t code))"
    using code_at_take [OF code, of 1] code_at_drop [OF code, of 1] code_at_drop [OF code, of 3] code_at_drop [OF code, of 4]
    by (simp_all add: prologue_def main_code_def)
  have "list_all pure_inst ?load" by (simp add: pure_inst_def)
  then obtain c1 where c1: "goes P c c1 (code_gas ?load)" "ready P c1 1" "keeps c c1" "stack c1 = []"
    using goes_pure_code [OF c(1) at(1)] c(2) by (fastforce simp: keeps_def)
  have "3 \<le> length P" using at(3) by (simp add: code_at_Cons)
  then obtain c2 where c2: "goes P c1 c2 2" "ready P c2 3" "keeps c1 c2" "stack c2 = [] @ [2]"
    using goes_call [OF c1(2) at(2)] c1(4) by (fastforce simp: keeps_def)
  obtain c3 where c3: "goes P c2 c3 2" "ready P c3 4" "keeps c2 c3" "stack c3 = []" "registers c3 ! 1 = 2"
  proof -
    have "length (registers c2) = 32" using c2(2) by (simp add: ready_def)
    thus thesis using goes_pop [OF c2(2) at(3) _ _ c2(4)] that by (fastforce simp: keeps_def)
  qed
  obtain c4 where c4: "goes P c3 c4 2" "ready P c4 5" "keeps c3 c4" "stack c4 = [2]"
    using goes_push [OF c3(2) at(4)] c3(4,5) by (fastforce simp: keeps_def)
  have "goes P c c4 (code_gas ?load + 2 + 2 + 2)"
    by (rule goes_trans [OF goes_trans [OF goes_trans [OF c1(1) c2(1)] c3(1)] c4(1)])
  thus thesis using that c4 keeps_trans [OF c1(3) keeps_trans [OF c2(3) keeps_trans [OF c3(3) c4(3)]]] by blast
qed

text \<open>Leave it: push the result zero and the return address, return, and halt.\<close>

lemma leave_main:
  assumes code: "code_at P 0 (prologue @ main_code t code)" and t: "0 < t" "t < 30"
    and c: "ready P c (5 + length code)" "stack c = [2]"
  obtains c' G where "goes P c c' G" "halted c'" "keeps c c'"
proof -
  define p where "p = 5 + length code"
  let ?load = "[asm Op_Load (t + 1) 0 0 0]"
  let ?tail = "[asm Op_Push 0 (t + 1) 0 0, asm Op_Push 0 t 0 0, asm Op_Ret 0 0 0 0]"
  have post: "code_at P p (asm Op_Pop t 0 0 0 # ?load @ ?tail)"
    using code_at_drop [OF code_at_drop [OF code, of 5], of "length code"] by (simp add: prologue_def main_code_def p_def)
  have at: "code_at P (Suc p) ?load" "code_at P (p + 2) ?tail"
      "code_at P (p + 3) (tl ?tail)" "code_at P (p + 4) [asm Op_Ret 0 0 0 0]"
      "code_at P 2 (asm Op_Halt 0 0 0 0 # main_code t code)"
    using code_at_take [OF code_at_drop [OF post, of 1], of 1] code_at_drop [OF post, of 2] code_at_drop [OF post, of 3]
      code_at_drop [OF post, of 4] code_at_drop [OF code, of 2]
    by (simp_all add: prologue_def numeral_2_eq_2)
  have c': "ready P c p" "stack c = [] @ [2]" using c by (simp_all add: p_def)
  obtain c1 where c1: "goes P c c1 2" "ready P c1 (Suc p)" "keeps c c1" "stack c1 = []" "registers c1 ! t = 2"
  proof -
    have "length (registers c) = 32" using c'(1) by (simp add: ready_def)
    thus thesis using goes_pop [OF c'(1) post _ _ c'(2)] t that by (fastforce simp: keeps_def)
  qed
  have pure: "list_all pure_inst ?load" using t by (simp add: pure_inst_def)
  obtain c2 where c2: "goes P c1 c2 (code_gas ?load)" "ready P c2 (p + 2)" "keeps c1 c2" "stack c2 = []" "registers c2 ! t = 2"
    using goes_pure_code [OF c1(2) at(1) pure] c1(4,5) t
    by (fastforce simp: keeps_def exec_code_def exec_inst_def inst_value_def)
  obtain c3 where c3: "goes P c2 c3 2" "ready P c3 (p + 3)" "keeps c2 c3" "\<exists>v. stack c3 = [v]" "registers c3 ! t = 2"
    using goes_push [OF c2(2) at(2)] c2(4,5) t by (fastforce simp: keeps_def eval_nat_numeral)
  then obtain v where v: "stack c3 = [v]" by blast
  obtain c4 where c4: "goes P c3 c4 2" "ready P c4 (p + 4)" "keeps c3 c4" "stack c4 = [v] @ [of_nat 2]"
    using goes_push [OF c3(2) at(3) [simplified]] c3(5) v t by (fastforce simp: keeps_def eval_nat_numeral)
  have "2 \<le> length P" using at(5) by (simp add: code_at_Cons)
  then obtain c5 where c5: "goes P c4 c5 2" "ready P c5 2" "keeps c4 c5"
    using goes_ret [OF c4(2) at(4) c4(4)] by (fastforce simp: keeps_def)
  have c6: "goes P c5 (c5\<lparr>halted := True\<rparr>) 0" "keeps c5 (c5\<lparr>halted := True\<rparr>)"
    using goes_halt [OF c5(2) at(5)] by (simp_all add: keeps_def)
  note k = keeps_trans [OF c1(3) keeps_trans [OF c2(3) keeps_trans [OF c3(3) keeps_trans [OF c4(3) keeps_trans [OF c5(3) c6(2)]]]]]
  note g = goes_trans [OF c1(1) goes_trans [OF c2(1) goes_trans [OF c3(1) goes_trans [OF c4(1) goes_trans [OF c5(1) c6(1)]]]]]
  show thesis by (rule that [OF g _ k]) simp
qed

definition source_result :: "u64 list \<Rightarrow> vm \<Rightarrow> outcome \<Rightarrow> bool" where
  "source_result P vm out =
     (case out of
        Done \<sigma> \<Rightarrow> \<exists>vm'. run_loop P vm = Some (None, vm') \<and> storage vm' = s_storage \<sigma> \<and> events vm' = s_events \<sigma> \<and>
          state_writes vm' = s_writes \<sigma>
      | Violated \<Rightarrow> \<exists>vm'. run_loop P vm = Some (Some AssertionFailed, vm'))"

definition start_vm :: "usize \<Rightarrow> bool \<Rightarrow> vm_context \<Rightarrow> (i32 \<rightharpoonup> u64) \<Rightarrow> u64 \<Rightarrow> vm" where
  "start_vm memory_size mainnet c slots limit =
     (with_mainnet_mode memory_size limit mainnet)\<lparr>ctx := c, storage := slots\<rparr>"

definition start_state :: "(i32 \<rightharpoonup> u64) \<Rightarrow> src_state" where
  "start_state slots = \<lparr>vars = (\<lambda>_. 0), s_storage = slots, s_events = [], s_writes = []\<rparr>"

text \<open>Needs exactly the gas \<open>G\<close> for that result.\<close>

definition needs_gas :: "u64 list \<Rightarrow> (u64 \<Rightarrow> vm) \<Rightarrow> nat \<Rightarrow> outcome \<Rightarrow> bool" where
  "needs_gas P machine G out \<longleftrightarrow> (\<forall>limit.
     (G \<le> unat limit \<longrightarrow> source_result P (machine limit) out) \<and>
     (unat limit < G \<longrightarrow> limit \<noteq> - 1 \<longrightarrow> (\<exists>vm'. run_loop P (machine limit) = Some (Some OutOfGas, vm'))))"

lemma goes_result:
  assumes "goes P c c' G" "halted c'" "storage c' = s_storage \<sigma>" "events c' = s_events \<sigma>" "state_writes c' = s_writes \<sigma>"
    and machine: "\<And>limit. core (machine limit) = c" "\<And>limit. gas_used (machine limit) = 0"
      "\<And>limit. gas_limit (machine limit) = limit"
  shows "needs_gas P machine G (Done \<sigma>)"
  unfolding needs_gas_def
proof (intro allI conjI impI)
  fix limit
  show "source_result P (machine limit) (Done \<sigma>)" if gas: "G \<le> unat limit"
  proof -
    obtain vm' where vm': "run_steps P (machine limit) vm'" "core vm' = c'"
      using goes_runs [OF assms(1) machine(1), of limit] machine(2,3) gas by auto
    have "run_loop P (machine limit) = Some (None, vm')"
      using run_steps_loop [OF vm'(1)] run_loop.simps [of P vm'] assms(2) vm'(2) by auto
    moreover have "storage vm' = s_storage \<sigma>" "events vm' = s_events \<sigma>" "state_writes vm' = s_writes \<sigma>"
      using assms(3-5) vm'(2) by auto
    ultimately show ?thesis by (simp add: source_result_def)
  qed
  show "\<exists>vm'. run_loop P (machine limit) = Some (Some OutOfGas, vm')" if "unat limit < G" "limit \<noteq> - 1"
    using goes_starves [OF assms(1) machine(1)] machine(2,3) that by simp
qed

lemma stops_result:
  assumes "stops P c AssertionFailed G"
    and machine: "\<And>limit. core (machine limit) = c" "\<And>limit. gas_used (machine limit) = 0"
      "\<And>limit. gas_limit (machine limit) = limit"
  shows "needs_gas P machine G Violated"
  using stops_runs [OF assms(1) machine(1)] stops_starves [OF assms(1) machine(1)] machine(2,3)
  by (simp add: needs_gas_def source_result_def)

lemma generated_main_runs:
  assumes gen: "generate map_values contract (new_with_profile prof) = Inr P"
    and main: "contract_functions contract = [func]" "fn_name func = ''main''" "fn_params func = []"
    and cov: "covered_block {} (fn_body func)"
    and size: "length P < 2 ^ 31" "length (contract_storage contract) < 2 ^ 31"
    and canon: "canonical_ctx c" "\<forall>slot v. slots slot = Some v \<longrightarrow> canonical v"
    and ex: "exec_stmts (storage_map_of (contract_storage contract)) c n (fn_body func) (start_state slots) = Some out"
  shows "\<exists>G. needs_gas P (start_vm memory_size mainnet c slots) G out"
proof -
  obtain t code where P: "P = map encode (prologue @ main_code t code)" and t: "0 < t" "t < 30"
    and ok: "list_all ok_inst code"
    and sim: "\<And>P p c \<sigma> n out. code_at P p code \<Longrightarrow> ready P c p \<Longrightarrow> matches Map.empty {} \<sigma> c \<Longrightarrow>
       exec_stmts (storage_map_of (contract_storage contract)) (ctx c) n (fn_body func) \<sigma> = Some out \<Longrightarrow>
       reaches P (p + length code) Map.empty {} out c"
    by (rule generate_main [OF gen main cov storage_map_nonneg [OF size(2)]]) blast
  let ?m = "start_vm memory_size mainnet c slots"
  define c0 where "c0 = core (?m 0)"
  have m: "core (?m limit) = c0" "gas_used (?m limit) = 0" "gas_limit (?m limit) = limit" for limit
    by (simp_all add: c0_def start_vm_def with_mainnet_mode_def with_gas_limit_def core_def)
  have "list_all ok_inst (prologue @ main_code t code)" using ok t by (simp add: prologue_def main_code_def)
  hence code: "code_at P 0 (prologue @ main_code t code)" unfolding P by (rule code_at_encoded)
  have c0: "ready P c0 0" "stack c0 = []" "ctx c0 = c" "matches Map.empty {} (start_state slots) c0"
    using size(1) canon
    by (simp_all add: c0_def start_vm_def with_mainnet_mode_def with_gas_limit_def core_def ready_def matches_def
        holds_def start_state_def canonical_src_def)
  obtain c1 G1 where c1: "goes P c0 c1 G1" "ready P c1 5" "keeps c0 c1" "stack c1 = [2]"
    by (rule enter_main [OF code c0(1,2)])
  have "code_at P 5 (code @ drop (2 + length code) (main_code t code))"
    using code_at_drop [OF code, of 5] by (simp add: prologue_def main_code_def)
  hence at: "code_at P 5 code" by (simp add: code_at_append)
  have "ctx c1 = c" using c1(3) c0(3) by (simp add: keeps_def)
  hence r: "reaches P (5 + length code) Map.empty {} out c1"
    using sim [OF at c1(2) matches_keeps [OF c1(3) c0(4)]] ex by simp
  show ?thesis
  proof (cases out)
    case (Done \<sigma>)
    obtain c2 G2 where c2: "goes P c1 c2 G2" "ready P c2 (5 + length code)" "matches Map.empty {} \<sigma> c2" "same_frame c1 c2"
      using r Done by (auto simp: reaches_def)
    have "stack c2 = [2]" using c2(4) c1(4) by (simp add: same_frame_def)
    then obtain c3 G3 where c3: "goes P c2 c3 G3" "halted c3" "keeps c2 c3" using leave_main [OF code t c2(2)] by blast
    have f: "storage c3 = s_storage \<sigma>" "events c3 = s_events \<sigma>" "state_writes c3 = s_writes \<sigma>"
      using c2(3) c3(3) by (simp_all add: matches_def keeps_def)
    have "goes P c0 c3 (G1 + G2 + G3)" by (rule goes_trans [OF goes_trans [OF c1(1) c2(1)] c3(1)])
    hence "needs_gas P ?m (G1 + G2 + G3) out" unfolding Done using c3(2) f m by (rule goes_result)
    thus ?thesis by blast
  next
    case Violated
    then obtain G2 where "stops P c1 AssertionFailed G2" using r by (auto simp: reaches_def)
    hence "needs_gas P ?m (G1 + G2) out" unfolding Violated using m by (intro stops_result [OF goes_stops [OF c1(1)]])
    thus ?thesis by blast
  qed
qed

end
