(* ===== verification/Parser_Total.thy ===== *)
theory Parser_Total
  imports Parser
begin

text \<open>
  Every production of the parser consumes at least one token when it succeeds, hence each of its
  loops runs at most once per remaining token and \<^const>\<open>Loop_limit\<close> is never reached: the parser
  returns on every token list.
\<close>

named_theorems consuming_intros \<open>productions end and consume input\<close>

definition shorter :: "nat \<Rightarrow> 'a parse \<Rightarrow> bool" where
  "shorter n r = (case r of Inl e \<Rightarrow> e \<noteq> Loop_limit | Inr (_, ts) \<Rightarrow> length ts < n)"

definition consuming :: "(token list \<Rightarrow> 'a parse) \<Rightarrow> bool" where
  "consuming p \<longleftrightarrow> (\<forall>ts. shorter (length ts) (p ts))"

lemma shorter_Inl [simp]: "shorter n (Inl e) \<longleftrightarrow> e \<noteq> Loop_limit"
  by (simp add: shorter_def)

lemma shorter_Inr [simp]: "shorter n (Inr (a, ts)) \<longleftrightarrow> length ts < n"
  by (simp add: shorter_def)

lemma shorter_mono: "shorter n r \<Longrightarrow> n \<le> m \<Longrightarrow> shorter m r"
  by (auto simp: shorter_def split: sum.splits)

lemma shorter_bindp:
  assumes "shorter n r" and "\<And>a ts. length ts < n \<Longrightarrow> shorter m (f a ts)"
  shows "shorter m (bindp r f)"
proof (cases r)
  case (Inr p)
  thus ?thesis using assms by (cases p) (simp add: bindp_def)
qed (use assms in \<open>simp add: bindp_def\<close>)

lemma shorter_if [consuming_intros]:
  "(c \<Longrightarrow> shorter n a) \<Longrightarrow> (\<not> c \<Longrightarrow> shorter n b) \<Longrightarrow> shorter n (if c then a else b)"
  by simp

lemmas shorter_bind [consuming_intros] = shorter_bindp [of n _ n for n]

lemma length_tl_peek: "peek ts \<noteq> T_Error \<Longrightarrow> length (tl ts) < length ts"
  by (cases ts) (auto simp: peek_def)

lemma shorter_expect [consuming_intros]:
  "t \<noteq> T_Error \<Longrightarrow> length ts \<le> n \<Longrightarrow> shorter n (expect t ts)"
  by (cases ts) (auto simp: expect_def consume_def peek_def)

lemma shorter_expect_ident [consuming_intros]: "length ts \<le> n \<Longrightarrow> shorter n (expect_ident msg ts)"
  by (cases ts) (auto simp: expect_ident_def consume_def peek_def split: token.splits)

lemma length_skip_comma: "length (skip_comma ts) \<le> length ts"
  by (simp add: skip_comma_def)

lemma consuming_at: "consuming p \<Longrightarrow> length ts \<le> n \<Longrightarrow> shorter n (p ts)"
  using shorter_mono unfolding consuming_def by blast

lemma consumingI: "(\<And>ts. shorter (length ts) (p ts)) \<Longrightarrow> consuming p"
  by (simp add: consuming_def)

lemma shorter_until_loop:
  assumes "consuming item"
  shows "length ts < n \<Longrightarrow> shorter (Suc (length ts)) (until_loop n stop item ts)"
proof (induction n arbitrary: ts)
  case (Suc n)
  show ?case
  proof (cases "peek ts = stop")
    case False
    have "shorter (length ts) (item ts)" using assms by (simp add: consuming_def)
    moreover have "shorter (Suc (length ts)) (bindp (until_loop n stop item us) (\<lambda>as vs. Inr (a # as, vs)))"
      if "length us < length ts" for a us
      using Suc.IH [of us] Suc.prems that
      by (auto intro!: shorter_bindp [of "Suc (length us)"])
    ultimately show ?thesis using False by (auto intro: shorter_bindp)
  qed simp
qed simp

lemma shorter_parse_until [consuming_intros]:
  "consuming item \<Longrightarrow> length ts < n \<Longrightarrow> shorter n (parse_until stop item ts)"
  unfolding parse_until_def by (rule shorter_mono [OF shorter_until_loop]) simp_all

lemma consuming_comma_item [consuming_intros]: "consuming p \<Longrightarrow> consuming (comma_item p)"
  unfolding comma_item_def
  by (auto intro!: consumingI consuming_intros consuming_at [of p] intro: le_less_trans [OF length_skip_comma])

lemma shorter_binary_loop:
  assumes "consuming operand" and "op_of T_Error = None"
  shows "length ts < n \<Longrightarrow> shorter (Suc (length ts)) (binary_loop n op_of operand left ts)"
proof (induction n arbitrary: left ts)
  case (Suc n)
  show ?case
  proof (cases "op_of (peek ts)")
    case (Some op)
    hence tl: "length (tl ts) < length ts" using length_tl_peek [of ts] assms(2) by fastforce
    have "shorter (length (tl ts)) (operand (tl ts))" using assms(1) unfolding consuming_def by blast
    moreover have "shorter (Suc (length ts)) (binary_loop n op_of operand (EBinary left op right) us)"
      if "length us < length (tl ts)" for right us
      using shorter_mono [OF Suc.IH [of us "EBinary left op right"]] Suc.prems that tl by simp
    ultimately show ?thesis using Some by (auto intro: shorter_bindp)
  qed simp
qed simp

lemma consuming_parse_binary [consuming_intros]:
  assumes "consuming operand" and "op_of T_Error = None"
  shows "consuming (parse_binary op_of operand)"
proof (rule consumingI)
  fix ts :: "token list"
  have "shorter (length ts) (binary_loop (Suc (length us)) op_of operand left us)"
    if "length us < length ts" for left us
    using shorter_binary_loop [of operand op_of us "Suc (length us)" left, OF assms] that
    by (auto intro: shorter_mono)
  thus "shorter (length ts) (parse_binary op_of operand ts)"
    using assms(1) unfolding parse_binary_def consuming_def by (blast intro: shorter_bindp)
qed

lemma shorter_postfix_loop: "length ts < n \<Longrightarrow> shorter (Suc (length ts)) (postfix_loop n e ts)"
proof (induction n arbitrary: e ts)
  case (Suc n)
  show ?case
  proof (cases "peek ts = T_Dot")
    case True
    hence tl: "length (tl ts) < length ts" using length_tl_peek [of ts] by simp
    have "shorter (Suc (length ts)) (postfix_loop n (EFieldAccess e f) us)"
      if "length us < length (tl ts)" for f us
      using shorter_mono [OF Suc.IH [of us "EFieldAccess e f"]] Suc.prems that tl by simp
    thus ?thesis using True by (auto intro!: shorter_bindp [OF shorter_expect_ident [OF order_refl]])
  qed simp
qed simp

lemma shorter_arms_loop:
  assumes "consuming arm"
  shows "length ts < n \<Longrightarrow> shorter (Suc (length ts)) (arms_loop n arm ts)"
proof (induction n arbitrary: ts)
  case (Suc n)
  have rec: "shorter (Suc (length ts)) (arms_loop n arm (tl us))"
    if "length us \<le> length ts" "peek us = T_Comma" for us
    using Suc.IH [of "tl us"] Suc.prems length_tl_peek [of us] that by (auto intro: shorter_mono)
  have "shorter (length ts) (arm ts)" using assms by (simp add: consuming_def)
  moreover have "shorter (Suc (length ts)) (bindp (arms_loop n arm (tl us)) (\<lambda>as vs. Inr (a # as, vs)))"
    if "length us < length ts" "peek us = T_Comma" for a us
    using rec [of us] that by (auto intro!: shorter_bindp)
  ultimately show ?case using rec [of ts] by (auto intro!: shorter_bindp)
qed simp

section \<open>The productions\<close>

lemma shorter_parse_args [consuming_intros]:
  "consuming pe \<Longrightarrow> length ts < n \<Longrightarrow> shorter n (parse_args pe ts)"
  by (auto simp: parse_args_def intro!: consuming_intros)

lemma shorter_parse_path_call [consuming_intros]: "length ts \<le> n \<Longrightarrow> shorter n (parse_path_call m ts)"
  by (auto simp: parse_path_call_def intro!: consuming_intros)

lemma shorter_parse_merkle_call [consuming_intros]:
  "consuming pe \<Longrightarrow> length ts \<le> n \<Longrightarrow> shorter n (parse_merkle_call pe ts)"
  by (auto simp: parse_merkle_call_def intro!: consuming_intros consuming_at [of pe])

lemma consuming_parse_field_init [consuming_intros]: "consuming pe \<Longrightarrow> consuming (parse_field_init pe)"
  unfolding parse_field_init_def
  by (auto intro!: consumingI consuming_intros consuming_at [of pe])

lemma shorter_parse_ident_expr [consuming_intros]:
  assumes "consuming pe" and "length ts < n"
  shows "shorter n (parse_ident_expr pe name ts)"
proof -
  have "length (tl ts) < n" using assms(2) by simp
  thus ?thesis using assms unfolding parse_ident_expr_def
    by (intro consuming_intros consuming_at [of pe]; simp)
qed

lemma consuming_parse_primary [consuming_intros]:
  assumes "consuming pe"
  shows "consuming (parse_primary pe)"
proof (rule consumingI)
  fix ts
  show "shorter (length ts) (parse_primary pe ts)"
  proof (cases ts)
    case (Cons t us)
    thus ?thesis using assms
      by (cases t) (auto simp: parse_primary_def consume_def peek_def split: option.split
          intro!: consuming_intros consuming_at [of pe])
  qed (simp add: parse_primary_def consume_def peek_def)
qed

lemma consuming_parse_postfix [consuming_intros]: "consuming pe \<Longrightarrow> consuming (parse_postfix pe)"
  unfolding parse_postfix_def
  by (auto intro!: consumingI shorter_bindp [OF consuming_at [OF consuming_parse_primary order_refl]]
      simp del: postfix_loop.simps intro: shorter_mono [OF shorter_postfix_loop])

lemma consuming_parse_expr_inner [consuming_intros]: "consuming pe \<Longrightarrow> consuming (parse_expr_inner pe)"
  unfolding parse_expr_inner_def parse_arith_def parse_term_def
  by (auto intro!: consuming_intros simp: eta_contract_eq)

text \<open>The nesting counter: below the limit a production runs with nested parsers one level down.\<close>

lemma nesting_induct [case_names limit nested]:
  assumes "\<And>d. MAX_NESTING_DEPTH \<le> d \<Longrightarrow> P d"
    and "\<And>d. d < MAX_NESTING_DEPTH \<Longrightarrow> P (Suc d) \<Longrightarrow> P d"
  shows "P d"
proof (induction "MAX_NESTING_DEPTH - d" arbitrary: d)
  case (Suc n)
  hence "P (Suc d)" by simp
  thus ?case using Suc.hyps assms(2) by fastforce
qed (simp add: assms(1))

lemma parse_expr_limit: "MAX_NESTING_DEPTH \<le> d \<Longrightarrow> parse_expr d ts = Inl Nests_too_deep"
  by (simp add: parse_expr.simps enter_def)

lemma parse_expr_nested: "d < MAX_NESTING_DEPTH \<Longrightarrow> parse_expr d = parse_expr_inner (parse_expr (Suc d))"
  by (rule ext, subst parse_expr.simps) (simp add: enter_def)

lemma parse_stmt_limit: "MAX_NESTING_DEPTH \<le> d \<Longrightarrow> parse_stmt d ts = Inl Nests_too_deep"
  by (simp add: parse_stmt.simps enter_def)

lemma parse_stmt_nested:
  "d < MAX_NESTING_DEPTH \<Longrightarrow>
   parse_stmt d = parse_stmt_inner (parse_expr (Suc d)) (parse_stmt (Suc d))"
  by (rule ext, subst parse_stmt.simps) (simp add: enter_def)

lemma consuming_parse_expr: "consuming (parse_expr d)"
proof (induction d rule: nesting_induct)
  case (nested d)
  thus ?case by (simp add: parse_expr_nested consuming_parse_expr_inner)
qed (simp add: consuming_def parse_expr_limit)

lemma shorter_parse_block [consuming_intros]:
  "consuming ps \<Longrightarrow> length ts < n \<Longrightarrow> shorter n (parse_block ps ts)"
  by (auto simp: parse_block_def intro!: consuming_intros)

lemma shorter_parse_condition [consuming_intros]:
  "consuming pe \<Longrightarrow> length ts \<le> n \<Longrightarrow> shorter n (parse_condition pe ts)"
  unfolding parse_condition_def by (intro consuming_intros consuming_at [of pe]; simp)

lemma shorter_parse_assigned [consuming_intros]:
  "consuming pe \<Longrightarrow> length ts \<le> n \<Longrightarrow> shorter n (parse_assigned pe ts)"
  unfolding parse_assigned_def by (intro consuming_intros consuming_at [of pe]; simp)

lemma shorter_parse_pattern [consuming_intros]: "length ts \<le> n \<Longrightarrow> shorter n (parse_pattern ts)"
  using length_tl_peek [of ts] by (auto simp: parse_pattern_def split: token.split)

lemma consuming_parse_match_arm [consuming_intros]: "consuming ps \<Longrightarrow> consuming (parse_match_arm ps)"
  unfolding parse_match_arm_def
  by (rule consumingI, intro consuming_intros consuming_at [of ps]; simp)

lemmas stmt_parts = parse_let_def parse_constrain_def parse_storage_write_def parse_if_def
  parse_while_def parse_for_def parse_return_def parse_emit_def parse_ident_stmt_def

lemma shorter_parse_match [consuming_intros]:
  assumes "consuming pe" "consuming ps" "length ts \<le> n"
  shows "shorter n (parse_match pe ps ts)"
  unfolding parse_match_def using assms
  by (intro consuming_intros shorter_mono [OF shorter_arms_loop]; simp)

lemma shorter_stmt_parts [consuming_intros]:
  assumes "consuming pe" "consuming ps" "length ts < n"
  shows "shorter n (parse_let pe ts)" "shorter n (parse_constrain pe ts)"
    "shorter n (parse_storage_write pe ts)" "shorter n (parse_if pe ps ts)"
    "shorter n (parse_while pe ps ts)" "shorter n (parse_for pe ps ts)"
    "shorter n (parse_return pe ts)" "shorter n (parse_emit pe ts)"
    "shorter n (parse_ident_stmt pe name ts)"
  unfolding stmt_parts using assms
  by (intro consuming_intros consuming_at [of pe] consuming_at [of ps]; simp)+

lemma consuming_parse_stmt_inner [consuming_intros]:
  assumes "consuming pe" "consuming ps"
  shows "consuming (parse_stmt_inner pe ps)"
proof (rule consumingI)
  fix ts :: "token list"
  have parts: "shorter (length ts) (parse_let pe (tl ts))" "shorter (length ts) (parse_constrain pe (tl ts))"
    "shorter (length ts) (parse_storage_write pe (tl ts))" "shorter (length ts) (parse_if pe ps (tl ts))"
    "shorter (length ts) (parse_while pe ps (tl ts))" "shorter (length ts) (parse_for pe ps (tl ts))"
    "shorter (length ts) (parse_return pe (tl ts))" "shorter (length ts) (parse_emit pe (tl ts))"
    "shorter (length ts) (parse_ident_stmt pe name (tl ts))" "shorter (length ts) (parse_match pe ps (tl ts))"
    if "peek ts \<noteq> T_Error" for name
    using shorter_stmt_parts [OF assms] shorter_parse_match [OF assms] length_tl_peek [OF that]
    by simp_all
  have "shorter (length ts) (bindp (pe ts) (\<lambda>expr ts.
          bindp (expect T_Semicolon ts) (\<lambda>_ ts. Inr (SExpr expr, ts))))"
    using assms by (intro consuming_intros consuming_at [of pe]; simp)
  thus "shorter (length ts) (parse_stmt_inner pe ps ts)"
    using parts unfolding parse_stmt_inner_def by (cases "peek ts") simp_all
qed

lemma consuming_parse_stmt: "consuming (parse_stmt d)"
proof (induction d rule: nesting_induct)
  case (nested d)
  thus ?case by (simp add: parse_stmt_nested consuming_parse_stmt_inner consuming_parse_expr)
qed (simp add: consuming_def parse_stmt_limit)

lemma consuming_parse_param [consuming_intros]: "consuming parse_param"
  unfolding parse_param_def by (rule consumingI, intro consuming_intros; simp)

lemma shorter_parse_return_type [consuming_intros]: "length ts < n \<Longrightarrow> shorter n (parse_return_type ts)"
  unfolding parse_return_type_def by (intro consuming_intros; simp)

lemma consuming_parse_function [consuming_intros]: "consuming parse_function"
  unfolding parse_function_def Let_def
  by (rule consumingI, intro consuming_intros consuming_parse_stmt; simp)

lemma consuming_parse_storage_type [consuming_intros]: "consuming parse_storage_type"
  unfolding parse_storage_type_def by (rule consumingI, intro consuming_intros; simp)

lemma consuming_expect_ident [consuming_intros]: "consuming (expect_ident msg)"
  by (rule consumingI, intro consuming_intros) simp

lemma consuming_parse_field_decl [consuming_intros]: "consuming p \<Longrightarrow> consuming (parse_field_decl p)"
  unfolding parse_field_decl_def by (rule consumingI, intro consuming_intros consuming_at [of p]; simp)

lemma consuming_parse_member [consuming_intros]: "consuming parse_member"
proof (rule consumingI)
  fix ts
  have fn: "shorter (length ts) (bindp (parse_function ts) (\<lambda>f ts. Inr (M_Function f, ts)))"
    by (intro consuming_intros consuming_at [OF consuming_parse_function]; simp)
  show "shorter (length ts) (parse_member ts)"
    using fn unfolding parse_member_def
    by (cases "peek ts"; simp; intro consuming_intros; simp)
qed

lemma consuming_parse_contract: "consuming parse_contract"
  unfolding parse_contract_def by (rule consumingI, intro consuming_intros; simp)

end
