(* ===== verification/Parser_Print.thy ===== *)
theory Parser_Print
  imports Parser_Total
begin

text \<open>
  A printer for expressions and the round trip through the parser: a printed expression is parsed
  back to itself with the rest of the tokens untouched, whenever it nests no deeper than the
  parser's limit allows.  The reserved names are those \<open>parse_primary\<close> gives a syntax of their own.
\<close>

section \<open>Printer\<close>

fun print_op :: "bin_op \<Rightarrow> token" where
  "print_op B_Add = T_Plus"
| "print_op B_Sub = T_Minus"
| "print_op B_Mul = T_Star"
| "print_op B_Div = T_Slash"
| "print_op B_Eq = T_Eq"
| "print_op B_Neq = T_Neq"
| "print_op B_Lt = T_Lt"
| "print_op B_Gt = T_Gt"
| "print_op B_Lte = T_Lte"
| "print_op B_Gte = T_Gte"

definition reserved_names :: "string list" where
  "reserved_names = [''poseidon'', ''msg'', ''block'', ''verify_merkle_proof'']"

definition path_call :: "string \<Rightarrow> string \<Rightarrow> token list" where
  "path_call module field =
     [T_Ident module, T_Colon, T_Colon, T_Ident field, T_ParenOpen, T_ParenClose]"

fun print_expr :: "expr \<Rightarrow> token list" where
  "print_expr (EInt v) = [T_Int v]"
| "print_expr (EIdent x) = [T_Ident x]"
| "print_expr (EStorageRead x) = [T_Storage, T_Colon, T_Colon, T_Ident x]"
| "print_expr (EMappingRead x k) = T_Ident x # T_BracketOpen # print_expr k @ [T_BracketClose]"
| "print_expr (EFieldAccess b f) = print_expr b @ [T_Dot, T_Ident f]"
| "print_expr (EStructLiteral x fs) =
     T_Ident x # T_BraceOpen #
     concat (map (\<lambda>(f, e). T_Ident f # T_Colon # print_expr e @ [T_Comma]) fs) @ [T_BraceClose]"
| "print_expr (EBinary l op r) =
     T_ParenOpen # print_expr l @ print_op op # print_expr r @ [T_ParenClose]"
| "print_expr (ECall f args) =
     (if take 5 f = ''msg::'' \<and> args = [] then path_call ''msg'' (drop 5 f)
      else if take 7 f = ''block::'' \<and> args = [] then path_call ''block'' (drop 7 f)
      else if f = ''verify_merkle_proof'' then
        (case map print_expr args of
           [r, l, p] \<Rightarrow> T_Ident f # T_ParenOpen # r @ T_Comma # l @ T_Comma # p @ [T_ParenClose]
         | _ \<Rightarrow> [])
      else T_Ident f # T_ParenOpen # concat (map (\<lambda>e. print_expr e @ [T_Comma]) args) @ [T_ParenClose])"

text \<open>The trees the grammar can produce.\<close>

fun printable :: "expr \<Rightarrow> bool" where
  "printable (EInt v) = True"
| "printable (EIdent x) = (x \<notin> set reserved_names)"
| "printable (EStorageRead x) = True"
| "printable (EMappingRead x k) = (x \<notin> set reserved_names \<and> printable k)"
| "printable (EFieldAccess b f) = printable b"
| "printable (EStructLiteral x fs) = (x \<notin> set reserved_names \<and> (\<forall>(f, e) \<in> set fs. printable e))"
| "printable (EBinary l op r) = (printable l \<and> printable r)"
| "printable (ECall f args) =
     (f \<noteq> ''msg'' \<and> f \<noteq> ''block'' \<and> (f = ''verify_merkle_proof'' \<longrightarrow> length args = 3) \<and>
      (\<forall>e \<in> set args. printable e))"

text \<open>Levels of nested \<open>parse_expr\<close> calls below the operand itself.\<close>

fun nesting :: "expr \<Rightarrow> nat" where
  "nesting (EMappingRead x k) = Suc (nesting k)"
| "nesting (EFieldAccess b f) = nesting b"
| "nesting (EStructLiteral x fs) = fold max (map (\<lambda>(f, e). Suc (nesting e)) fs) 0"
| "nesting (EBinary l op r) = Suc (max (nesting l) (nesting r))"
| "nesting (ECall f args) = fold max (map (\<lambda>e. Suc (nesting e)) args) 0"
| "nesting _ = 0"

section \<open>Steps of the parser on known tokens\<close>

lemma bindp_Inr [simp]: "bindp (Inr (a, ts)) f = f a ts"
  by (simp add: bindp_def)

lemma bindp_Inl [simp]: "bindp (Inl e) f = Inl e"
  by (simp add: bindp_def)

lemma peek_Cons [simp]: "peek (t # ts) = t"
  by (simp add: peek_def)

lemma expect_Cons [simp]: "expect t (t # ts) = Inr ((), ts)"
  by (simp add: expect_def consume_def)

lemma expect_ident_Cons [simp]: "expect_ident msg (T_Ident x # ts) = Inr (x, ts)"
  by (simp add: expect_ident_def consume_def)

lemma skip_comma_Cons [simp]: "skip_comma (T_Comma # ts) = ts"
  by (simp add: skip_comma_def)

lemma until_loop_items:
  assumes "\<And>x rest. x \<in> set xs \<Longrightarrow> item (pr x @ rest) = Inr (x, rest) \<and> peek (pr x @ rest) \<noteq> stop"
    and "length xs < n"
  shows "until_loop n stop item (concat (map pr xs) @ stop # rest) = Inr (xs, stop # rest)"
  using assms
proof (induction xs arbitrary: n)
  case Nil
  thus ?case by (cases n) simp_all
next
  case (Cons x xs)
  then obtain m where "n = Suc m" "length xs < m" by (cases n) auto
  thus ?case using Cons.prems(1) Cons.IH [of m] by simp
qed

lemma length_concat_ge: "(\<And>x. x \<in> set xs \<Longrightarrow> f x \<noteq> []) \<Longrightarrow> length xs \<le> length (concat (map f xs))"
proof (induction xs)
  case (Cons x xs)
  hence "Suc 0 \<le> length (f x)" "length xs \<le> length (concat (map f xs))"
    by (simp_all add: Suc_le_eq)
  thus ?case by (simp del: length_concat length_greater_0_conv)
qed simp

lemma parse_until_items:
  assumes "\<And>x rest. x \<in> set xs \<Longrightarrow> item (pr x @ rest) = Inr (x, rest) \<and> peek (pr x @ rest) \<noteq> stop"
    and "\<And>x. x \<in> set xs \<Longrightarrow> pr x \<noteq> []"
  shows "parse_until stop item (concat (map pr xs) @ stop # rest) = Inr (xs, stop # rest)"
proof -
  have "length xs \<le> length (concat (map pr xs))" using assms(2) by (rule length_concat_ge)
  thus ?thesis unfolding parse_until_def by (intro until_loop_items assms(1)) auto
qed

lemma parse_binary_one:
  "operand ts = Inr (l, us) \<Longrightarrow> op_of (peek us) = None \<Longrightarrow> parse_binary op_of operand ts = Inr (l, us)"
  by (simp add: parse_binary_def)

lemma parse_binary_two:
  "operand ts = Inr (l, t # us) \<Longrightarrow> op_of t = Some op \<Longrightarrow> operand us = Inr (r, vs) \<Longrightarrow>
   op_of (peek vs) = None \<Longrightarrow> parse_binary op_of operand ts = Inr (EBinary l op r, vs)"
  by (simp add: parse_binary_def)

text \<open>A token that ends an operand; the openers would continue an identifier, the dot a postfix.\<close>

definition ends_primary :: "token list \<Rightarrow> bool" where
  "ends_primary ts \<longleftrightarrow> peek ts \<notin> {T_ParenOpen, T_BracketOpen, T_BraceOpen}"

definition ends_operand :: "token list \<Rightarrow> bool" where
  "ends_operand ts \<longleftrightarrow> ends_primary ts \<and> peek ts \<noteq> T_Dot"

definition ends_expr :: "token list \<Rightarrow> bool" where
  "ends_expr ts \<longleftrightarrow> ends_operand ts \<and>
     term_op (peek ts) = None \<and> arith_op (peek ts) = None \<and> compare_op (peek ts) = None"

lemma ends_operand_op: "ends_operand (print_op op # ts)"
  by (cases op) (simp_all add: ends_operand_def ends_primary_def)

lemma operands_to_expr:
  assumes "parse_postfix pe ts = Inr (e, rest)" "ends_expr rest"
  shows "parse_expr_inner pe ts = Inr (e, rest)"
  using assms unfolding parse_expr_inner_def parse_arith_def parse_term_def ends_expr_def
  by (intro parse_binary_one [where operand = "\<lambda>ts. parse_binary arith_op _ ts"]
      parse_binary_one [where operand = "\<lambda>ts. parse_binary term_op _ ts"]) (auto intro: parse_binary_one)

text \<open>Two operands and an operator, with each operator at its own level of precedence.\<close>

lemma binary_to_expr:
  assumes l: "parse_postfix pe ts = Inr (l, print_op op # us)"
    and r: "parse_postfix pe us = Inr (r, rest)" and "ends_expr rest"
  shows "parse_expr_inner pe ts = Inr (EBinary l op r, rest)"
proof -
  have stop: "term_op (peek rest) = None" "arith_op (peek rest) = None" "compare_op (peek rest) = None"
    using assms(3) by (simp_all add: ends_expr_def)
  have t_l: "term_op (print_op op) = None \<Longrightarrow> parse_term pe ts = Inr (l, print_op op # us)"
    and t_r: "parse_term pe us = Inr (r, rest)"
    unfolding parse_term_def using l r stop by (auto intro: parse_binary_one)
  hence a_l: "term_op (print_op op) = None \<Longrightarrow> arith_op (print_op op) = None \<Longrightarrow>
        parse_arith pe ts = Inr (l, print_op op # us)"
    and a_r: "parse_arith pe us = Inr (r, rest)"
    unfolding parse_arith_def using stop by (auto intro: parse_binary_one)
  consider "term_op (print_op op) = Some op" | "term_op (print_op op) = None" "arith_op (print_op op) = Some op"
    | "term_op (print_op op) = None" "arith_op (print_op op) = None" "compare_op (print_op op) = Some op"
    by (cases op) auto
  thus ?thesis
  proof cases
    case 1
    hence "parse_term pe ts = Inr (EBinary l op r, rest)"
      unfolding parse_term_def using l r stop by (auto intro: parse_binary_two)
    hence "parse_arith pe ts = Inr (EBinary l op r, rest)"
      unfolding parse_arith_def using stop by (auto intro: parse_binary_one)
    thus ?thesis unfolding parse_expr_inner_def using stop by (auto intro: parse_binary_one)
  next
    case 2
    hence "parse_arith pe ts = Inr (EBinary l op r, rest)"
      unfolding parse_arith_def using t_l t_r stop by (auto intro: parse_binary_two)
    thus ?thesis unfolding parse_expr_inner_def using stop by (auto intro: parse_binary_one)
  next
    case 3
    thus ?thesis unfolding parse_expr_inner_def using a_l a_r stop by (auto intro: parse_binary_two)
  qed
qed

section \<open>Round trip\<close>

lemma print_expr_head:
  "printable e \<Longrightarrow> \<exists>t ts. print_expr e = t # ts \<and> t \<noteq> T_ParenClose \<and> t \<noteq> T_BraceClose"
  by (induction e) (auto simp: path_call_def length_Suc_conv numeral_3_eq_3)

lemma peek_print_expr:
  "printable e \<Longrightarrow> peek (print_expr e @ rest) \<noteq> T_ParenClose \<and> peek (print_expr e @ rest) \<noteq> T_BraceClose"
  using print_expr_head [of e] by auto

lemma fold_max_init: "m \<le> fold max xs (m :: nat)"
proof (induction xs arbitrary: m)
  case (Cons x xs)
  show ?case using order_trans [OF max.cobounded2 Cons.IH [of "max x m"]] by simp
qed simp

lemma fold_max_ge: "x \<in> set xs \<Longrightarrow> x \<le> fold max xs (m :: nat)"
proof (induction xs arbitrary: m)
  case (Cons y xs)
  thus ?case using fold_max_init [of "max y m" xs] by auto
qed simp

definition parses_back :: "expr \<Rightarrow> bool" where
  "parses_back e \<longleftrightarrow> (\<forall>d rest. d + nesting e \<le> MAX_NESTING_DEPTH \<longrightarrow> ends_primary rest \<longrightarrow>
     (\<exists>n > length rest. parse_postfix (parse_expr d) (print_expr e @ rest) = postfix_loop n e rest))"

lemma postfix_stop: "0 < n \<Longrightarrow> peek rest \<noteq> T_Dot \<Longrightarrow> postfix_loop n e rest = Inr (e, rest)"
  by (cases n) simp_all

lemma parses_back_operand:
  assumes "parses_back e" "d + nesting e \<le> MAX_NESTING_DEPTH" "ends_operand rest"
  shows "parse_postfix (parse_expr d) (print_expr e @ rest) = Inr (e, rest)"
proof -
  obtain n where "length rest < n"
    and eq: "parse_postfix (parse_expr d) (print_expr e @ rest) = postfix_loop n e rest"
    using assms unfolding parses_back_def ends_operand_def by blast
  moreover have "postfix_loop n e rest = Inr (e, rest)"
    using calculation(1) assms(3) by (intro postfix_stop) (simp_all add: ends_operand_def)
  ultimately show ?thesis by simp
qed

lemma parses_back_expr:
  assumes "parses_back e" "d + Suc (nesting e) \<le> MAX_NESTING_DEPTH" "ends_expr rest"
  shows "parse_expr d (print_expr e @ rest) = Inr (e, rest)"
proof -
  have "ends_operand rest" using assms(3) by (simp add: ends_expr_def)
  hence "parse_postfix (parse_expr (Suc d)) (print_expr e @ rest) = Inr (e, rest)"
    using assms(1,2) by (intro parses_back_operand) simp_all
  thus ?thesis using assms(2,3) by (simp add: parse_expr_nested operands_to_expr)
qed

lemma parses_backI:
  assumes "\<And>d rest. d + nesting e \<le> MAX_NESTING_DEPTH \<Longrightarrow> ends_primary rest \<Longrightarrow>
      parse_primary (parse_expr d) (print_expr e @ rest) = Inr (e, rest)"
  shows "parses_back e"
  unfolding parses_back_def
proof (intro allI impI)
  fix d rest
  assume "d + nesting e \<le> MAX_NESTING_DEPTH" "ends_primary rest"
  hence "parse_postfix (parse_expr d) (print_expr e @ rest) = postfix_loop (Suc (length rest)) e rest"
    using assms by (simp add: parse_postfix_def)
  thus "\<exists>n > length rest. parse_postfix (parse_expr d) (print_expr e @ rest) = postfix_loop n e rest"
    by blast
qed

lemma ends_expr_closers [simp]:
  "ends_expr (T_ParenClose # ts)" "ends_expr (T_BracketClose # ts)" "ends_expr (T_BraceClose # ts)"
  "ends_expr (T_Comma # ts)" "ends_expr (T_Semicolon # ts)"
  by (simp_all add: ends_expr_def ends_operand_def ends_primary_def)

lemma parse_primary_tokens [simp]:
  "parse_primary pe (T_Int v # ts) = Inr (EInt v, ts)"
  "parse_primary pe (T_ParenOpen # ts) =
     bindp (pe ts) (\<lambda>expr ts. bindp (expect T_ParenClose ts) (\<lambda>_ ts. Inr (expr, ts)))"
  "parse_primary pe (T_Ident x # ts) = parse_ident_expr pe x ts"
  "parse_primary pe (T_Storage # T_Colon # T_Colon # T_Ident x # ts) = Inr (EStorageRead x, ts)"
  by (simp_all add: parse_primary_def consume_def)

lemma ends_primary_dot: "ends_primary (T_Dot # ts)"
  by (simp add: ends_primary_def)

lemma parses_back_field: "parses_back b \<Longrightarrow> parses_back (EFieldAccess b f)"
  unfolding parses_back_def
proof (intro allI impI)
  fix d rest
  assume b: "\<forall>d rest. d + nesting b \<le> MAX_NESTING_DEPTH \<longrightarrow> ends_primary rest \<longrightarrow>
     (\<exists>n > length rest. parse_postfix (parse_expr d) (print_expr b @ rest) = postfix_loop n b rest)"
    and "d + nesting (EFieldAccess b f) \<le> MAX_NESTING_DEPTH" "ends_primary rest"
  then obtain n where n: "length (T_Dot # T_Ident f # rest) < n"
    and eq: "parse_postfix (parse_expr d) (print_expr b @ T_Dot # T_Ident f # rest) =
       postfix_loop n b (T_Dot # T_Ident f # rest)"
    using ends_primary_dot by (metis nesting.simps(2))
  from n obtain m where "n = Suc m" "length rest < m" by (cases n) auto
  thus "\<exists>n > length rest. parse_postfix (parse_expr d) (print_expr (EFieldAccess b f) @ rest) =
      postfix_loop n (EFieldAccess b f) rest"
    using eq by auto
qed

lemma parses_back_binary:
  assumes "parses_back l" "parses_back r"
  shows "parses_back (EBinary l op r)"
proof (rule parses_backI)
  fix d rest
  assume d: "d + nesting (EBinary l op r) \<le> MAX_NESTING_DEPTH" and "ends_primary rest"
  have l: "parse_postfix (parse_expr (Suc d)) (print_expr l @ print_op op # us) = Inr (l, print_op op # us)"
    for us using d assms(1) by (intro parses_back_operand ends_operand_op) auto
  have r: "parse_postfix (parse_expr (Suc d)) (print_expr r @ T_ParenClose # rest) = Inr (r, T_ParenClose # rest)"
    using d assms(2) by (intro parses_back_operand) (auto simp: ends_operand_def ends_primary_def)
  have "parse_expr d (print_expr l @ print_op op # print_expr r @ T_ParenClose # rest) =
      Inr (EBinary l op r, T_ParenClose # rest)"
    using d binary_to_expr [OF l r] by (simp add: parse_expr_nested)
  thus "parse_primary (parse_expr d) (print_expr (EBinary l op r) @ rest) = Inr (EBinary l op r, rest)"
    by simp
qed

lemma parses_back_args:
  assumes "\<And>e. e \<in> set args \<Longrightarrow> printable e \<and> parses_back e \<and> d + Suc (nesting e) \<le> MAX_NESTING_DEPTH"
  shows "parse_args (parse_expr d) (concat (map (\<lambda>e. print_expr e @ [T_Comma]) args) @ T_ParenClose # rest) =
    Inr (args, rest)"
proof -
  have "parse_until T_ParenClose (comma_item (parse_expr d))
      (concat (map (\<lambda>e. print_expr e @ [T_Comma]) args) @ T_ParenClose # rest) = Inr (args, T_ParenClose # rest)"
    using assms by (intro parse_until_items) (auto simp: comma_item_def parses_back_expr peek_print_expr)
  thus ?thesis by (simp add: parse_args_def)
qed

lemma parses_back_fields:
  assumes "\<And>f e. (f, e) \<in> set fs \<Longrightarrow> parses_back e \<and> d + Suc (nesting e) \<le> MAX_NESTING_DEPTH"
  shows "parse_until T_BraceClose (comma_item (parse_field_init (parse_expr d)))
      (concat (map (\<lambda>(f, e). T_Ident f # T_Colon # print_expr e @ [T_Comma]) fs) @ T_BraceClose # rest) =
    Inr (fs, T_BraceClose # rest)"
  using assms
  by (intro parse_until_items) (auto simp: comma_item_def parse_field_init_def parses_back_expr)

lemma reserved_cases:
  "x \<notin> set reserved_names \<longleftrightarrow>
   x \<noteq> ''poseidon'' \<and> x \<noteq> ''msg'' \<and> x \<noteq> ''block'' \<and> x \<noteq> ''verify_merkle_proof''"
  by (simp add: reserved_names_def)

lemma parses_back_path:
  "parse_primary pe (path_call ''msg'' f @ rest) = Inr (ECall (''msg::'' @ f) [], rest)"
  "parse_primary pe (path_call ''block'' f @ rest) = Inr (ECall (''block::'' @ f) [], rest)"
  by (simp_all add: path_call_def parse_ident_expr_def parse_path_call_def)

lemma parses_back_call:
  assumes args: "\<And>e. e \<in> set args \<Longrightarrow> printable e \<and> parses_back e" and ok: "printable (ECall f args)"
  shows "parses_back (ECall f args)"
proof (rule parses_backI)
  fix d rest
  assume d: "d + nesting (ECall f args) \<le> MAX_NESTING_DEPTH" and "ends_primary rest"
  have deep: "d + Suc (nesting e) \<le> MAX_NESTING_DEPTH" if "e \<in> set args" for e
    using d that fold_max_ge [of "Suc (nesting e)" "map (\<lambda>e. Suc (nesting e)) args" 0] by auto
  show "parse_primary (parse_expr d) (print_expr (ECall f args) @ rest) = Inr (ECall f args, rest)"
  proof (cases "(take 5 f = ''msg::'' \<or> take 7 f = ''block::'') \<and> args = []")
    case True
    then consider g where "f = ''msg::'' @ g" | g where "f = ''block::'' @ g"
      using append_take_drop_id [of 5 f] append_take_drop_id [of 7 f] by metis
    thus ?thesis using True by cases (simp_all add: parses_back_path [simplified])
  next
    case path: False
    show ?thesis
    proof (cases "f = ''verify_merkle_proof''")
      case True
      then obtain a b c where abc: "args = [a, b, c]" using ok by (auto simp: length_Suc_conv numeral_3_eq_3)
      have nested: "parse_expr d (print_expr e @ t # us) = Inr (e, t # us)"
        if "e \<in> set args" "ends_expr (t # us)" for e t us
        using args [OF that(1)] deep [OF that(1)] that(2) by (intro parses_back_expr) simp_all
      have "parse_expr d (print_expr e @ T_Comma # us) = Inr (e, T_Comma # us)"
        "parse_expr d (print_expr e @ T_ParenClose # us) = Inr (e, T_ParenClose # us)"
        if "e = a \<or> e = b \<or> e = c" for e us
        using nested that abc by auto
      thus ?thesis by (simp add: True abc parse_ident_expr_def parse_merkle_call_def)
    next
      case False
      thus ?thesis using path ok args deep parses_back_args [of args d rest]
        by (auto simp: parse_ident_expr_def)
    qed
  qed
qed

lemma printable_parses_back: "printable e \<Longrightarrow> parses_back e"
proof (induction e)
  case (EMappingRead x k)
  hence "parse_expr d (print_expr k @ T_BracketClose # rest) = Inr (k, T_BracketClose # rest)"
    if "d + Suc (nesting k) \<le> MAX_NESTING_DEPTH" for d rest
    using that by (intro parses_back_expr) auto
  thus ?case using EMappingRead.prems
    by (intro parses_backI) (simp add: parse_ident_expr_def reserved_cases)
next
  case (EStructLiteral x fs)
  show ?case
  proof (rule parses_backI)
    fix d rest
    assume d: "d + nesting (EStructLiteral x fs) \<le> MAX_NESTING_DEPTH"
    have "parses_back e \<and> d + Suc (nesting e) \<le> MAX_NESTING_DEPTH" if "(f, e) \<in> set fs" for f e
      using that EStructLiteral d
        fold_max_ge [of "Suc (nesting e)" "map (\<lambda>(f, e). Suc (nesting e)) fs" 0] by force
    thus "parse_primary (parse_expr d) (print_expr (EStructLiteral x fs) @ rest) =
        Inr (EStructLiteral x fs, rest)"
      using EStructLiteral.prems parses_back_fields [of fs d rest]
      by (simp add: parse_ident_expr_def reserved_cases)
  qed
next
  case (EIdent x)
  thus ?case
    by (intro parses_backI) (simp add: parse_ident_expr_def reserved_cases ends_primary_def)
next
  case (ECall f args)
  thus ?case by (intro parses_back_call) auto
qed (auto intro: parses_backI parses_back_field parses_back_binary)

end
