(* ===== verification/Sema_Typing.thy ===== *)
theory Sema_Typing
  imports Sema
begin

text \<open>
  A declarative type system for the contract language, and the proof that the analyser of
  \<open>sema.rs\<close> accepts exactly the contracts it types.  The rules know no unknown type: the analyser
  uses it to go on after an error, so in an accepted contract it never appears.
\<close>

section \<open>Typing rules\<close>

inductive typed :: "analyzer \<Rightarrow> type_env \<Rightarrow> expr \<Rightarrow> ty \<Rightarrow> bool" for st env where
  typed_int: "typed st env (EInt v) Ty_U64"
| typed_ident: "env x = Some t \<Longrightarrow> typed st env (EIdent x) t"
| typed_storage: "typed st env (EStorageRead x) Ty_U64"
| typed_mapping: "typed st env k t \<Longrightarrow> typed st env (EMappingRead x k) Ty_U64"
| typed_access: "typed st env b (Ty_Struct s) \<Longrightarrow> structs st s = Some sfields \<Longrightarrow> map_of sfields f = Some t \<Longrightarrow>
    typed st env (EFieldAccess b f) t"
| typed_literal: "structs st s = Some sfields \<Longrightarrow> distinct (map fst inits) \<Longrightarrow>
    set (map fst inits) = set (map fst sfields) \<Longrightarrow>
    \<forall>(f, e) \<in> set inits. \<exists>t. map_of sfields f = Some t \<and> typed st env e t \<Longrightarrow>
    typed st env (EStructLiteral s inits) (Ty_Struct s)"
| typed_call: "signatures st f = Some (params, r) \<Longrightarrow> list_all2 (typed st env) args params \<Longrightarrow>
    typed st env (ECall f args) r"
| typed_arith: "op \<in> {B_Add, B_Sub, B_Mul, B_Div} \<Longrightarrow> typed st env l t \<Longrightarrow> typed st env r t \<Longrightarrow>
    t \<in> {Ty_U64, Ty_Bool, Ty_Field} \<Longrightarrow> typed st env (EBinary l op r) t"
| typed_order: "op \<in> {B_Lt, B_Gt, B_Lte, B_Gte} \<Longrightarrow> typed st env l t \<Longrightarrow> typed st env r t \<Longrightarrow>
    t \<in> {Ty_U64, Ty_Bool, Ty_Field} \<Longrightarrow> typed st env (EBinary l op r) Ty_Bool"
| typed_equal: "op \<in> {B_Eq, B_Neq} \<Longrightarrow> typed st env l t \<Longrightarrow> typed st env r t \<Longrightarrow>
    typed st env (EBinary l op r) Ty_Bool"

inductive_simps typed_simps:
  "typed st env (EInt v) t"
  "typed st env (EIdent x) t"
  "typed st env (EStorageRead x) t"
  "typed st env (EMappingRead x k) t"
  "typed st env (EFieldAccess b f) t"
  "typed st env (EStructLiteral s inits) t"
  "typed st env (ECall f args) t"
  "typed st env (EBinary l op r) t"

text \<open>A type that can stand in a condition, and one \<open>match\<close> can inspect.\<close>

definition condition_type :: "ty \<Rightarrow> bool" where
  "condition_type t \<longleftrightarrow> t \<in> {Ty_U64, Ty_Bool, Ty_Field, Ty_Address, Ty_Hash32}"

inductive wt_stmt :: "analyzer \<Rightarrow> stmt \<Rightarrow> type_env \<Rightarrow> type_env \<Rightarrow> bool"
  and wt_stmts :: "analyzer \<Rightarrow> stmt list \<Rightarrow> type_env \<Rightarrow> type_env \<Rightarrow> bool"
  and wt_arms :: "analyzer \<Rightarrow> match_arm list \<Rightarrow> type_env \<Rightarrow> bool" for st where
  wt_let: "typed st env e t \<Longrightarrow> wt_stmt st (SLet x e) env (env(x \<mapsto> t))"
| wt_constrain: "typed st env e t \<Longrightarrow> condition_type t \<Longrightarrow> wt_stmt st (SConstrain e) env env"
| wt_assign: "env x = Some t \<Longrightarrow> typed st env e t \<Longrightarrow> wt_stmt st (SAssign x e) env env"
| wt_storage: "typed st env e t \<Longrightarrow> wt_stmt st (SStorageWrite x e) env env"
| wt_mapping: "typed st env k t \<Longrightarrow> typed st env e t' \<Longrightarrow> wt_stmt st (SMappingWrite x k e) env env"
| wt_if: "typed st env c t \<Longrightarrow> condition_type t \<Longrightarrow> wt_stmts st th env env1 \<Longrightarrow> wt_stmt st (SIf c th None) env env1"
| wt_if_else: "typed st env c t \<Longrightarrow> condition_type t \<Longrightarrow> wt_stmts st th env env1 \<Longrightarrow> wt_stmts st el env1 env2 \<Longrightarrow>
    wt_stmt st (SIf c th (Some el)) env env2"
| wt_while: "typed st env c t \<Longrightarrow> condition_type t \<Longrightarrow> wt_stmts st body env env1 \<Longrightarrow> wt_stmt st (SWhile c body) env env1"
| wt_for: "typed st env a t \<Longrightarrow> typed st env b t' \<Longrightarrow> wt_stmts st body (env(x \<mapsto> Ty_U64)) env1 \<Longrightarrow>
    wt_stmt st (SFor x a b body) env env"
| wt_return_void: "current_func_ret st = Ty_Void \<Longrightarrow> wt_stmt st (SReturn None) env env"
| wt_return: "typed st env e (current_func_ret st) \<Longrightarrow> wt_stmt st (SReturn (Some e)) env env"
| wt_emit: "\<forall>a \<in> set args. \<exists>t. typed st env a t \<Longrightarrow> wt_stmt st (SEmit x args) env env"
| wt_match: "typed st env e t \<Longrightarrow> t = Ty_U64 \<or> t = Ty_Bool \<Longrightarrow> wt_arms st arms env \<Longrightarrow> wt_stmt st (SMatch e arms) env env"
| wt_expr: "typed st env e t \<Longrightarrow> wt_stmt st (SExpr e) env env"
| wt_nil: "wt_stmts st [] env env"
| wt_cons: "wt_stmt st s env env1 \<Longrightarrow> wt_stmts st ss env1 env2 \<Longrightarrow> wt_stmts st (s # ss) env env2"
| wt_no_arm: "wt_arms st [] env"
| wt_arm: "wt_stmts st body env env1 \<Longrightarrow> wt_arms st arms env \<Longrightarrow> wt_arms st (MatchArm p body # arms) env"

inductive_simps wt_simps:
  "wt_stmt st (SLet x e) env env'"
  "wt_stmt st (SConstrain e) env env'"
  "wt_stmt st (SAssign x e) env env'"
  "wt_stmt st (SStorageWrite x e) env env'"
  "wt_stmt st (SMappingWrite x k e) env env'"
  "wt_stmt st (SIf c th el) env env'"
  "wt_stmt st (SWhile c body) env env'"
  "wt_stmt st (SFor x a b body) env env'"
  "wt_stmt st (SReturn e) env env'"
  "wt_stmt st (SEmit x args) env env'"
  "wt_stmt st (SMatch e arms) env env'"
  "wt_stmt st (SExpr e) env env'"
  "wt_stmts st [] env env'"
  "wt_stmts st (s # ss) env env'"
  "wt_arms st [] env"
  "wt_arms st (MatchArm p body # arms) env"

section \<open>Well-formed contexts\<close>

definition known :: "analyzer \<Rightarrow> ty \<Rightarrow> bool" where
  "known st t \<longleftrightarrow> t \<noteq> Ty_Unknown \<and> (\<forall>n. t = Ty_Struct n \<longrightarrow> structs st n \<noteq> None)"

definition wf_analyzer :: "analyzer \<Rightarrow> bool" where
  "wf_analyzer st \<longleftrightarrow> (\<forall>s sfields f t. structs st s = Some sfields \<longrightarrow> (f, t) \<in> set sfields \<longrightarrow> known st t) \<and>
     (\<forall>s sfields. structs st s = Some sfields \<longrightarrow> distinct (map fst sfields)) \<and>
     (\<forall>f params r. signatures st f = Some (params, r) \<longrightarrow> known st r \<and> list_all (known st) params) \<and>
     known st (current_func_ret st)"

definition wf_env :: "analyzer \<Rightarrow> type_env \<Rightarrow> bool" where
  "wf_env st env \<longleftrightarrow> (\<forall>x t. env x = Some t \<longrightarrow> known st t)"

lemma known_simps [simp]:
  "known st Ty_U64" "known st Ty_Bool" "known st Ty_Field" "known st Ty_Address" "known st Ty_Hash32" "known st Ty_Void"
  "\<not> known st Ty_Unknown" "known st (Ty_Struct s) \<longleftrightarrow> structs st s \<noteq> None"
  by (simp_all add: known_def)

section \<open>Expressions\<close>

lemma repeated_errors_Nil: "repeated_errors name seen fs = [] \<longleftrightarrow> distinct fs \<and> set fs \<inter> seen = {}"
  by (induction fs arbitrary: seen) auto

lemma missing_errors_Nil: "missing_errors name sfields provided = [] \<longleftrightarrow> set (map fst sfields) \<subseteq> set provided"
  by (auto simp: missing_errors_def filter_empty_conv)

lemma init_errors_Nil:
  "init_errors sfields f t = [] \<longleftrightarrow> (\<exists>t'. map_of sfields f = Some t' \<and> (t = t' \<or> t = Ty_Unknown))"
  by (auto simp: init_errors_def split: option.splits)

lemma mismatch_known: "known st a \<Longrightarrow> known st b \<Longrightarrow> mismatch a b \<longleftrightarrow> a \<noteq> b"
  by (auto simp: mismatch_def)

lemma argument_errors_Nil:
  assumes "length params = length args" "list_all (known st) params" "list_all (known st) args"
  shows "argument_errors name params args = [] \<longleftrightarrow> args = params"
proof -
  have "argument_errors name params args = [] \<longleftrightarrow> (\<forall>i < length params. \<not> mismatch (params ! i) (args ! i))"
  proof -
    have "argument_errors name params args = [] \<longleftrightarrow>
        (\<forall>x \<in> set (zip [0..<length params] (zip params args)). \<not> mismatch (fst (snd x)) (snd (snd x)))"
      by (auto simp: argument_errors_def)
    thus ?thesis using assms(1) by (simp add: all_set_conv_all_nth)
  qed
  also have "\<dots> \<longleftrightarrow> (\<forall>i < length params. params ! i = args ! i)"
    using assms by (auto simp: list_all_length mismatch_known [of st])
  also have "\<dots> \<longleftrightarrow> args = params" using assms(1) by (auto simp: list_eq_iff_nth_eq)
  finally show ?thesis .
qed

lemma binary_errors_Nil:
  assumes "known st l" "known st r"
  shows "binary_errors op l r = [] \<longleftrightarrow> l = r \<and> (op \<in> {B_Eq, B_Neq} \<or> l \<in> {Ty_U64, Ty_Bool, Ty_Field})"
proof -
  have "operand_errors op t = [] \<longleftrightarrow> t \<in> {Ty_U64, Ty_Bool, Ty_Field}" if "known st t" for t
    using that by (cases t) (auto simp: operand_errors_def is_struct_or_void_def is_opaque_bytes32_def)
  thus ?thesis using assms mismatch_known [OF assms]
    by (auto simp: binary_errors_def arithmetic_or_ordering_def)
qed

text \<open>What the analyser says of an expression, against the rules.\<close>

definition agrees :: "analyzer \<Rightarrow> type_env \<Rightarrow> expr \<Rightarrow> bool" where
  "agrees st env e \<longleftrightarrow>
     (\<forall>t. analyze_expr st env e = (t, []) \<longleftrightarrow> typed st env e t) \<and> (\<forall>t. typed st env e t \<longrightarrow> known st t)"

lemma agreesD:
  assumes "agrees st env e"
  shows "snd (analyze_expr st env e) = [] \<longleftrightarrow> typed st env e (fst (analyze_expr st env e))"
    "typed st env e t \<longleftrightarrow> snd (analyze_expr st env e) = [] \<and> fst (analyze_expr st env e) = t"
    "snd (analyze_expr st env e) = [] \<Longrightarrow> known st (fst (analyze_expr st env e))"
  using assms by (auto simp: agrees_def prod_eq_iff)

lemma agreesI:
  assumes "\<And>t. typed st env e t \<longleftrightarrow> snd (analyze_expr st env e) = [] \<and> fst (analyze_expr st env e) = t"
    and "snd (analyze_expr st env e) = [] \<Longrightarrow> known st (fst (analyze_expr st env e))"
  shows "agrees st env e"
  using assms by (auto simp: agrees_def prod_eq_iff)

lemma agrees_access:
  assumes wf: "wf_analyzer st" and b: "agrees st env b"
  shows "agrees st env (EFieldAccess b f)"
proof (cases "snd (analyze_expr st env b) = []")
  case True
  let ?t = "fst (analyze_expr st env b)"
  have b': "typed st env b t \<longleftrightarrow> ?t = t" for t using agreesD(2) [OF b] True by simp
  have k: "known st ?t" using agreesD(3) [OF b True] .
  show ?thesis
  proof (rule agreesI)
    fix t
    show "typed st env (EFieldAccess b f) t \<longleftrightarrow>
        snd (analyze_expr st env (EFieldAccess b f)) = [] \<and> fst (analyze_expr st env (EFieldAccess b f)) = t"
      using k True by (auto simp: typed_simps b' access_result_def split: prod.splits ty.splits option.splits)
  next
    assume "snd (analyze_expr st env (EFieldAccess b f)) = []"
    thus "known st (fst (analyze_expr st env (EFieldAccess b f)))"
      using k wf True
      by (auto simp: access_result_def wf_analyzer_def dest!: map_of_SomeD split: prod.splits ty.splits option.splits)
  qed
next
  case False
  thus ?thesis using agreesD(2) [OF b] by (intro agreesI) (auto simp: typed_simps split: prod.splits)
qed

lemma agrees_binary:
  assumes l: "agrees st env l" and r: "agrees st env r"
  shows "agrees st env (EBinary l op r)"
proof (cases "snd (analyze_expr st env l) = [] \<and> snd (analyze_expr st env r) = []")
  case True
  let ?l = "fst (analyze_expr st env l)" and ?r = "fst (analyze_expr st env r)"
  have k: "known st ?l" "known st ?r" using agreesD(3) [OF l] agreesD(3) [OF r] True by simp_all
  have "snd (analyze_expr st env (EBinary l op r)) = binary_errors op ?l ?r"
    "fst (analyze_expr st env (EBinary l op r)) = binary_type op ?l"
    using True by (simp_all add: split_beta)
  moreover have "typed st env l t \<longleftrightarrow> ?l = t" "typed st env r t \<longleftrightarrow> ?r = t" for t
    using agreesD(2) [OF l] agreesD(2) [OF r] True by simp_all
  ultimately show ?thesis using k
    by (intro agreesI; cases op)
      (auto simp: typed_simps binary_errors_Nil [OF k] binary_type_def is_comparison_def)
next
  case False
  hence "snd (analyze_expr st env (EBinary l op r)) \<noteq> []" by (auto simp: split_beta)
  moreover have "\<not> typed st env (EBinary l op r) t" for t
    using False agreesD(2) [OF l] agreesD(2) [OF r] by (auto simp: typed_simps)
  ultimately show ?thesis by (intro agreesI) simp_all
qed

lemma agrees_init:
  assumes "agrees st env e"
  shows "(case analyze_expr st env e of (t, errs) \<Rightarrow> errs @ init_errors sfields f t) = [] \<longleftrightarrow>
    (\<exists>t. map_of sfields f = Some t \<and> typed st env e t)"
  using agreesD(2,3) [OF assms] by (fastforce simp: init_errors_Nil split: prod.splits)

lemma agrees_literal:
  assumes "\<And>f e. (f, e) \<in> set inits \<Longrightarrow> agrees st env e"
  shows "agrees st env (EStructLiteral s inits)"
proof (cases "structs st s")
  case None
  thus ?thesis by (intro agreesI) (simp_all add: typed_simps)
next
  case (Some sfields)
  define errs where "errs = concat (map (\<lambda>(f, e). case analyze_expr st env e of (t, errs) \<Rightarrow> errs @ init_errors sfields f t) inits)"
  have inits: "errs = [] \<longleftrightarrow> (\<forall>(f, e) \<in> set inits. \<exists>t. map_of sfields f = Some t \<and> typed st env e t)"
    unfolding errs_def using agrees_init [OF assms] by fastforce
  have declared: "set (map fst inits) \<subseteq> set (map fst sfields)" if "errs = []"
    using that inits by (fastforce dest: map_of_SomeD intro: rev_image_eqI)
  have "analyze_expr st env (EStructLiteral s inits) = (Ty_Struct s,
      errs @ missing_errors s sfields (map fst inits) @ repeated_errors s {} (map fst inits))"
    using Some by (simp add: errs_def)
  moreover have "typed st env (EStructLiteral s inits) t \<longleftrightarrow> t = Ty_Struct s \<and> errs = [] \<and>
      set (map fst sfields) \<subseteq> set (map fst inits) \<and> distinct (map fst inits)" for t
    using declared by (auto simp: typed_simps Some inits)
  ultimately show ?thesis
    by (intro agreesI) (auto simp: missing_errors_Nil repeated_errors_Nil Some)
qed

lemma agrees_call:
  assumes wf: "wf_analyzer st" and args: "\<And>e. e \<in> set args \<Longrightarrow> agrees st env e"
  shows "agrees st env (ECall f args)"
proof (cases "signatures st f")
  case None
  thus ?thesis by (intro agreesI) (simp_all add: typed_simps call_result_def)
next
  case (Some sig)
  obtain params r where sig: "sig = (params, r)" by (cases sig)
  let ?ts = "map (\<lambda>e. fst (analyze_expr st env e)) args" and ?ok = "\<forall>e \<in> set args. snd (analyze_expr st env e) = []"
  have k: "known st r" "list_all (known st) params" using wf Some sig by (auto simp: wf_analyzer_def)
  have typed: "list_all2 (typed st env) args params \<longleftrightarrow> ?ok \<and> ?ts = params"
    unfolding list_all2_conv_all_nth list_eq_iff_nth_eq all_set_conv_all_nth
    using agreesD(2) [OF args] by auto
  have "?ok \<Longrightarrow> list_all (known st) ?ts" using agreesD(3) [OF args] by (simp add: list_all_iff)
  hence errs: "snd (call_result st f ?ts) = [] \<longleftrightarrow> ?ts = params" if "?ok"
    using argument_errors_Nil [of params ?ts st f] k that
    by (auto simp: call_result_def Some sig simp del: map_eq_conv dest: arg_cong [of _ _ length])
  have "analyze_expr st env (ECall f args) =
      (r, concat (map (\<lambda>e. snd (analyze_expr st env e)) args) @ snd (call_result st f ?ts))"
    by (simp add: split_beta call_result_def Some sig o_def)
  moreover have "typed st env (ECall f args) t \<longleftrightarrow> t = r \<and> ?ok \<and> ?ts = params" for t
    using typed by (auto simp: typed_simps Some sig)
  ultimately show ?thesis using errs k by (intro agreesI) auto
qed

lemma agrees_expr:
  assumes "wf_analyzer st" "wf_env st env"
  shows "agrees st env e"
proof (induction e)
  case (EMappingRead x k)
  thus ?case using agreesD(2) [OF EMappingRead] by (intro agreesI) (auto simp: typed_simps)
next
  case (EStructLiteral s inits)
  thus ?case by (intro agrees_literal) fastforce
next
  case (ECall f args)
  thus ?case by (intro agrees_call [OF assms(1)])
next
  case (EFieldAccess b f)
  thus ?case by (rule agrees_access [OF assms(1)])
next
  case (EBinary l op r)
  thus ?case by (rule agrees_binary)
qed (use assms in \<open>auto intro!: agreesI simp: typed_simps wf_env_def split: option.splits\<close>)

lemma analyze_expr_typed:
  assumes "wf_analyzer st" "wf_env st env"
  shows "snd (analyze_expr st env e) = [] \<longleftrightarrow> (\<exists>t. typed st env e t)"
    "typed st env e t \<longleftrightarrow> analyze_expr st env e = (t, [])"
    "typed st env e t \<Longrightarrow> known st t"
  using agreesD(2,3) [OF agrees_expr [OF assms], of e] by (auto simp: prod_eq_iff)

section \<open>Statements\<close>

lemma condition_errors_Nil: "known st t \<Longrightarrow> check_condition_type t ctx = [] \<longleftrightarrow> condition_type t"
  by (cases t) (auto simp: check_condition_type_def is_struct_or_void_def condition_type_def)

text \<open>The analyser's verdict on a statement is the judgement, and it keeps the environment well formed.\<close>

definition verdict :: "analyzer \<Rightarrow> (type_env \<Rightarrow> type_env \<times> sema_error list) \<Rightarrow> (type_env \<Rightarrow> type_env \<Rightarrow> bool) \<Rightarrow> bool" where
  "verdict st check wt \<longleftrightarrow> (\<forall>env. wf_env st env \<longrightarrow>
     (\<forall>env'. check env = (env', []) \<longleftrightarrow> wt env env') \<and> (\<forall>env'. wt env env' \<longrightarrow> wf_env st env'))"

lemma verdictI:
  assumes "\<And>env env'. wf_env st env \<Longrightarrow> wt env env' \<longleftrightarrow> snd (check env) = [] \<and> fst (check env) = env'"
    and "\<And>env. wf_env st env \<Longrightarrow> snd (check env) = [] \<Longrightarrow> wf_env st (fst (check env))"
  shows "verdict st check wt"
  using assms by (auto simp: verdict_def prod_eq_iff)

lemma verdictD:
  assumes "verdict st check wt" "wf_env st env"
  shows "wt env env' \<longleftrightarrow> snd (check env) = [] \<and> fst (check env) = env'"
    "snd (check env) = [] \<Longrightarrow> wf_env st (fst (check env))"
  using assms by (auto simp: verdict_def prod_eq_iff)

lemma wf_env_update [simp]: "wf_env st env \<Longrightarrow> known st t \<Longrightarrow> wf_env st (env(x \<mapsto> t))"
  by (auto simp: wf_env_def)

lemma typed_split:
  assumes "wf_analyzer st" "wf_env st env"
  shows "typed st env e t \<longleftrightarrow> snd (analyze_expr st env e) = [] \<and> fst (analyze_expr st env e) = t"
    and "snd (analyze_expr st env e) = [] \<Longrightarrow> known st (fst (analyze_expr st env e))"
  using agreesD(2,3) [OF agrees_expr [OF assms]] by auto

lemma condition_split:
  assumes "wf_analyzer st" "wf_env st env"
  shows "(\<exists>t. typed st env e t \<and> condition_type t) \<longleftrightarrow>
    snd (analyze_expr st env e) = [] \<and> check_condition_type (fst (analyze_expr st env e)) ctx = []"
  using typed_split [OF assms, of e] condition_errors_Nil [of st "fst (analyze_expr st env e)" ctx] by auto

lemma verdict_stmts:
  assumes "\<And>s. s \<in> set ss \<Longrightarrow> verdict st (analyze_stmt st s) (wt_stmt st s)"
  shows "verdict st (analyze_stmts st ss) (wt_stmts st ss)"
  using assms
proof (induction ss)
  case Nil
  show ?case by (rule verdictI) (auto simp: wt_simps)
next
  case (Cons s ss)
  have s: "verdict st (analyze_stmt st s) (wt_stmt st s)" and ss: "verdict st (analyze_stmts st ss) (wt_stmts st ss)"
    using Cons by simp_all
  show ?case
  proof (rule verdictI)
    fix env env'
    assume env: "wf_env st env"
    show "wt_stmts st (s # ss) env env' \<longleftrightarrow>
        snd (analyze_stmts st (s # ss) env) = [] \<and> fst (analyze_stmts st (s # ss) env) = env'"
      using verdictD [OF s env] verdictD(1) [OF ss] by (auto simp: wt_simps split_beta)
  next
    fix env
    assume "wf_env st env" "snd (analyze_stmts st (s # ss) env) = []"
    thus "wf_env st (fst (analyze_stmts st (s # ss) env))"
      using verdictD(2) [OF s] verdictD(2) [OF ss] by (simp add: split_beta)
  qed
qed

lemma verdict_arms:
  assumes "\<And>p body. MatchArm p body \<in> set arms \<Longrightarrow> verdict st (analyze_stmts st body) (wt_stmts st body)" "wf_env st env"
  shows "analyze_arms st arms env = [] \<longleftrightarrow> wt_arms st arms env"
  using assms(1)
proof (induction arms)
  case (Cons arm arms)
  obtain p body where arm: "arm = MatchArm p body" by (cases arm)
  have body: "verdict st (analyze_stmts st body) (wt_stmts st body)" by (rule Cons.prems [of p]) (simp add: arm)
  have "analyze_arms st arms env = [] \<longleftrightarrow> wt_arms st arms env" using Cons.prems by (intro Cons.IH) auto
  thus ?case using verdictD(1) [OF body assms(2)] by (auto simp: wt_simps arm)
qed (simp add: wt_simps)

lemma verdict_stmt:
  assumes wf: "wf_analyzer st"
  shows "verdict st (analyze_stmt st s) (wt_stmt st s)"
    "case arm of MatchArm p body \<Rightarrow> verdict st (analyze_stmts st body) (wt_stmts st body)"
proof (induction s and arm)
  case (SLet x e)
  show ?case using typed_split [OF wf] by (intro verdictI) (auto simp: wt_simps split_beta)
next
  case (SConstrain e)
  show ?case using condition_split [OF wf, of _ e "''constrain''"]
    by (intro verdictI) (auto simp: wt_simps split_beta)
next
  case (SAssign x e)
  show ?case
  proof (rule verdictI)
    fix env env'
    assume env: "wf_env st env"
    show "wt_stmt st (SAssign x e) env env' \<longleftrightarrow>
        snd (analyze_stmt st (SAssign x e) env) = [] \<and> fst (analyze_stmt st (SAssign x e) env) = env'"
    proof (cases "env x")
      case (Some t)
      have "known st t" using env Some by (simp add: wf_env_def)
      thus ?thesis using typed_split [OF wf env, of e] mismatch_known [of st "fst (analyze_expr st env e)" t] Some
        by (auto simp: wt_simps split_beta)
    qed (auto simp: wt_simps split_beta)
  qed (simp add: split_beta)
next
  case (SStorageWrite x e)
  show ?case using typed_split [OF wf] by (intro verdictI) (auto simp: wt_simps)
next
  case (SMappingWrite x k e)
  show ?case using typed_split [OF wf] by (intro verdictI) (auto simp: wt_simps)
next
  case (SIf c th el)
  have th: "verdict st (analyze_stmts st th) (wt_stmts st th)" using SIf by (intro verdict_stmts)
  have el: "verdict st (analyze_stmts st eb) (wt_stmts st eb)" if "el = Some eb" for eb
    using SIf that by (intro verdict_stmts) auto
  show ?case
  proof (rule verdictI)
    fix env env'
    assume env: "wf_env st env"
    show "wt_stmt st (SIf c th el) env env' \<longleftrightarrow>
        snd (analyze_stmt st (SIf c th el) env) = [] \<and> fst (analyze_stmt st (SIf c th el) env) = env'"
      using condition_split [OF wf env, of c "''if''"] verdictD [OF th env] verdictD(1) [OF el]
      by (cases el) (auto simp: wt_simps split_beta)
  next
    fix env
    assume "wf_env st env" "snd (analyze_stmt st (SIf c th el) env) = []"
    thus "wf_env st (fst (analyze_stmt st (SIf c th el) env))"
      using verdictD(2) [OF th] verdictD(2) [OF el] by (cases el) (simp_all add: split_beta)
  qed
next
  case (SWhile c body)
  have body: "verdict st (analyze_stmts st body) (wt_stmts st body)" using SWhile by (intro verdict_stmts)
  show ?case using condition_split [OF wf, of _ c "''while''"] verdictD [OF body]
    by (intro verdictI) (auto simp: wt_simps split_beta)
next
  case (SFor x a b body)
  have body: "verdict st (analyze_stmts st body) (wt_stmts st body)" using SFor by (intro verdict_stmts)
  show ?case using typed_split [OF wf] verdictD(1) [OF body wf_env_update]
    by (intro verdictI) (auto simp: wt_simps split_beta)
next
  case (SReturn e)
  have "known st (current_func_ret st)" using wf by (simp add: wf_analyzer_def)
  thus ?case using typed_split [OF wf] mismatch_known [of st _ "current_func_ret st"]
    by (intro verdictI; cases e) (auto simp: wt_simps split_beta Let_def)
next
  case (SEmit x args)
  show ?case using typed_split [OF wf] by (intro verdictI) (auto simp: wt_simps)
next
  case (SMatch e arms)
  have "verdict st (analyze_stmts st body) (wt_stmts st body)" if "MatchArm p body \<in> set arms" for p body
    using SMatch [OF that] by simp
  hence "wf_env st env \<Longrightarrow> analyze_arms st arms env = [] \<longleftrightarrow> wt_arms st arms env" for env by (rule verdict_arms)
  thus ?case using typed_split [OF wf] by (intro verdictI) (auto simp: wt_simps split_beta)
next
  case (SExpr e)
  show ?case using typed_split [OF wf] by (intro verdictI) (auto simp: wt_simps)
next
  case (MatchArm p body)
  thus ?case by (simp add: verdict_stmts)
qed

section \<open>Contracts\<close>

definition valid_type :: "analyzer \<Rightarrow> string \<Rightarrow> bool" where
  "valid_type st s \<longleftrightarrow> (\<exists>t. from_str s = Inr t \<and> known st t)"

definition valid_signature :: "analyzer \<Rightarrow> function_decl \<Rightarrow> bool" where
  "valid_signature st f \<longleftrightarrow> (\<forall>p \<in> set (fn_params f). valid_type st (param_ty p)) \<and>
     (\<forall>r. return_type f = Some r \<longrightarrow> valid_type st r)"

definition globals :: "contract \<Rightarrow> analyzer \<Rightarrow> analyzer" where
  "globals contract st = register_builtins (fold register_function (contract_functions contract) st)"

definition well_typed_function :: "analyzer \<Rightarrow> function_decl \<Rightarrow> bool" where
  "well_typed_function st f \<longleftrightarrow>
     (\<exists>env. wt_stmts (st\<lparr>current_func_ret := return_type_of f\<rparr>) (fn_body f) (param_env (fn_params f)) env)"

definition well_typed :: "contract \<Rightarrow> bool" where
  "well_typed contract \<longleftrightarrow> (\<exists>st. register_structs (contract_structs contract) analyzer_new = Inr st \<and>
     (\<forall>s \<in> set (contract_structs contract). \<forall>f \<in> set (struct_fields s). valid_type st (field_ty f)) \<and>
     (\<forall>f \<in> set (contract_functions contract). valid_signature st f \<and> well_typed_function (globals contract st) f))"

lemma from_str_known: "from_str s = Inr t \<Longrightarrow> t \<noteq> Ty_Unknown"
  by (auto simp: from_str_def split: if_splits option.splits)

lemma declared_type_errors_Nil: "declared_type_errors st ctx s = [] \<longleftrightarrow> valid_type st s"
proof (cases "from_str s")
  case (Inr t)
  thus ?thesis using from_str_known [OF Inr]
    by (cases t) (auto simp: declared_type_errors_def valid_type_def check_struct_type_def)
qed (auto simp: declared_type_errors_def valid_type_def)

lemma signature_errors_Nil: "signature_errors st f = [] \<longleftrightarrow> valid_signature st f"
  by (auto simp: signature_errors_def valid_signature_def declared_type_errors_Nil split: option.splits)

lemma valid_type_known: "valid_type st s \<Longrightarrow> known st (from_str_or_unknown s)"
  by (auto simp: valid_type_def from_str_or_unknown_def)

text \<open>The registered state.\<close>

lemma register_fields_inv:
  assumes "register_fields fs acc = Inr sfields" "distinct (map fst acc)" "\<forall>(f, t) \<in> set acc. Q t"
    and "\<And>f t. f \<in> set fs \<Longrightarrow> from_str (field_ty f) = Inr t \<Longrightarrow> Q t"
  shows "distinct (map fst sfields) \<and> (\<forall>(f, t) \<in> set sfields. Q t)"
  using assms
proof (induction fs arbitrary: acc)
  case (Cons f fs)
  obtain t where t: "from_str (field_ty f) = Inr t" "register_fields fs (AList.update (field_name f) t acc) = Inr sfields"
    using Cons.prems(1) by (auto split: sum.splits)
  have "set (AList.update k v al) \<subseteq> insert (k, v) (set al)" for k v and al :: "(string \<times> ty) list"
    by (induction al) auto
  hence "\<forall>(f, t) \<in> set (AList.update (field_name f) t acc). Q t" using Cons.prems(3,4) t(1) by fastforce
  thus ?case using Cons.prems(2,4) by (intro Cons.IH [OF t(2)]) (auto simp: distinct_update)
qed simp

lemma register_structs_inv:
  assumes "register_structs ss st = Inr st'"
    and "\<forall>s sfields. structs st s = Some sfields \<longrightarrow> distinct (map fst sfields) \<and> (\<forall>(f, t) \<in> set sfields. Q t)"
    and "\<And>s f t. s \<in> set ss \<Longrightarrow> f \<in> set (struct_fields s) \<Longrightarrow> from_str (field_ty f) = Inr t \<Longrightarrow> Q t"
  shows "(\<forall>s sfields. structs st' s = Some sfields \<longrightarrow> distinct (map fst sfields) \<and> (\<forall>(f, t) \<in> set sfields. Q t)) \<and>
    signatures st' = signatures st"
  using assms
proof (induction ss arbitrary: st)
  case (Cons s ss)
  obtain sfields where r: "register_fields (struct_fields s) [] = Inr sfields"
      "register_structs ss (st\<lparr>structs := (structs st)(struct_name s \<mapsto> sfields)\<rparr>) = Inr st'"
    using Cons.prems(1) by (auto split: sum.splits)
  have "distinct (map fst sfields) \<and> (\<forall>(f, t) \<in> set sfields. Q t)"
    using Cons.prems(3) by (intro register_fields_inv [OF r(1)]) auto
  hence 1: "\<forall>x sf. structs (st\<lparr>structs := (structs st)(struct_name s \<mapsto> sfields)\<rparr>) x = Some sf \<longrightarrow>
      distinct (map fst sf) \<and> (\<forall>(f, t) \<in> set sf. Q t)"
    using Cons.prems(2) by simp
  have 2: "Q t" if "x \<in> set ss" "f \<in> set (struct_fields x)" "from_str (field_ty f) = Inr t" for x f t
    using that by (intro Cons.prems(3) [of x f t]) simp_all
  show ?case using Cons.IH [OF r(2) 1 2] by simp
qed simp

lemma globals_simps [simp]: "structs (globals contract st) = structs st" "known (globals contract st) = known st"
    "known (st\<lparr>current_func_ret := t\<rparr>) = known st"
proof -
  have "structs (fold register_function fs st) = structs st" for fs
    by (induction fs arbitrary: st) (simp_all add: register_function_def)
  thus "structs (globals contract st) = structs st" by (simp add: globals_def register_builtins_def)
  thus "known (globals contract st) = known st" by (intro ext) (simp add: known_def)
qed (intro ext, simp add: known_def)

lemma signatures_fold:
  assumes "signatures (fold register_function fs st) x = Some sig"
  shows "signatures st x = Some sig \<or> (\<exists>f \<in> set fs. sig = (map (\<lambda>p. from_str_or_unknown (param_ty p)) (fn_params f), return_type_of f))"
  using assms
proof (induction fs arbitrary: st)
  case (Cons f fs)
  thus ?case using Cons.IH [of "register_function f st"] by (auto simp: register_function_def split: if_splits)
qed simp

lemma valid_signature_known:
  assumes "valid_signature st f"
  shows "known st (return_type_of f)" "list_all (known st) (map (\<lambda>p. from_str_or_unknown (param_ty p)) (fn_params f))"
  using assms by (auto simp: valid_signature_def return_type_of_def list_all_iff intro: valid_type_known split: option.splits)

lemma wf_globals:
  assumes reg: "register_structs (contract_structs contract) analyzer_new = Inr st"
    and fields: "\<forall>s \<in> set (contract_structs contract). \<forall>f \<in> set (struct_fields s). valid_type st (field_ty f)"
    and sigs: "\<forall>f \<in> set (contract_functions contract). valid_signature st f" and ret: "known st t"
  shows "wf_analyzer ((globals contract st)\<lparr>current_func_ret := t\<rparr>)"
proof -
  have "known st t" if "s \<in> set (contract_structs contract)" "f \<in> set (struct_fields s)" "from_str (field_ty f) = Inr t" for s f t
    using fields that by (force simp: valid_type_def)
  hence inv: "(\<forall>s sfields. structs st s = Some sfields \<longrightarrow> distinct (map fst sfields) \<and> (\<forall>(f, t) \<in> set sfields. known st t)) \<and>
      signatures st = signatures analyzer_new"
    by (intro register_structs_inv [OF reg]) (simp_all add: analyzer_new_def)
  hence st: "structs st s = Some sfields \<Longrightarrow> distinct (map fst sfields) \<and> (\<forall>(f, t) \<in> set sfields. known st t)"
      "signatures st = Map.empty" for s sfields
    by (simp_all add: analyzer_new_def)
  have "known st r \<and> list_all (known st) params" if sig: "signatures (globals contract st) x = Some (params, r)" for x params r
  proof -
    let ?m = "signatures (fold register_function (contract_functions contract) st)"
    consider "?m x = Some (params, r)" | "known st r \<and> list_all (known st) params"
      using sig by (auto simp: globals_def register_builtins_def split: if_splits)
    thus ?thesis
    proof cases
      case 1
      then obtain f where "f \<in> set (contract_functions contract)"
          "(params, r) = (map (\<lambda>p. from_str_or_unknown (param_ty p)) (fn_params f), return_type_of f)"
        using signatures_fold [of "contract_functions contract" st x] st(2) by fastforce
      thus ?thesis using sigs valid_signature_known [of st f] by simp
    qed
  qed
  thus ?thesis using st(1) ret by (fastforce simp: wf_analyzer_def)
qed

lemma wf_param_env:
  assumes "valid_signature st f"
  shows "wf_env st (param_env (fn_params f))"
proof -
  have "wf_env st (fold (\<lambda>p env. env(param_name p \<mapsto> from_str_or_unknown (param_ty p))) ps env)"
    if "\<forall>p \<in> set ps. valid_type st (param_ty p)" "wf_env st env" for ps env
    using that by (induction ps arbitrary: env) (simp_all add: valid_type_known)
  moreover have "wf_env st Map.empty" by (simp add: wf_env_def)
  ultimately show ?thesis using assms unfolding param_env_def valid_signature_def by blast
qed

lemma analyze_functions_Nil:
  "snd (analyze_functions fs st) = [] \<longleftrightarrow>
   (\<forall>f \<in> set fs. snd (analyze_stmts (st\<lparr>current_func_ret := return_type_of f\<rparr>) (fn_body f) (param_env (fn_params f))) = [])"
  by (induction fs arbitrary: st) (simp_all add: analyze_function_def split_beta Let_def)

lemma well_typed_function_Nil:
  assumes "register_structs (contract_structs contract) analyzer_new = Inr st"
    and "\<forall>s \<in> set (contract_structs contract). \<forall>f \<in> set (struct_fields s). valid_type st (field_ty f)"
    and "\<forall>f \<in> set (contract_functions contract). valid_signature st f" and f: "f \<in> set (contract_functions contract)"
  shows "snd (analyze_stmts ((globals contract st)\<lparr>current_func_ret := return_type_of f\<rparr>) (fn_body f) (param_env (fn_params f))) = []
    \<longleftrightarrow> well_typed_function (globals contract st) f"
proof -
  let ?st = "(globals contract st)\<lparr>current_func_ret := return_type_of f\<rparr>"
  have sig: "valid_signature st f" using assms by simp
  have wf: "wf_analyzer ?st" using valid_signature_known(1) [OF sig] by (rule wf_globals [OF assms(1-3)])
  have "wf_env ?st (param_env (fn_params f))" using wf_param_env [OF sig] by (simp add: wf_env_def)
  from verdictD(1) [OF verdict_stmts this, OF verdict_stmt(1) [OF wf]]
  show ?thesis by (simp add: well_typed_function_def)
qed

lemma analyze_iff_well_typed: "(\<exists>st. analyze contract analyzer_new = Inr st) \<longleftrightarrow> well_typed contract"
proof (cases "register_structs (contract_structs contract) analyzer_new")
  case (Inr st)
  let ?st = "globals contract st" and ?fs = "contract_functions contract"
  have "(\<exists>st. analyze contract analyzer_new = Inr st) \<longleftrightarrow> field_type_errors st (contract_structs contract) = [] \<and>
      concat (map (signature_errors st) ?fs) = [] \<and> snd (analyze_functions ?fs ?st) = []"
  proof -
    have "(\<exists>st. (case es of [] \<Rightarrow> Inr a | e # _ \<Rightarrow> Inl e) = Inr st) \<longleftrightarrow> es = []" for es :: "sema_error list" and a :: analyzer
      by (cases es) simp_all
    thus ?thesis by (simp add: analyze_def Inr globals_def Let_def split_beta)
  qed
  also have "\<dots> \<longleftrightarrow> (\<forall>s \<in> set (contract_structs contract). \<forall>f \<in> set (struct_fields s). valid_type st (field_ty f)) \<and>
      (\<forall>f \<in> set ?fs. valid_signature st f) \<and> snd (analyze_functions ?fs ?st) = []"
    by (simp add: field_type_errors_def declared_type_errors_Nil signature_errors_Nil)
  also have "\<dots> \<longleftrightarrow> well_typed contract"
    using well_typed_function_Nil [OF Inr] by (auto simp: well_typed_def Inr analyze_functions_Nil)
  finally show ?thesis .
qed (simp add: analyze_def well_typed_def)

end
