(* ===== verification/Compiler_Props.thy ===== *)
theory Compiler_Props
  imports Codegen_Main Parser_Print Sema_Typing
begin

text \<open>
  The properties of the contract compiler: end-to-end correctness of compiled contracts, totality of
  the parser and its round trip with a printer, the type checker against its declarative rules, and contracts whose generated
  code does not do what their statements say.
\<close>

section \<open>Compiled contracts\<close>

text \<open>A counting contract, as tokens.\<close>

definition counter_tokens :: "token list" where
  "counter_tokens =
     [T_Contract, T_Ident ''Counter'', T_BraceOpen,
      T_Storage, T_BraceOpen, T_Ident ''total'', T_Colon, T_Ident ''u64'', T_Comma, T_BraceClose,
      T_Fn, T_Ident ''main'', T_ParenOpen, T_ParenClose, T_BraceOpen,
      T_Let, T_Ident ''i'', T_Assign, T_Int 0, T_Semicolon,
      T_While, T_ParenOpen, T_Ident ''i'', T_Lt, T_Int 3, T_ParenClose, T_BraceOpen,
      T_Ident ''i'', T_Assign, T_Ident ''i'', T_Plus, T_Int 1, T_Semicolon, T_BraceClose,
      T_Storage, T_Colon, T_Colon, T_Ident ''total'', T_Assign, T_Ident ''i'', T_Semicolon,
      T_Ident ''emit'', T_Ident ''Counted'', T_ParenOpen, T_Ident ''i'', T_ParenClose, T_Semicolon,
      T_BraceClose, T_BraceClose]"

definition counter_body :: "stmt list" where
  "counter_body =
     [SLet ''i'' (EInt 0),
      SWhile (EBinary (EIdent ''i'') B_Lt (EInt 3)) [SAssign ''i'' (EBinary (EIdent ''i'') B_Add (EInt 1))],
      SStorageWrite ''total'' (EIdent ''i''),
      SEmit ''Counted'' [EIdent ''i'']]"

definition counter_contract :: contract where
  "counter_contract =
     \<lparr>contract_name = ''Counter'', contract_storage = [\<lparr>field_name = ''total'', field_ty = ''u64''\<rparr>],
      contract_structs = [],
      contract_functions = [\<lparr>fn_name = ''main'', fn_params = [], return_type = None, fn_body = counter_body,
        is_pub = False\<rparr>]\<rparr>"

definition counter_lexer :: "string \<Rightarrow> lex_item list" where
  "counter_lexer source = map (\<lambda>t. (Inr t, 0, 0)) counter_tokens"

abbreviation null_ctx :: vm_context where
  "null_ctx \<equiv> \<lparr>sender = 0, nonce = 0, block_height = 0, initial_state_root = []\<rparr>"

lemma counter_front:
  "parser_new [] (counter_lexer []) = Inr counter_tokens"
  "parse_contract counter_tokens = Inr (counter_contract, [])"
  by code_simp+

lemma counter_compiles:
  "case compile counter_lexer (\<lambda>_. []) [] Production of Inr P \<Rightarrow> length P < 100 | Inl _ \<Rightarrow> False"
  by code_simp

lemma counter_runs:
  "case exec_stmts (storage_map_of (contract_storage counter_contract)) null_ctx 5 counter_body (start_state Map.empty) of
     Some (Done \<sigma>) \<Rightarrow> s_events \<sigma> = [3] \<and> s_writes \<sigma> = [(0, 3)] | _ \<Rightarrow> False"
  by code_simp

text \<open>C1: A source text that compiles, and whose contract is a single parameterless \<open>main\<close> made of
  bindings, assignments, storage and mapping writes, constraints, events, \<open>if\<close> and \<open>while\<close> over
  arithmetic, storage and hash expressions, does on the virtual machine exactly what its statements
  say.  There is an amount of gas, the same for every limit, such that with that much gas the run
  halts without error with the storage, the events and the storage writes of the source execution, or
  with a failed assertion where the source violates a constraint, and with less gas it stops with
  \<open>OutOfGas\<close> (unless the limit is the largest word, which the saturating counter never exceeds).\<close>

theorem compile_main_correct:
  assumes comp: "compile lexer map_values source prof = Inr P"
    and front: "parser_new source (lexer source) = Inr tokens" "parse_contract tokens = Inr (contract, rest)"
    and main: "contract_functions contract = [func]" "fn_name func = ''main''" "fn_params func = []"
    and cov: "covered_block {} (fn_body func)"
    and size: "length P < 2 ^ 31" "length (contract_storage contract) < 2 ^ 31"
    and canon: "canonical_ctx c" "\<forall>slot v. slots slot = Some v \<longrightarrow> canonical v"
    and ex: "exec_stmts (storage_map_of (contract_storage contract)) c n (fn_body func) (start_state slots) = Some out"
  shows "\<exists>G. needs_gas P (start_vm memory_size mainnet c slots) G out"
proof -
  have "generate map_values contract (new_with_profile prof) = Inr P"
    using comp front by (simp add: compile_def split: sum.splits)
  thus ?thesis using main cov size canon ex by (rule generated_main_runs)
qed

theorem compile_main_correct_witness:
  "\<exists>P \<sigma> G. compile counter_lexer (\<lambda>_. []) [] Production = Inr P \<and> s_events \<sigma> = [3] \<and> s_writes \<sigma> = [(0, 3)] \<and>
     needs_gas P (start_vm 65536 True null_ctx Map.empty) G (Done \<sigma>)"
proof -
  obtain P where P: "compile counter_lexer (\<lambda>_. []) [] Production = Inr P" "length P < 100"
    using counter_compiles by (auto split: sum.splits)
  obtain \<sigma> where \<sigma>: "exec_stmts (storage_map_of (contract_storage counter_contract)) null_ctx 5 counter_body
      (start_state Map.empty) = Some (Done \<sigma>)" "s_events \<sigma> = [3]" "s_writes \<sigma> = [(0, 3)]"
    using counter_runs by (auto split: option.splits outcome.splits)
  let ?main = "\<lparr>fn_name = ''main'', fn_params = [], return_type = None, fn_body = counter_body, is_pub = False\<rparr>"
  have "\<exists>G. needs_gas P (start_vm 65536 True null_ctx Map.empty) G (Done \<sigma>)"
  proof (rule compile_main_correct [OF P(1) counter_front, of ?main null_ctx Map.empty 5])
    show "covered_block {} (fn_body ?main)"
      by (simp add: counter_body_def reads_def GOLDILOCKS_P_def)
  qed (use P(2) \<sigma>(1) in \<open>simp_all add: counter_contract_def canonical_ctx_def canonical_small\<close>)
  thus ?thesis using P(1) \<sigma>(2,3) by blast
qed

section \<open>The parser\<close>

text \<open>C27: The parser returns on every token list.  None of its loops runs out of the bound that the
  number of remaining tokens gives, and an accepted expression, statement or contract has consumed at
  least one token, at every nesting depth.\<close>

theorem parser_total:
  "(case parse_contract ts of Inl e \<Rightarrow> e \<noteq> Loop_limit | Inr (_, rest) \<Rightarrow> length rest < length ts) \<and>
   (case parse_stmt d ts of Inl e \<Rightarrow> e \<noteq> Loop_limit | Inr (_, rest) \<Rightarrow> length rest < length ts) \<and>
   (case parse_expr d ts of Inl e \<Rightarrow> e \<noteq> Loop_limit | Inr (_, rest) \<Rightarrow> length rest < length ts)"
  using consuming_parse_contract consuming_parse_stmt [of d] consuming_parse_expr [of d]
  by (simp add: consuming_def shorter_def)

text \<open>C28: Printing and parsing are inverse on expressions.  Every expression of the grammar that nests
  less deeply than the limit, printed with parentheses around binary operations and followed by a token
  that cannot continue it, is parsed back to itself with the rest of the tokens untouched.\<close>

theorem expr_print_parse:
  assumes "printable e" "nesting e < MAX_NESTING_DEPTH" "ends_expr rest"
  shows "parse_expr 0 (print_expr e @ rest) = Inr (e, rest)"
  using parses_back_expr [OF printable_parses_back] assms by simp

theorem expr_print_parse_witness:
  "parse_expr 0 (print_expr (EBinary (EFieldAccess (EStructLiteral ''P'' [(''x'', EInt 1)]) ''x'') B_Mul
      (ECall ''poseidon'' [EStorageRead ''total'', EMappingRead ''bal'' (ECall ''msg::sender'' [])])) @ [T_Semicolon]) =
   Inr (EBinary (EFieldAccess (EStructLiteral ''P'' [(''x'', EInt 1)]) ''x'') B_Mul
      (ECall ''poseidon'' [EStorageRead ''total'', EMappingRead ''bal'' (ECall ''msg::sender'' [])]), [T_Semicolon])"
  by (rule expr_print_parse)
    (simp_all add: reserved_names_def MAX_NESTING_DEPTH_def ends_expr_def ends_operand_def ends_primary_def)

lemma parens_parse:
  assumes "ends_expr rest"
  shows "parse_expr d (replicate n T_ParenOpen @ T_Int v # replicate n T_ParenClose @ rest) =
    (if d + n < MAX_NESTING_DEPTH then Inr (EInt v, rest) else Inl Nests_too_deep)"
  using assms
proof (induction n arbitrary: d rest)
  case 0
  hence "ends_operand rest" by (simp add: ends_expr_def)
  hence "parse_postfix pe (T_Int v # rest) = Inr (EInt v, rest)" for pe
    by (simp add: parse_postfix_def parse_primary_def consume_def ends_operand_def)
  thus ?case using 0 by (cases "d < MAX_NESTING_DEPTH") (simp_all add: parse_expr_nested parse_expr_limit operands_to_expr)
next
  case (Suc n)
  let ?ts = "replicate n T_ParenOpen @ T_Int v # replicate n T_ParenClose @ T_ParenClose # rest"
  have step: "replicate (Suc n) T_ParenOpen @ T_Int v # replicate (Suc n) T_ParenClose @ rest = T_ParenOpen # ?ts"
    by (simp add: replicate_app_Cons_same)
  have nested: "parse_expr (Suc d) ?ts =
      (if Suc d + n < MAX_NESTING_DEPTH then Inr (EInt v, T_ParenClose # rest) else Inl Nests_too_deep)"
    by (rule Suc.IH) (simp add: ends_expr_def ends_operand_def ends_primary_def)
  show ?case
  proof (cases "d < MAX_NESTING_DEPTH")
    case True
    have "ends_operand rest" using Suc.prems by (simp add: ends_expr_def)
    hence post: "parse_postfix (parse_expr (Suc d)) (T_ParenOpen # ?ts) =
        (if Suc d + n < MAX_NESTING_DEPTH then Inr (EInt v, rest) else Inl Nests_too_deep)"
      using nested by (simp add: parse_postfix_def parse_primary_def consume_def ends_operand_def)
    show ?thesis
    proof (cases "Suc d + n < MAX_NESTING_DEPTH")
      case True
      thus ?thesis using post Suc.prems \<open>d < MAX_NESTING_DEPTH\<close>
        unfolding step by (simp add: parse_expr_nested operands_to_expr)
    next
      case False
      thus ?thesis using post \<open>d < MAX_NESTING_DEPTH\<close>
        unfolding step by (simp add: parse_expr_nested parse_expr_inner_def parse_arith_def parse_term_def parse_binary_def)
    qed
  qed (simp add: parse_expr_limit step)
qed

text \<open>The nesting limit is exact.  An integer inside \<open>n\<close> pairs of parentheses is parsed when
  \<open>n\<close> is below 32 and refused as nesting too deep otherwise, whatever follows it.\<close>

theorem nesting_limit_exact:
  assumes "ends_expr rest"
  shows "parse_expr 0 (replicate n T_ParenOpen @ T_Int v # replicate n T_ParenClose @ rest) =
    (if n < 32 then Inr (EInt v, rest) else Inl Nests_too_deep)"
  using parens_parse [OF assms, of 0] by (simp add: MAX_NESTING_DEPTH_def)

theorem nesting_limit_exact_witness:
  "parse_expr 0 (replicate 31 T_ParenOpen @ T_Int 7 # replicate 31 T_ParenClose @ [T_Semicolon]) = Inr (EInt 7, [T_Semicolon]) \<and>
   parse_expr 0 (replicate 32 T_ParenOpen @ T_Int 7 # replicate 32 T_ParenClose @ [T_Semicolon]) = Inl Nests_too_deep"
  using nesting_limit_exact [of "[T_Semicolon]" 31 7] nesting_limit_exact [of "[T_Semicolon]" 32 7]
  by (simp only: ends_expr_def ends_operand_def ends_primary_def) simp

section \<open>The type checker\<close>

text \<open>C4: The semantic analyser accepts exactly the well-typed contracts.  It reports no error if and
  only if every declared type exists, and every function body is typed by the declarative rules in the
  environment of its parameters: operands of one numeric type, declared variables, complete and
  non-repeating struct literals, calls with the declared arguments, conditions that are not structs or
  void, and returns of the declared type.\<close>

theorem analyze_accepts_well_typed:
  "(\<exists>st. analyze contract analyzer_new = Inr st) \<longleftrightarrow> well_typed contract"
  by (rule analyze_iff_well_typed)

section \<open>Where the generated code and the source differ\<close>

definition contract_with :: "string list \<Rightarrow> stmt list \<Rightarrow> contract" where
  "contract_with fs body =
     \<lparr>contract_name = ''C'', contract_storage = map (\<lambda>f. \<lparr>field_name = f, field_ty = ''u64''\<rparr>) fs, contract_structs = [],
      contract_functions = [\<lparr>fn_name = ''main'', fn_params = [], return_type = None, fn_body = body, is_pub = False\<rparr>]\<rparr>"

text \<open>Analyse, generate and run a contract on given storage, and read the storage writes.\<close>

definition outcome_of :: "contract \<Rightarrow> (u64 \<Rightarrow> vm) \<Rightarrow> compile_error + (vm_error option \<times> (i32 \<times> u64) list) option" where
  "outcome_of contract machine =
     (case analyze contract analyzer_new of
        Inl e \<Rightarrow> Inl (SemanticError e)
      | Inr _ \<Rightarrow>
          (case generate (\<lambda>_. []) contract (new_with_profile Production) of
             Inl e \<Rightarrow> Inl e
           | Inr P \<Rightarrow> Inr (map_option (\<lambda>(e, vm). (e, state_writes vm)) (run_loop P (machine 1000)))))"











text \<open>A name bound in the \<open>then\<close> branch passes the analyser in the \<open>else\<close> branch but not the generator.\<close>

lemma else_sees_then_binding:
  "outcome_of (contract_with [''x''] [SIf (EInt 0) [SLet ''a'' (EInt 1)] (Some [SStorageWrite ''x'' (EIdent ''a'')])])
     (start_vm 0 False null_ctx Map.empty) = Inl (CodegenError (Unbound_variable ''a''))"
  by code_simp

text \<open>A name bound in a branch that is not taken is still known after the \<open>if\<close>, and its register is read.\<close>

lemma branch_binding_escapes:
  "outcome_of (contract_with [''x''] [SIf (EInt 0) [SLet ''a'' (EInt 1)] None, SStorageWrite ''x'' (EIdent ''a'')])
     (start_vm 0 False null_ctx Map.empty) = Inr (Some (None, [(0, 0)]))"
  by code_simp



lemma for_range_identifier_bound:
  "parse_stmt 0 [T_For, T_Ident ''i'', T_In, T_Int 0, T_DotDot, T_Ident ''n'', T_BraceOpen,
      T_Ident ''x'', T_Assign, T_Int 1, T_Semicolon, T_BraceClose] = Inl (Expected T_Colon T_Assign)"
  by code_simp

end
