(* ===== verification/Nonce.thy ===== *)
theory Nonce
  imports Event_Tree Replay_Spec
begin

text \<open>
  Replay protection, \<open>src/cross_domain/nonce.rs\<close>: outbound nonces per lane (source domain, target
  domain, sender), the set of processed messages, and the two pruning routines.
\<close>

section \<open>The store\<close>

definition MAX_PROCESSED_MESSAGES :: nat where
  "MAX_PROCESSED_MESSAGES = 65536"

definition FINALITY_PRUNE_DEPTH :: u64 where
  "FINALITY_PRUNE_DEPTH = 1000"

type_synonym lane = "domain_id \<times> domain_id \<times> address"

record replay_nonce_store =
  outbound_nonces :: "(lane, u64) btree_map"
  processed_messages :: "message_id btree_set"
  processed_at_height :: "(message_id, u64) btree_map"

datatype nonce_error = AlreadyProcessed

definition store_new :: replay_nonce_store where
  "store_new = \<lparr>outbound_nonces = [], processed_messages = [], processed_at_height = []\<rparr>"

definition next_nonce :: "domain_id \<Rightarrow> domain_id \<Rightarrow> address \<Rightarrow> replay_nonce_store \<Rightarrow> u64 \<times> replay_nonce_store" where
  "next_nonce source target sender s =
     (let key = (source, target, sender);
          nonce = (case btm_get (outbound_nonces s) key of Some n \<Rightarrow> n | None \<Rightarrow> 0)
      in (nonce, s\<lparr>outbound_nonces := btm_insert key (saturating_add nonce 1) (outbound_nonces s)\<rparr>))"

definition mark_processed :: "message_id \<Rightarrow> replay_nonce_store \<Rightarrow> (nonce_error + unit) \<times> replay_nonce_store" where
  "mark_processed m s =
     (if bts_contains (processed_messages s) m then (Inl AlreadyProcessed, s)
      else (Inr (), s\<lparr>processed_messages := bts_insert m (processed_messages s)\<rparr>))"

text \<open>The \<open>while\<close> loop removes the first identifier in byte order until the cap is met.\<close>

function prune_processed :: "replay_nonce_store \<Rightarrow> replay_nonce_store" where
  "prune_processed s =
     (if length (processed_messages s) > MAX_PROCESSED_MESSAGES then
        (case processed_messages s of
           [] \<Rightarrow> s
         | oldest # _ \<Rightarrow>
             prune_processed (s\<lparr>processed_messages := bts_remove oldest (processed_messages s),
                                processed_at_height := btm_remove oldest (processed_at_height s)\<rparr>))
      else s)"
  by pat_completeness auto
termination
proof (relation "measure (\<lambda>s. length (processed_messages s))")
  fix s :: replay_nonce_store and x xs
  assume "processed_messages s = x # xs"
  then show "(s\<lparr>processed_messages := bts_remove x (processed_messages s),
      processed_at_height := btm_remove x (processed_at_height s)\<rparr>, s) \<in> measure (\<lambda>s. length (processed_messages s))"
    by (simp add: bts_remove_def le_imp_less_Suc)
qed simp

declare prune_processed.simps [simp del]

definition prune_processed_safe :: "u64 \<Rightarrow> replay_nonce_store \<Rightarrow> replay_nonce_store" where
  "prune_processed_safe current_height s =
     (if length (processed_messages s) \<le> MAX_PROCESSED_MESSAGES then s
      else (let cutoff = saturating_sub current_height FINALITY_PRUNE_DEPTH;
                to_remove = map fst (filter (\<lambda>(_, h). h < cutoff) (processed_at_height s))
            in fold (\<lambda>m s. s\<lparr>processed_messages := bts_remove m (processed_messages s),
                             processed_at_height := btm_remove m (processed_at_height s)\<rparr>)
                 to_remove s))"

definition mark_processed_at ::
    "message_id \<Rightarrow> u64 \<Rightarrow> replay_nonce_store \<Rightarrow> (nonce_error + unit) \<times> replay_nonce_store" where
  "mark_processed_at m current_height s =
     (if bts_contains (processed_messages s) m then (Inl AlreadyProcessed, s)
      else (let s = s\<lparr>processed_messages := bts_insert m (processed_messages s)\<rparr>;
                s = s\<lparr>processed_at_height := btm_insert m current_height (processed_at_height s)\<rparr>
            in (Inr (), prune_processed_safe current_height s)))"

definition processed_count :: "replay_nonce_store \<Rightarrow> nat" where
  "processed_count s = length (processed_messages s)"

definition is_processed :: "replay_nonce_store \<Rightarrow> message_id \<Rightarrow> bool" where
  "is_processed s m \<longleftrightarrow> bts_contains (processed_messages s) m"

definition store_root :: "hash_fn \<Rightarrow> replay_nonce_store \<Rightarrow> hash32" where
  "store_root H s =
     merkle_root H
       (map (\<lambda>((source, target, sender), nonce).
               H [ascii ''BDLM_NONCE_LEAF_V1'', le_bytes 4 source, le_bytes 4 target, sender, le_bytes 8 nonce])
          (outbound_nonces s) @
        map (\<lambda>m. H [ascii ''BDLM_PROCESSED_MESSAGE_LEAF_V1'', m]) (processed_messages s))"

section \<open>Replay protection\<close>

definition try_mark :: "message_id \<Rightarrow> replay_nonce_store \<Rightarrow> replay_nonce_store option" where
  "try_mark m s = (case mark_processed m s of (Inl _, _) \<Rightarrow> None | (Inr _, s') \<Rightarrow> Some s')"

interpretation rg: replay_guard is_processed try_mark
  by unfold_locales (auto simp: is_processed_def try_mark_def mark_processed_def split: if_splits)

section \<open>Nonces\<close>

fun draw_nonces :: "lane list \<Rightarrow> replay_nonce_store \<Rightarrow> u64 list \<times> replay_nonce_store" where
  "draw_nonces [] s = ([], s)"
| "draw_nonces ((a, b, c) # ls) s =
     (let (n, s) = next_nonce a b c s; (ns, s) = draw_nonces ls s in (n # ns, s))"

definition lane_nonce :: "replay_nonce_store \<Rightarrow> lane \<Rightarrow> nat" where
  "lane_nonce s l = (case btm_get (outbound_nonces s) l of Some n \<Rightarrow> unat n | None \<Rightarrow> 0)"

lemma next_nonce_lane:
  assumes "next_nonce a b c s = (n, s')"
  shows "unat n = lane_nonce s (a, b, c)"
    and "lane_nonce s' l = (if l = (a, b, c) then min (lane_nonce s l + 1) (2 ^ 64 - 1) else lane_nonce s l)"
  using assms by (auto simp: next_nonce_def lane_nonce_def Let_def unat_saturating_add split: option.splits)

lemma lane_nonce_bound: "lane_nonce s l \<le> 2 ^ 64 - 1"
proof (cases "btm_get (outbound_nonces s) l")
  case (Some n)
  then show ?thesis using unsigned_less [of n, where 'a = nat] by (simp add: lane_nonce_def)
qed (simp add: lane_nonce_def)

lemma draw_nonces_spec:
  "draw_nonces ls s = (ns, s') \<Longrightarrow> length ns = length ls \<and>
   (\<forall>i < length ls. unat (ns ! i) =
      min (lane_nonce s (ls ! i) + length (filter ((=) (ls ! i)) (take i ls))) (2 ^ 64 - 1))"
proof (induction ls s arbitrary: ns s' rule: draw_nonces.induct)
  case (2 a b c ls s)
  obtain n s1 where n: "next_nonce a b c s = (n, s1)" by fastforce
  obtain ns1 s2 where d: "draw_nonces ls s1 = (ns1, s2)" by fastforce
  have ns: "ns = n # ns1" using "2.prems" n d by simp
  note IH = "2.IH" [OF n [symmetric] refl d]
  have "unat (ns ! i) =
      min (lane_nonce s (((a, b, c) # ls) ! i) + length (filter ((=) (((a, b, c) # ls) ! i)) (take i ((a, b, c) # ls))))
        (2 ^ 64 - 1)" if i: "i < length ((a, b, c) # ls)" for i
  proof (cases i)
    case 0
    then show ?thesis using next_nonce_lane(1) [OF n] lane_nonce_bound [of s "(a, b, c)"] by (simp add: ns)
  next
    case (Suc j)
    then have "unat (ns1 ! j) = min (lane_nonce s1 (ls ! j) + length (filter ((=) (ls ! j)) (take j ls))) (2 ^ 64 - 1)"
      using IH i by simp
    then show ?thesis using Suc by (auto simp: ns next_nonce_lane(2) [OF n] min_def)
  qed
  then show ?case using IH ns by simp
qed simp

text \<open>C21: from an empty store the nonce handed out at each call is the number of earlier calls for the
  same lane (source domain, target domain, sender), whatever calls for other lanes happen in between.
  The counter stops at the largest 64-bit value.\<close>
theorem nonces_count_lane_calls:
  fixes ls :: "lane list"
  assumes "draw_nonces ls store_new = (ns, s)" and "i < length ls"
  shows "unat (ns ! i) = min (length (filter ((=) (ls ! i)) (take i ls))) (2 ^ 64 - 1)"
  using draw_nonces_spec [OF assms(1)] assms(2) by (simp add: lane_nonce_def store_new_def)

theorem nonces_count_lane_calls_witness:
  "unat (fst (draw_nonces [(1, 2, [7]), (1, 3, [7]), (1, 2, [7])] store_new) ! 2) = 1"
  using nonces_count_lane_calls [of "[(1, 2, [7]), (1, 3, [7]), (1, 2, [7])]" _ _ 2]
  by (cases "draw_nonces [(1, 2, [7]), (1, 3, [7]), (1, 2, [7])] store_new") simp

section \<open>Pruning\<close>

lemma prune_processed_drop:
  "sorted_wrt (<) (processed_messages s) \<Longrightarrow>
   processed_messages (prune_processed s) =
     drop (length (processed_messages s) - MAX_PROCESSED_MESSAGES) (processed_messages s)"
proof (induction s rule: prune_processed.induct)
  case (1 s)
  show ?case
  proof (cases "length (processed_messages s) > MAX_PROCESSED_MESSAGES")
    case True
    then obtain x xs where xs: "processed_messages s = x # xs" by (cases "processed_messages s") auto
    have rem: "bts_remove x (x # xs) = xs" using "1.prems" by (auto simp: xs bts_remove_def filter_id_conv)
    have "processed_messages (prune_processed s) = drop (length xs - MAX_PROCESSED_MESSAGES) xs"
      using "1.IH" [OF True xs] "1.prems" by (subst prune_processed.simps) (simp add: xs rem True [unfolded xs, simplified])
    then show ?thesis using True by (simp add: xs Suc_diff_le)
  next
    case False
    then show ?thesis by (subst prune_processed.simps) simp
  qed
qed

text \<open>A store of any size for the examples: identifiers made of zero bytes, in increasing order.\<close>

definition sample_ids :: "nat \<Rightarrow> message_id list" where
  "sample_ids n = map (\<lambda>i. replicate i 0) [0..<n]"

lemma length_sample_ids [simp]: "length (sample_ids n) = n"
  by (simp add: sample_ids_def)

lemma Nil_in_sample_ids: "0 < n \<Longrightarrow> [] \<in> set (sample_ids n)"
  by (auto simp: sample_ids_def image_iff intro!: bexI [of _ 0])

lemma sample_ids_sorted: "sorted_wrt (<) (sample_ids n)"
proof -
  have "(replicate i 0 :: message_id) < replicate j 0" if "i < j" for i j
  proof -
    have "(replicate j 0 :: message_id) = replicate i 0 @ 0 # replicate (j - i - 1) 0"
      using that by (simp add: replicate_app_Cons_same flip: replicate_add replicate_Suc)
    then show ?thesis by (simp add: list_less_def lexord_def)
  qed
  then show ?thesis by (auto simp: sample_ids_def sorted_wrt_map sorted_wrt_iff_nth_less)
qed

text \<open>The count-based prune always ends with at most \<open>MAX_PROCESSED_MESSAGES\<close> identifiers, and what
  it forgets is exactly the identifiers that come first in byte order: it keeps a suffix of the
  ordered set, independent of the order in which the messages were processed.\<close>
theorem prune_processed_keeps_suffix:
  assumes "sorted_wrt (<) (processed_messages s)"
  shows "processed_messages (prune_processed s) =
           drop (length (processed_messages s) - MAX_PROCESSED_MESSAGES) (processed_messages s) \<and>
         processed_count (prune_processed s) = min (processed_count s) MAX_PROCESSED_MESSAGES"
  using prune_processed_drop [OF assms] by (simp add: processed_count_def min_def)

theorem prune_processed_keeps_suffix_witness:
  "processed_messages (prune_processed (store_new\<lparr>processed_messages := sample_ids 65537\<rparr>)) = drop 1 (sample_ids 65537)"
  using prune_processed_keeps_suffix [of "store_new\<lparr>processed_messages := sample_ids 65537\<rparr>"]
  by (simp add: MAX_PROCESSED_MESSAGES_def sample_ids_sorted)

lemma fold_forget:
  "processed_messages (fold (\<lambda>m s. s\<lparr>processed_messages := bts_remove m (processed_messages s),
       processed_at_height := btm_remove m (processed_at_height s)\<rparr>) ms s) =
     filter (\<lambda>m. m \<notin> set ms) (processed_messages s)"
  by (induction ms arbitrary: s) (auto simp: bts_remove_def intro!: filter_cong)

lemma prune_safe_member:
  assumes "btm_ok (processed_at_height s)"
  shows "is_processed (prune_processed_safe c s) m \<longleftrightarrow> is_processed s m \<and>
    (processed_count s \<le> MAX_PROCESSED_MESSAGES \<or>
     (\<forall>h. btm_get (processed_at_height s) m = Some h \<longrightarrow> saturating_sub c FINALITY_PRUNE_DEPTH \<le> h))"
proof -
  have "m \<in> set (map fst (filter (\<lambda>(_, h). h < cut) (processed_at_height s))) \<longleftrightarrow>
      (\<exists>h. btm_get (processed_at_height s) m = Some h \<and> h < cut)" for cut
    using btm.entries_get [OF assms] by (force simp: image_iff)
  then show ?thesis
    by (auto simp: is_processed_def prune_processed_safe_def processed_count_def fold_forget bts_contains_def Let_def
        simp flip: not_less)
qed

text \<open>The height-aware prune forgets a processed message only when the store is over its cap and
  the message was recorded more than \<open>FINALITY_PRUNE_DEPTH\<close> blocks before the current height; every
  younger message, and every message without a recorded height, is still recognised as processed.\<close>
theorem prune_safe_respects_finality:
  assumes "btm_ok (processed_at_height s)" and "is_processed s m"
    and "\<not> is_processed (prune_processed_safe current s) m"
  shows "processed_count s > MAX_PROCESSED_MESSAGES \<and>
    (\<exists>h. btm_get (processed_at_height s) m = Some h \<and> unat h + 1000 < unat current)"
proof -
  obtain h where h: "btm_get (processed_at_height s) m = Some h"
      and lt: "h < saturating_sub current FINALITY_PRUNE_DEPTH"
      and cap: "processed_count s > MAX_PROCESSED_MESSAGES"
    using assms prune_safe_member [OF assms(1), of current m] by (auto simp: not_le)
  have "unat h < unat current - 1000"
    using lt by (simp add: word_less_nat_alt unat_saturating_sub FINALITY_PRUNE_DEPTH_def)
  then show ?thesis using h cap by auto
qed

definition full_store :: replay_nonce_store where
  "full_store = store_new\<lparr>processed_messages := sample_ids 65537, processed_at_height := [([], 5)]\<rparr>"

theorem prune_safe_respects_finality_witness:
  "is_processed full_store [] \<and> \<not> is_processed (prune_processed_safe 2000 full_store) [] \<and>
   unat (5 :: u64) + 1000 < unat (2000 :: u64)"
proof -
  have ok: "btm_ok (processed_at_height full_store)" by (simp add: full_store_def btm_ok_def)
  have seen: "is_processed full_store []"
    by (simp add: full_store_def is_processed_def bts_contains_def Nil_in_sample_ids)
  have gone: "\<not> is_processed (prune_processed_safe 2000 full_store) []"
    unfolding prune_safe_member [OF ok]
    by (simp add: full_store_def processed_count_def MAX_PROCESSED_MESSAGES_def FINALITY_PRUNE_DEPTH_def
        saturating_sub_def btm_get_def)
  show ?thesis
    using prune_safe_respects_finality [OF ok seen gone] gone seen by (simp add: full_store_def btm_get_def)
qed

text \<open>Messages marked without a height are never forgotten by the height-aware prune, so the store
  grows past its cap without bound when only \<open>mark_processed\<close> is used, as the bridge does.\<close>
theorem cap_not_enforced:
  assumes "processed_at_height s = []"
  shows "prune_processed_safe current s = s \<and>
    (mark_processed m s = (Inr (), s') \<longrightarrow> processed_at_height s' = [] \<and>
       (distinct (processed_messages s) \<longrightarrow> processed_count s' = processed_count s + 1))"
  using assms
  by (auto simp: prune_processed_safe_def mark_processed_def processed_count_def bts_contains_def bts_insert_def
      insort_insert_key_def split: if_splits)

theorem cap_not_enforced_witness:
  "processed_count (prune_processed_safe 2000 (store_new\<lparr>processed_messages := sample_ids 70000\<rparr>)) = 70000"
  using cap_not_enforced [of "store_new\<lparr>processed_messages := sample_ids 70000\<rparr>" 2000]
  by (simp add: store_new_def processed_count_def)

end
