(* ===== verification/Bridge.thy ===== *)
theory Bridge
  imports Nonce Invariant_Spec
begin

text \<open>
  The bridge, \<open>src/cross_domain/bridge.rs\<close>: assets move between domains by locking on the source,
  minting on the target, burning there and unlocking at the source; expired locks are swept back.
  Every operation returns its result together with the updated state, the state unchanged on errors.
\<close>

section \<open>State\<close>

type_synonym asset_id = hash32

datatype bridge_status =
    Active domain_id | Locked domain_id | Minted domain_id | Burned domain_id | Unlocked domain_id

record bridge_transfer =
  tr_message_id :: message_id
  tr_asset_id :: asset_id
  tr_source_domain :: domain_id
  tr_target_domain :: domain_id
  tr_owner :: address
  tr_recipient :: address
  tr_amount :: u128
  tr_status :: bridge_status
  tr_source_event_hash :: hash32
  tr_expiry_height :: u64

datatype bridge_error =
    FeeNotCovered | AssetRegistered | UnknownAsset | AssetNotActive | BadMessageId | UnknownTransfer
  | PayloadMismatch | MessageProcessed | NotLockedOnSource | NotMintedOnBurnDomain
  | NotBurnedOnTarget | UnlockNotFromTarget

record bridge_state =
  asset_locations :: "(asset_id, bridge_status) btree_map"
  transfers :: "(message_id, bridge_transfer) btree_map"
  expiry_queue :: "(u64, message_id list) btree_map"
  replay_store :: replay_nonce_store

definition bridge_new :: bridge_state where
  "bridge_new = \<lparr>asset_locations = [], transfers = [], expiry_queue = [], replay_store = store_new\<rparr>"

section \<open>Helpers\<close>

definition split_bridge_fee :: "u128 \<Rightarrow> u64 \<Rightarrow> u64 \<Rightarrow> bridge_error + (u128 \<times> u128)" where
  "split_bridge_fee amount fee_ppm min_fee =
     (let min_fee = (ucast min_fee :: u128)
      in if amount \<le> min_fee then Inl FeeNotCovered
         else (let proportional = saturating_mul amount (ucast fee_ppm) div 1000000;
                   fee = max proportional min_fee;
                   recipient = saturating_sub amount fee
               in Inr (recipient, fee)))"

definition bridge_payload_hash :: "hash_fn \<Rightarrow> asset_id \<Rightarrow> u128 \<Rightarrow> hash32" where
  "bridge_payload_hash H asset amount = H [ascii ''BDLM_BRIDGE_PAYLOAD_V1'', asset, le_bytes 16 amount]"

definition status_with_domain :: "bytes \<Rightarrow> domain_id \<Rightarrow> bytes" where
  "status_with_domain tag dom_id = tag @ le_bytes 4 dom_id"

fun status_bytes :: "bridge_status \<Rightarrow> bytes" where
  "status_bytes (Active d) = status_with_domain (ascii ''active'') d"
| "status_bytes (Locked d) = status_with_domain (ascii ''locked'') d"
| "status_bytes (Minted d) = status_with_domain (ascii ''minted'') d"
| "status_bytes (Burned d) = status_with_domain (ascii ''burned'') d"
| "status_bytes (Unlocked d) = status_with_domain (ascii ''unlocked'') d"

definition require_asset_status :: "bridge_state \<Rightarrow> asset_id \<Rightarrow> bridge_status \<Rightarrow> bridge_error + unit" where
  "require_asset_status s asset expected =
     (case btm_get (asset_locations s) asset of
        None \<Rightarrow> Inl UnknownAsset
      | Some current \<Rightarrow> if current \<noteq> expected then Inl AssetNotActive else Inr ())"

section \<open>Operations\<close>

definition register_asset ::
    "asset_id \<Rightarrow> domain_id \<Rightarrow> bridge_state \<Rightarrow> (bridge_error + unit) \<times> bridge_state" where
  "register_asset asset dom_id s =
     (if btm_contains (asset_locations s) asset then (Inl AssetRegistered, s)
      else (Inr (), s\<lparr>asset_locations := btm_insert asset (Active dom_id) (asset_locations s)\<rparr>))"

definition lock ::
    "hash_fn \<Rightarrow> domain_id \<Rightarrow> domain_id \<Rightarrow> u64 \<Rightarrow> u32 \<Rightarrow> asset_id \<Rightarrow> address \<Rightarrow> address \<Rightarrow> u128 \<Rightarrow> u64 \<Rightarrow>
     bridge_state \<Rightarrow> (bridge_error + (bridge_transfer \<times> domain_event)) \<times> bridge_state" where
  "lock H source target height index asset owner recipient amount expiry s =
     (case require_asset_status s asset (Active source) of
        Inl e \<Rightarrow> (Inl e, s)
      | Inr _ \<Rightarrow>
          (let (nonce, store) = next_nonce source target owner (replay_store s);
               payload = bridge_payload_hash H asset amount;
               message = new_message H
                 \<lparr>par_source_domain = source, par_target_domain = target, par_source_height = height,
                  par_event_index = index, par_nonce = nonce, par_sender = owner,
                  par_recipient = recipient, par_payload_hash = payload, par_kind = BridgeLock,
                  par_expiry_height = expiry\<rparr>;
               event = \<lparr>ev_domain_id = source, ev_domain_height = height, ev_event_index = index,
                  ev_kind = BridgeLocked, ev_emitter = owner, ev_message = Some message,
                  ev_payload_hash = payload\<rparr>;
               transfer = \<lparr>tr_message_id = msg_id message, tr_asset_id = asset,
                  tr_source_domain = source, tr_target_domain = target, tr_owner = owner,
                  tr_recipient = recipient, tr_amount = amount, tr_status = Locked source,
                  tr_source_event_hash = leaf_hash H event, tr_expiry_height = expiry\<rparr>;
               queue = expiry_queue s
           in (Inr (transfer, event),
               s\<lparr>asset_locations := btm_insert asset (Locked source) (asset_locations s),
                 transfers := btm_insert (tr_message_id transfer) transfer (transfers s),
                 expiry_queue :=
                   (if expiry > 0 then
                      btm_insert expiry
                        ((case btm_get queue expiry of Some mids \<Rightarrow> mids | None \<Rightarrow> []) @ [tr_message_id transfer])
                        queue
                    else queue),
                 replay_store := store\<rparr>)))"

definition mint ::
    "hash_fn \<Rightarrow> cross_domain_message \<Rightarrow> bridge_state \<Rightarrow> (bridge_error + unit) \<times> bridge_state" where
  "mint H message s =
     (if \<not> verify_id H message then (Inl BadMessageId, s)
      else case btm_get (transfers s) (msg_id message) of
        None \<Rightarrow> (Inl UnknownTransfer, s)
      | Some transfer \<Rightarrow>
          if msg_payload_hash message \<noteq> bridge_payload_hash H (tr_asset_id transfer) (tr_amount transfer)
          then (Inl PayloadMismatch, s)
          else if is_processed (replay_store s) (msg_id message) then (Inl MessageProcessed, s)
          else if tr_status transfer \<noteq> Locked (msg_source_domain message) then (Inl NotLockedOnSource, s)
          else case mark_processed (msg_id message) (replay_store s) of
            (Inl _, store) \<Rightarrow> (Inl MessageProcessed, s\<lparr>replay_store := store\<rparr>)
          | (Inr _, store) \<Rightarrow>
              (Inr (),
               s\<lparr>asset_locations :=
                   btm_insert (tr_asset_id transfer) (Minted (msg_target_domain message)) (asset_locations s),
                 transfers :=
                   btm_insert (msg_id message) (transfer\<lparr>tr_status := Minted (msg_target_domain message)\<rparr>)
                     (transfers s),
                 replay_store := store\<rparr>))"

definition get_transfer :: "bridge_state \<Rightarrow> message_id \<Rightarrow> bridge_transfer option" where
  "get_transfer s mid = btm_get (transfers s) mid"

definition burn_with_event ::
    "hash_fn \<Rightarrow> message_id \<Rightarrow> domain_id \<Rightarrow> u64 \<Rightarrow> u32 \<Rightarrow> u64 \<Rightarrow>
     bridge_state \<Rightarrow> (bridge_error + domain_event) \<times> bridge_state" where
  "burn_with_event H mid dom_id height index expiry s =
     (case btm_get (transfers s) mid of
        None \<Rightarrow> (Inl UnknownTransfer, s)
      | Some transfer \<Rightarrow>
          if tr_status transfer \<noteq> Minted dom_id then (Inl NotMintedOnBurnDomain, s)
          else
            (let (nonce, store) =
                   next_nonce dom_id (tr_source_domain transfer) (tr_recipient transfer) (replay_store s);
                 payload = bridge_payload_hash H (tr_asset_id transfer) (tr_amount transfer);
                 message = new_correlated H
                   \<lparr>par_source_domain = dom_id, par_target_domain = tr_source_domain transfer,
                    par_source_height = height, par_event_index = index, par_nonce = nonce,
                    par_sender = tr_recipient transfer, par_recipient = tr_owner transfer,
                    par_payload_hash = payload, par_kind = BridgeBurn, par_expiry_height = expiry\<rparr>
                   mid;
                 event = \<lparr>ev_domain_id = dom_id, ev_domain_height = height, ev_event_index = index,
                    ev_kind = BridgeBurned, ev_emitter = tr_recipient transfer,
                    ev_message = Some message, ev_payload_hash = payload\<rparr>
             in (Inr event,
                 s\<lparr>asset_locations :=
                     btm_insert (tr_asset_id transfer) (Burned dom_id) (asset_locations s),
                   transfers := btm_insert mid (transfer\<lparr>tr_status := Burned dom_id\<rparr>) (transfers s),
                   replay_store := store\<rparr>)))"

definition burn ::
    "hash_fn \<Rightarrow> message_id \<Rightarrow> domain_id \<Rightarrow> bridge_state \<Rightarrow> (bridge_error + unit) \<times> bridge_state" where
  "burn H mid dom_id s =
     (case burn_with_event H mid dom_id 0 0 0 s of
        (Inl e, s') \<Rightarrow> (Inl e, s')
      | (Inr _, s') \<Rightarrow> (Inr (), s'))"

definition unlock ::
    "message_id \<Rightarrow> domain_id \<Rightarrow> bridge_state \<Rightarrow> (bridge_error + unit) \<times> bridge_state" where
  "unlock mid source s =
     (case btm_get (transfers s) mid of
        None \<Rightarrow> (Inl UnknownTransfer, s)
      | Some transfer \<Rightarrow>
          if tr_status transfer \<noteq> Burned (tr_target_domain transfer) then (Inl NotBurnedOnTarget, s)
          else if tr_target_domain transfer \<noteq> source then (Inl UnlockNotFromTarget, s)
          else
            (let original_source = tr_source_domain transfer
             in (Inr (),
                 s\<lparr>asset_locations :=
                     btm_insert (tr_asset_id transfer) (Active original_source) (asset_locations s),
                   transfers :=
                     btm_insert mid (transfer\<lparr>tr_status := Unlocked original_source\<rparr>) (transfers s)\<rparr>)))"

definition bridge_root :: "hash_fn \<Rightarrow> bridge_state \<Rightarrow> hash32" where
  "bridge_root H s =
     merkle_root H
       (map (\<lambda>(asset, status). H [ascii ''BDLM_BRIDGE_ASSET_LEAF_V1'', asset, status_bytes status])
          (asset_locations s) @
        map (\<lambda>(mid, t). H [ascii ''BDLM_BRIDGE_TRANSFER_V1'', mid, tr_asset_id t,
               le_bytes 4 (tr_source_domain t), le_bytes 4 (tr_target_domain t),
               tr_owner t, tr_recipient t, le_bytes 16 (tr_amount t), status_bytes (tr_status t),
               tr_source_event_hash t, le_bytes 8 (tr_expiry_height t)])
          (transfers s))"

definition replay_root :: "hash_fn \<Rightarrow> bridge_state \<Rightarrow> hash32" where
  "replay_root H s = store_root H (replay_store s)"

definition source_event_hash :: "bridge_state \<Rightarrow> message_id \<Rightarrow> hash32 option" where
  "source_event_hash s mid = map_option tr_source_event_hash (btm_get (transfers s) mid)"

text \<open>The sweep: the inner loop releases one transfer, the outer loop empties one queue entry.\<close>

type_synonym released = "(address \<times> u128) list"

definition release_lock :: "message_id \<Rightarrow> bridge_state \<times> released \<Rightarrow> bridge_state \<times> released" where
  "release_lock mid acc =
     (case acc of (s, released) \<Rightarrow>
        case btm_get (transfers s) mid of
          None \<Rightarrow> (s, released)
        | Some t \<Rightarrow>
            (case tr_status t of
               Locked d \<Rightarrow>
                 (s\<lparr>transfers := btm_insert mid (t\<lparr>tr_status := Active d\<rparr>) (transfers s),
                    asset_locations := btm_insert (tr_asset_id t) (Active d) (asset_locations s)\<rparr>,
                  released @ [(tr_owner t, tr_amount t)])
             | _ \<Rightarrow> (s, released)))"

definition sweep_height :: "u64 \<Rightarrow> bridge_state \<times> released \<Rightarrow> bridge_state \<times> released" where
  "sweep_height h acc =
     (case acc of (s, released) \<Rightarrow>
        case btm_get (expiry_queue s) h of
          None \<Rightarrow> (s, released)
        | Some mids \<Rightarrow>
            fold release_lock mids (s\<lparr>expiry_queue := btm_remove h (expiry_queue s)\<rparr>, released))"

definition sweep_expired_locks :: "u64 \<Rightarrow> bridge_state \<Rightarrow> released \<times> bridge_state" where
  "sweep_expired_locks current s =
     (let heights = map fst (btm_range_to current (expiry_queue s));
          (s, released) = fold sweep_height heights (s, [])
      in (released, s))"

section \<open>The bridge as a state machine\<close>

inductive bridge_step :: "hash_fn \<Rightarrow> bridge_state \<Rightarrow> bridge_state \<Rightarrow> bool" for H where
  step_register: "register_asset a d s = (r, s') \<Longrightarrow> bridge_step H s s'"
| step_lock: "lock H src tgt h i a ow rc am ex s = (r, s') \<Longrightarrow> bridge_step H s s'"
| step_mint: "mint H m s = (r, s') \<Longrightarrow> bridge_step H s s'"
| step_burn: "burn_with_event H mid d h i ex s = (r, s') \<Longrightarrow> bridge_step H s s'"
| step_unlock: "unlock mid d s = (r, s') \<Longrightarrow> bridge_step H s s'"
| step_sweep: "sweep_expired_locks h s = (r, s') \<Longrightarrow> bridge_step H s s'"

end
