(* ===== verification/Bridge_Inv.thy ===== *)
theory Bridge_Inv
  imports Bridge "HOL-Library.Multiset"
begin

text \<open>
  The invariant of the bridge.  It is stated on the lookups of the two maps and on the processed
  set, so that every operation is one update of a transfer together with its asset, and one lemma
  covers all of them.
\<close>

section \<open>The ledger invariant\<close>

fun in_flight :: "bridge_status \<Rightarrow> bool" where
  "in_flight (Locked _) = True"
| "in_flight (Minted _) = True"
| "in_flight (Burned _) = True"
| "in_flight _ = False"

fun past_mint :: "bridge_status \<Rightarrow> bool" where
  "past_mint (Minted _) = True"
| "past_mint (Burned _) = True"
| "past_mint (Unlocked _) = True"
| "past_mint _ = False"

fun status_ok :: "domain_id \<Rightarrow> domain_id \<Rightarrow> bridge_status \<Rightarrow> bool" where
  "status_ok src tgt (Active d) \<longleftrightarrow> d = src"
| "status_ok src tgt (Locked d) \<longleftrightarrow> d = src"
| "status_ok src tgt (Minted d) \<longleftrightarrow> d = tgt"
| "status_ok src tgt (Burned d) \<longleftrightarrow> d = tgt"
| "status_ok src tgt (Unlocked d) \<longleftrightarrow> d = src"

definition lock_params :: "hash_fn \<Rightarrow> bridge_transfer \<Rightarrow> u64 \<Rightarrow> u32 \<Rightarrow> u64 \<Rightarrow> message_params" where
  "lock_params H t h i n =
     \<lparr>par_source_domain = tr_source_domain t, par_target_domain = tr_target_domain t,
      par_source_height = h, par_event_index = i, par_nonce = n, par_sender = tr_owner t,
      par_recipient = tr_recipient t, par_payload_hash = bridge_payload_hash H (tr_asset_id t) (tr_amount t),
      par_kind = BridgeLock, par_expiry_height = tr_expiry_height t\<rparr>"

definition transfer_ok :: "hash_fn \<Rightarrow> message_id \<Rightarrow> bridge_transfer \<Rightarrow> bool" where
  "transfer_ok H mid t \<longleftrightarrow> tr_message_id t = mid \<and>
     (\<exists>h i n. mid = msg_id (new_message H (lock_params H t h i n))) \<and>
     status_ok (tr_source_domain t) (tr_target_domain t) (tr_status t)"

definition ledger_inv ::
    "hash_fn \<Rightarrow> (asset_id \<rightharpoonup> bridge_status) \<Rightarrow> (message_id \<rightharpoonup> bridge_transfer) \<Rightarrow> (message_id \<Rightarrow> bool) \<Rightarrow> bool" where
  "ledger_inv H loc tr seen \<longleftrightarrow>
     (\<forall>mid t. tr mid = Some t \<longrightarrow> transfer_ok H mid t \<and>
        (in_flight (tr_status t) \<longrightarrow> loc (tr_asset_id t) = Some (tr_status t)) \<and>
        (past_mint (tr_status t) \<longrightarrow> seen mid)) \<and>
     (\<forall>mid t mid' t'. tr mid = Some t \<longrightarrow> tr mid' = Some t' \<longrightarrow>
        in_flight (tr_status t) \<longrightarrow> in_flight (tr_status t') \<longrightarrow> tr_asset_id t = tr_asset_id t' \<longrightarrow> mid = mid') \<and>
     (\<forall>a st. loc a = Some st \<longrightarrow>
        (\<exists>d. st = Active d) \<or>
        in_flight st \<and> (\<exists>mid t. tr mid = Some t \<and> tr_asset_id t = a \<and> tr_status t = st))"

lemma ledger_invD:
  assumes "ledger_inv H loc tr seen" and "tr mid = Some t"
  shows "transfer_ok H mid t"
    and "in_flight (tr_status t) \<Longrightarrow> loc (tr_asset_id t) = Some (tr_status t)"
    and "past_mint (tr_status t) \<Longrightarrow> seen mid"
    and "in_flight (tr_status t) \<Longrightarrow> tr mid' = Some t' \<Longrightarrow> in_flight (tr_status t') \<Longrightarrow>
       tr_asset_id t' = tr_asset_id t \<Longrightarrow> mid' = mid"
  using assms unfolding ledger_inv_def by metis+

lemma ledger_inv_location:
  assumes "ledger_inv H loc tr seen" and "loc a = Some st"
  shows "(\<exists>d. st = Active d) \<or>
    in_flight st \<and> (\<exists>mid t. tr mid = Some t \<and> tr_asset_id t = a \<and> tr_status t = st)"
  using assms unfolding ledger_inv_def by metis

lemma ledger_inv_seen_mono:
  assumes "ledger_inv H loc tr seen" and "\<And>m. seen m \<Longrightarrow> seen' m"
  shows "ledger_inv H loc tr seen'"
  using assms unfolding ledger_inv_def by meson

text \<open>The one update every operation makes: transfer \<open>mid\<close> becomes \<open>t\<close> and its asset moves to \<open>st\<close>.\<close>

lemma ledger_inv_move:
  assumes inv: "ledger_inv H loc tr seen"
    and ok: "transfer_ok H mid t"
    and st: "in_flight (tr_status t) \<Longrightarrow> st = tr_status t" "\<not> in_flight (tr_status t) \<Longrightarrow> \<exists>d. st = Active d"
    and seen: "past_mint (tr_status t) \<Longrightarrow> seen mid"
    and old: "\<And>t'. tr mid = Some t' \<Longrightarrow> tr_asset_id t' = tr_asset_id t"
    and only: "\<And>mid' t'. tr mid' = Some t' \<Longrightarrow> in_flight (tr_status t') \<Longrightarrow>
       tr_asset_id t' = tr_asset_id t \<Longrightarrow> mid' = mid"
  shows "ledger_inv H (loc(tr_asset_id t \<mapsto> st)) (tr(mid \<mapsto> t)) seen"
  unfolding ledger_inv_def
proof (intro conjI allI impI)
  fix mid' t'
  assume "(tr(mid \<mapsto> t)) mid' = Some t'"
  then consider "mid' = mid" "t' = t" | "mid' \<noteq> mid" "tr mid' = Some t'" by (auto split: if_splits)
  note cs = this
  from cs show "transfer_ok H mid' t'" using ok ledger_invD(1) [OF inv, of mid' t'] by cases auto
  from cs show "past_mint (tr_status t') \<Longrightarrow> seen mid'" using seen ledger_invD(3) [OF inv, of mid' t'] by cases auto
  assume fl: "in_flight (tr_status t')"
  from cs show "(loc(tr_asset_id t \<mapsto> st)) (tr_asset_id t') = Some (tr_status t')"
  proof cases
    case 1
    then show ?thesis using st(1) fl by simp
  next
    case 2
    then have "tr_asset_id t' \<noteq> tr_asset_id t" using only fl by blast
    then show ?thesis using ledger_invD(2) [OF inv 2(2) fl] by simp
  qed
next
  fix m1 t1 m2 t2
  assume 1: "(tr(mid \<mapsto> t)) m1 = Some t1" and 2: "(tr(mid \<mapsto> t)) m2 = Some t2"
    and fl: "in_flight (tr_status t1)" "in_flight (tr_status t2)" and same: "tr_asset_id t1 = tr_asset_id t2"
  consider "m1 = mid" "m2 = mid" | "m1 = mid" "m2 \<noteq> mid" | "m1 \<noteq> mid" "m2 = mid" | "m1 \<noteq> mid" "m2 \<noteq> mid"
    by blast
  then show "m1 = m2"
  proof cases
    case 1
    then show ?thesis by simp
  next
    case c: 2
    then have "t1 = t" "tr m2 = Some t2" using 1 2 by simp_all
    then show ?thesis using only [of m2 t2] fl same c by metis
  next
    case c: 3
    then have "t2 = t" "tr m1 = Some t1" using 1 2 by simp_all
    then show ?thesis using only [of m1 t1] fl same c by metis
  next
    case 4
    then have "tr m1 = Some t1" "tr m2 = Some t2" using 1 2 by simp_all
    then show ?thesis using ledger_invD(4) [OF inv _ fl(2) _ fl(1) same] by metis
  qed
next
  fix a s
  assume a: "(loc(tr_asset_id t \<mapsto> st)) a = Some s"
  show "(\<exists>d. s = Active d) \<or>
      in_flight s \<and> (\<exists>m u. (tr(mid \<mapsto> t)) m = Some u \<and> tr_asset_id u = a \<and> tr_status u = s)"
  proof (cases "a = tr_asset_id t")
    case True
    then show ?thesis using a st by (cases "in_flight (tr_status t)") auto
  next
    case False
    then have "loc a = Some s" using a by simp
    from ledger_inv_location [OF inv this] show ?thesis
    proof (elim disjE conjE exE)
      fix m u
      assume u: "in_flight s" "tr m = Some u" "tr_asset_id u = a" "tr_status u = s"
      then have "m \<noteq> mid" using old False by auto
      then have "(tr(mid \<mapsto> t)) m = Some u" using u by simp
      then show ?thesis using u by blast
    qed simp
  qed
qed

lemma ledger_inv_register:
  assumes "ledger_inv H loc tr seen" and "loc a = None"
  shows "ledger_inv H (loc(a \<mapsto> Active d)) tr seen"
  using assms unfolding ledger_inv_def by (auto 4 3)

section \<open>Lookups\<close>

lemma btm_get_insert_upd [simp]: "btm_get (btm_insert k v m) = (btm_get m)(k \<mapsto> v)"
  by (rule ext) simp

lemma is_processed_next_nonce [simp]: "next_nonce a b c s = (n, s') \<Longrightarrow> is_processed s' = is_processed s"
  by (auto simp: next_nonce_def Let_def is_processed_def)

lemma is_processed_mark:
  "mark_processed m s = (Inr u, s') \<Longrightarrow> is_processed s' m' \<longleftrightarrow> m' = m \<or> is_processed s m'"
  by (auto simp: mark_processed_def is_processed_def split: if_splits)

lemma mark_fresh: "\<not> is_processed s m \<Longrightarrow> \<exists>s'. mark_processed m s = (Inr (), s')"
  by (simp add: mark_processed_def is_processed_def)

section \<open>Inversion of the operations\<close>

lemma register_cases:
  assumes "register_asset a d s = (r, s')"
  obtains (err) "r = Inl AssetRegistered" "s' = s" "btm_get (asset_locations s) a \<noteq> None"
  | (ok) "r = Inr ()" "btm_get (asset_locations s) a = None"
      "s' = s\<lparr>asset_locations := btm_insert a (Active d) (asset_locations s)\<rparr>"
  using assms by (auto simp: register_asset_def btm_contains_def split: if_splits)

definition enqueue_expiry :: "u64 \<Rightarrow> message_id \<Rightarrow> (u64, message_id list) btree_map \<Rightarrow> (u64, message_id list) btree_map" where
  "enqueue_expiry ex mid queue =
     (if ex > 0 then btm_insert ex ((case btm_get queue ex of Some mids \<Rightarrow> mids | None \<Rightarrow> []) @ [mid]) queue else queue)"

lemma lock_cases:
  assumes "lock H src tgt h i a ow rc am ex s = (r, s')"
  obtains (err) e where "r = Inl e" "s' = s" "btm_get (asset_locations s) a \<noteq> Some (Active src)"
  | (ok) t ev n store where "r = Inr (t, ev)" "btm_get (asset_locations s) a = Some (Active src)"
      "next_nonce src tgt ow (replay_store s) = (n, store)"
      "tr_asset_id t = a" "tr_status t = Locked src" "tr_source_domain t = src" "tr_target_domain t = tgt"
      "tr_owner t = ow" "tr_recipient t = rc" "tr_amount t = am" "tr_expiry_height t = ex"
      "tr_message_id t = msg_id (new_message H (lock_params H t h i n))"
      "ev_message ev = Some (new_message H (lock_params H t h i n))"
      "tr_source_event_hash t = leaf_hash H ev"
      "s' = s\<lparr>asset_locations := btm_insert a (Locked src) (asset_locations s),
             transfers := btm_insert (tr_message_id t) t (transfers s),
             expiry_queue := enqueue_expiry ex (tr_message_id t) (expiry_queue s),
             replay_store := store\<rparr>"
proof (cases "btm_get (asset_locations s) a = Some (Active src)")
  case True
  obtain n store where n: "next_nonce src tgt ow (replay_store s) = (n, store)" by fastforce
  show thesis
  proof (rule ok [OF _ True n])
    show "r = Inr (fst (projr r), snd (projr r))"
      and "s' = s\<lparr>asset_locations := btm_insert a (Locked src) (asset_locations s),
             transfers := btm_insert (tr_message_id (fst (projr r))) (fst (projr r)) (transfers s),
             expiry_queue := enqueue_expiry ex (tr_message_id (fst (projr r))) (expiry_queue s),
             replay_store := store\<rparr>"
      using assms True n
      by (auto simp: lock_def require_asset_status_def Let_def enqueue_expiry_def)
  qed (use assms True n in \<open>auto simp: lock_def require_asset_status_def Let_def lock_params_def\<close>)
next
  case False
  then show thesis using assms
    by (intro err [of "projl r"]) (auto simp: lock_def require_asset_status_def split: option.splits if_splits)
qed

lemma mint_cases:
  assumes "mint H m s = (r, s')"
  obtains (err) e where "r = Inl e" "s' = s"
  | (ok) t store where "r = Inr ()" "verify_id H m" "btm_get (transfers s) (msg_id m) = Some t"
      "msg_payload_hash m = bridge_payload_hash H (tr_asset_id t) (tr_amount t)"
      "\<not> is_processed (replay_store s) (msg_id m)" "tr_status t = Locked (msg_source_domain m)"
      "mark_processed (msg_id m) (replay_store s) = (Inr (), store)"
      "s' = s\<lparr>asset_locations := btm_insert (tr_asset_id t) (Minted (msg_target_domain m)) (asset_locations s),
             transfers := btm_insert (msg_id m) (t\<lparr>tr_status := Minted (msg_target_domain m)\<rparr>) (transfers s),
             replay_store := store\<rparr>"
proof (cases "verify_id H m \<and> (\<exists>t. btm_get (transfers s) (msg_id m) = Some t \<and>
    msg_payload_hash m = bridge_payload_hash H (tr_asset_id t) (tr_amount t) \<and>
    \<not> is_processed (replay_store s) (msg_id m) \<and> tr_status t = Locked (msg_source_domain m))")
  case True
  then obtain t where t: "verify_id H m" "btm_get (transfers s) (msg_id m) = Some t"
      "msg_payload_hash m = bridge_payload_hash H (tr_asset_id t) (tr_amount t)"
      "\<not> is_processed (replay_store s) (msg_id m)" "tr_status t = Locked (msg_source_domain m)" by blast
  obtain store where st: "mark_processed (msg_id m) (replay_store s) = (Inr (), store)"
    using mark_fresh [OF t(4)] by blast
  show thesis using assms t st by (intro ok [OF _ t st]) (simp_all add: mint_def)
next
  case False
  then show thesis using assms
    by (intro err [of "projl r"]) (auto simp: mint_def split: option.splits if_splits)
qed

lemma burn_cases:
  assumes "burn_with_event H mid d h i ex s = (r, s')"
  obtains (err) e where "r = Inl e" "s' = s"
  | (ok) t ev n store where "r = Inr ev" "btm_get (transfers s) mid = Some t" "tr_status t = Minted d"
      "next_nonce d (tr_source_domain t) (tr_recipient t) (replay_store s) = (n, store)"
      "s' = s\<lparr>asset_locations := btm_insert (tr_asset_id t) (Burned d) (asset_locations s),
             transfers := btm_insert mid (t\<lparr>tr_status := Burned d\<rparr>) (transfers s),
             replay_store := store\<rparr>"
proof (cases "\<exists>t. btm_get (transfers s) mid = Some t \<and> tr_status t = Minted d")
  case True
  then obtain t where t: "btm_get (transfers s) mid = Some t" "tr_status t = Minted d" by blast
  obtain n store where n: "next_nonce d (tr_source_domain t) (tr_recipient t) (replay_store s) = (n, store)"
    by fastforce
  show thesis
    using assms t n by (intro ok [OF _ t n, of "projr r"]) (auto simp: burn_with_event_def Let_def)
next
  case False
  then show thesis using assms
    by (intro err [of "projl r"]) (auto simp: burn_with_event_def split: option.splits if_splits)
qed

lemma unlock_cases:
  assumes "unlock mid d s = (r, s')"
  obtains (err) e where "r = Inl e" "s' = s"
  | (ok) t where "r = Inr ()" "btm_get (transfers s) mid = Some t" "tr_status t = Burned (tr_target_domain t)"
      "tr_target_domain t = d"
      "s' = s\<lparr>asset_locations := btm_insert (tr_asset_id t) (Active (tr_source_domain t)) (asset_locations s),
             transfers := btm_insert mid (t\<lparr>tr_status := Unlocked (tr_source_domain t)\<rparr>) (transfers s)\<rparr>"
  using assms by (auto simp: unlock_def Let_def split: option.splits if_splits)

lemma release_cases:
  assumes "release_lock mid (s, rel) = (s', rel')"
  obtains (skip) "s' = s" "rel' = rel" "\<And>t d. btm_get (transfers s) mid = Some t \<Longrightarrow> tr_status t \<noteq> Locked d"
  | (ok) t d where "btm_get (transfers s) mid = Some t" "tr_status t = Locked d"
      "rel' = rel @ [(tr_owner t, tr_amount t)]"
      "s' = s\<lparr>transfers := btm_insert mid (t\<lparr>tr_status := Active d\<rparr>) (transfers s),
             asset_locations := btm_insert (tr_asset_id t) (Active d) (asset_locations s)\<rparr>"
proof (cases "\<exists>t d. btm_get (transfers s) mid = Some t \<and> tr_status t = Locked d")
  case True
  then show thesis using assms ok by (auto simp: release_lock_def)
next
  case False
  then show thesis using assms
    by (intro skip) (auto simp: release_lock_def split: option.splits bridge_status.splits)
qed

section \<open>Identifiers of transfers\<close>

lemma payload_inject:
  assumes "inj H"
  shows "bridge_payload_hash H a x = bridge_payload_hash H b y \<longleftrightarrow> a = b \<and> x = y"
  unfolding bridge_payload_hash_def inj_eq [OF assms] by simp

lemma verified_id_fields:
  assumes "inj H" "verify_id H m" "verify_id H m'" "msg_id m = msg_id m'"
  shows "msg_source_domain m = msg_source_domain m'" "msg_target_domain m = msg_target_domain m'"
    "msg_payload_hash m = msg_payload_hash m'" "msg_expiry_height m = msg_expiry_height m'"
    "msg_nonce m = msg_nonce m'" "msg_sender m = msg_sender m'"
proof -
  have "message_fields m = message_fields m'"
    using assms(2-4) by (simp add: verify_id_def calculate_message_id_def inj_eq [OF assms(1)])
  note eq = message_fields_inject(2) [OF this, of undefined undefined]
  from arg_cong [OF eq, of msg_source_domain] show "msg_source_domain m = msg_source_domain m'" by simp
  from arg_cong [OF eq, of msg_target_domain] show "msg_target_domain m = msg_target_domain m'" by simp
  from arg_cong [OF eq, of msg_payload_hash] show "msg_payload_hash m = msg_payload_hash m'" by simp
  from arg_cong [OF eq, of msg_expiry_height] show "msg_expiry_height m = msg_expiry_height m'" by simp
  from arg_cong [OF eq, of msg_nonce] show "msg_nonce m = msg_nonce m'" by simp
  from arg_cong [OF eq, of msg_sender] show "msg_sender m = msg_sender m'" by simp
qed

lemma transfer_ok_message:
  assumes "inj H" "transfer_ok H mid t" "verify_id H m" "msg_id m = mid"
  shows "msg_source_domain m = tr_source_domain t" "msg_target_domain m = tr_target_domain t"
    "msg_payload_hash m = bridge_payload_hash H (tr_asset_id t) (tr_amount t)"
    "msg_expiry_height m = tr_expiry_height t"
proof -
  obtain h i n where "mid = msg_id (new_message H (lock_params H t h i n))"
    using assms(2) by (auto simp: transfer_ok_def)
  note eq = verified_id_fields [OF assms(1,3) verify_new(1), of "lock_params H t h i n", unfolded assms(4), OF this]
  show "msg_source_domain m = tr_source_domain t" "msg_target_domain m = tr_target_domain t"
    "msg_payload_hash m = bridge_payload_hash H (tr_asset_id t) (tr_amount t)"
    "msg_expiry_height m = tr_expiry_height t"
    using eq by (simp_all add: lock_params_def)
qed

lemma transfer_ok_same:
  assumes "inj H" "transfer_ok H mid t" "transfer_ok H mid t'"
  shows "tr_asset_id t = tr_asset_id t'" "tr_expiry_height t = tr_expiry_height t'"
proof -
  obtain h i n where "mid = msg_id (new_message H (lock_params H t h i n))"
    using assms(2) by (auto simp: transfer_ok_def)
  note eq = transfer_ok_message(3,4) [OF assms(1,3) verify_new(1) this [symmetric]]
  show "tr_asset_id t = tr_asset_id t'" "tr_expiry_height t = tr_expiry_height t'"
    using eq by (simp_all add: lock_params_def payload_inject [OF assms(1)])
qed

lemma transfer_ok_status:
  "transfer_ok H mid t \<Longrightarrow> status_ok (tr_source_domain t) (tr_target_domain t) st \<Longrightarrow>
   transfer_ok H mid (t\<lparr>tr_status := st\<rparr>)"
  by (simp add: transfer_ok_def lock_params_def)

lemma ledger_inv_restatus:
  assumes inv: "ledger_inv H loc tr seen" and t: "tr mid = Some t" and fl: "in_flight (tr_status t)"
    and ok: "status_ok (tr_source_domain t) (tr_target_domain t) st"
    and loc: "in_flight st \<Longrightarrow> st' = st" "\<not> in_flight st \<Longrightarrow> \<exists>d. st' = Active d"
    and seen: "past_mint st \<Longrightarrow> seen mid"
  shows "ledger_inv H (loc(tr_asset_id t \<mapsto> st')) (tr(mid \<mapsto> t\<lparr>tr_status := st\<rparr>)) seen"
proof -
  note mv = ledger_inv_move [OF inv transfer_ok_status [OF ledger_invD(1) [OF inv t] ok], of st', simplified]
  show ?thesis
    by (rule mv) (use loc seen t ledger_invD(4) [OF inv t fl] in auto)
qed

section \<open>Every operation keeps the invariant\<close>

definition queue_inv :: "message_id set \<Rightarrow> bridge_state \<Rightarrow> bool" where
  "queue_inv pending s \<longleftrightarrow>
     (\<forall>mid t d. btm_get (transfers s) mid = Some t \<longrightarrow> tr_status t = Locked d \<longrightarrow> tr_expiry_height t > 0 \<longrightarrow>
        mid \<in> pending \<or>
        (\<exists>mids. btm_get (expiry_queue s) (tr_expiry_height t) = Some mids \<and> mid \<in> set mids))"

definition queue_sound :: "bridge_state \<Rightarrow> bool" where
  "queue_sound s \<longleftrightarrow>
     (\<forall>h mids mid. btm_get (expiry_queue s) h = Some mids \<longrightarrow> mid \<in> set mids \<longrightarrow>
        0 < h \<and> (\<exists>t. btm_get (transfers s) mid = Some t \<and> tr_expiry_height t = h))"

abbreviation ledger_of :: "hash_fn \<Rightarrow> bridge_state \<Rightarrow> bool" where
  "ledger_of H s \<equiv>
     ledger_inv H (btm_get (asset_locations s)) (btm_get (transfers s)) (is_processed (replay_store s))"

definition bridge_inv :: "hash_fn \<Rightarrow> bridge_state \<Rightarrow> bool" where
  "bridge_inv H s \<longleftrightarrow> ledger_of H s \<and> btm_ok (transfers s) \<and> btm_ok (expiry_queue s) \<and> queue_inv {} s \<and>
     queue_sound s"

lemma bridge_inv_new: "bridge_inv H bridge_new"
  by (simp add: bridge_inv_def bridge_new_def ledger_inv_def btm.ok_empty queue_inv_def queue_sound_def)

lemma queue_inv_restatus:
  assumes "queue_inv pending s" and "\<And>d. st \<noteq> Locked d"
    and "transfers s' = btm_insert mid (t\<lparr>tr_status := st\<rparr>) (transfers s)"
    and "expiry_queue s' = expiry_queue s"
  shows "queue_inv (pending - {mid}) s'"
  using assms(1,2) unfolding queue_inv_def assms(3,4) by auto

lemma queue_sound_restatus:
  assumes "queue_sound s" and "btm_get (transfers s) mid = Some t"
    and "transfers s' = btm_insert mid (t\<lparr>tr_status := st\<rparr>) (transfers s)"
    and "expiry_queue s' = expiry_queue s"
  shows "queue_sound s'"
  using assms(1,2) unfolding queue_sound_def assms(3,4) by fastforce

lemma get_enqueue:
  "ex > 0 \<Longrightarrow> \<exists>mids. btm_get (enqueue_expiry ex mid q) ex = Some mids \<and> mid \<in> set mids"
  "btm_get q e = Some mids \<Longrightarrow> \<exists>mids'. btm_get (enqueue_expiry ex mid q) e = Some mids' \<and> set mids \<subseteq> set mids'"
  by (auto simp: enqueue_expiry_def)

lemma queue_inv_lock:
  assumes q: "queue_inv {} s"
    and s': "transfers s' = btm_insert mid t (transfers s)"
      "expiry_queue s' = enqueue_expiry (tr_expiry_height t) mid (expiry_queue s)"
  shows "queue_inv {} s'"
  unfolding queue_inv_def
proof (intro allI impI)
  fix m u d
  assume u: "btm_get (transfers s') m = Some u" "tr_status u = Locked d" "0 < tr_expiry_height u"
  show "m \<in> {} \<or> (\<exists>mids. btm_get (expiry_queue s') (tr_expiry_height u) = Some mids \<and> m \<in> set mids)"
  proof (cases "m = mid")
    case True
    then have "u = t" using u(1) by (simp add: s')
    then show ?thesis using get_enqueue(1) u(3) True by (simp add: s')
  next
    case False
    then have "btm_get (transfers s) m = Some u" using u(1) by (simp add: s')
    then obtain mids where "btm_get (expiry_queue s) (tr_expiry_height u) = Some mids" "m \<in> set mids"
      using q u(2,3) unfolding queue_inv_def by blast
    then show ?thesis using get_enqueue(2) unfolding s' by blast
  qed
qed

lemma queue_sound_lock:
  assumes q: "queue_sound s"
    and s': "transfers s' = btm_insert mid t (transfers s)"
      "expiry_queue s' = enqueue_expiry (tr_expiry_height t) mid (expiry_queue s)"
    and old: "\<And>t'. btm_get (transfers s) mid = Some t' \<Longrightarrow> tr_expiry_height t' = tr_expiry_height t"
  shows "queue_sound s'"
  unfolding queue_sound_def
proof (intro allI impI)
  fix h mids m
  assume "btm_get (expiry_queue s') h = Some mids" "m \<in> set mids"
  then have "m = mid \<and> h = tr_expiry_height t \<and> 0 < h \<or> (\<exists>ms. btm_get (expiry_queue s) h = Some ms \<and> m \<in> set ms)"
    by (auto simp: s' enqueue_expiry_def split: if_splits option.splits)
  then consider "m = mid" "h = tr_expiry_height t" "0 < h"
    | u where "btm_get (transfers s) m = Some u" "tr_expiry_height u = h" "0 < h"
    using q unfolding queue_sound_def by blast
  then show "0 < h \<and> (\<exists>u. btm_get (transfers s') m = Some u \<and> tr_expiry_height u = h)"
    using old by cases (auto simp: s')
qed

lemma btm_ok_enqueue: "btm_ok q \<Longrightarrow> btm_ok (enqueue_expiry ex mid q)"
  by (simp add: enqueue_expiry_def btm_ok_insert)

lemma register_inv: "bridge_inv H s \<Longrightarrow> register_asset a d s = (r, s') \<Longrightarrow> bridge_inv H s'"
  by (erule register_cases) (auto simp: bridge_inv_def queue_inv_def queue_sound_def intro: ledger_inv_register)

lemma lock_inv:
  assumes "inj H" and inv: "bridge_inv H s" and "lock H src tgt h i a ow rc am ex s = (r, s')"
  shows "bridge_inv H s'"
  using assms(3)
proof (cases rule: lock_cases)
  case err
  then show ?thesis using inv by simp
next
  case (ok t ev n store)
  have led: "ledger_of H s" using inv by (simp add: bridge_inv_def)
  have tok: "transfer_ok H (tr_message_id t) t"
    unfolding transfer_ok_def using ok by auto
  have "ledger_inv H ((btm_get (asset_locations s))(tr_asset_id t \<mapsto> Locked src))
      ((btm_get (transfers s))(tr_message_id t \<mapsto> t)) (is_processed (replay_store s))"
  proof (rule ledger_inv_move [OF led tok])
    show "tr_asset_id t' = tr_asset_id t" if "btm_get (transfers s) (tr_message_id t) = Some t'" for t'
      using transfer_ok_same(1) [OF \<open>inj H\<close> ledger_invD(1) [OF led that] tok] .
    show "mid' = tr_message_id t"
      if "btm_get (transfers s) mid' = Some t'" "in_flight (tr_status t')" "tr_asset_id t' = tr_asset_id t" for mid' t'
    proof -
      have "tr_status t' = Active src" using ledger_invD(2) [OF led that(1,2)] that(3) ok(2,4) by simp
      then show ?thesis using that(2) by simp
    qed
  qed (use ok in auto)
  moreover have "queue_sound s'"
  proof (rule queue_sound_lock [of s s' "tr_message_id t" t])
    show "tr_expiry_height t' = tr_expiry_height t" if "btm_get (transfers s) (tr_message_id t) = Some t'" for t'
      using transfer_ok_same(2) [OF \<open>inj H\<close> ledger_invD(1) [OF led that] tok] .
  qed (use inv ok in \<open>simp_all add: bridge_inv_def\<close>)
  ultimately show ?thesis
    using inv queue_inv_lock [of s s' "tr_message_id t" t] ok
    by (simp add: bridge_inv_def btm_ok_insert btm_ok_enqueue)
qed

lemma mint_inv:
  assumes "inj H" and inv: "bridge_inv H s" and "mint H m s = (r, s')"
  shows "bridge_inv H s'"
  using assms(3)
proof (cases rule: mint_cases)
  case (ok t store)
  have led: "ledger_of H s" using inv by (simp add: bridge_inv_def)
  have led': "ledger_inv H (btm_get (asset_locations s)) (btm_get (transfers s)) (is_processed store)"
    by (rule ledger_inv_seen_mono [OF led]) (simp add: is_processed_mark [OF ok(7)])
  have tgt: "msg_target_domain m = tr_target_domain t"
    using transfer_ok_message(2) [OF \<open>inj H\<close> ledger_invD(1) [OF led ok(3)] ok(2) refl] .
  have "ledger_inv H ((btm_get (asset_locations s))(tr_asset_id t \<mapsto> Minted (msg_target_domain m)))
      ((btm_get (transfers s))(msg_id m \<mapsto> t\<lparr>tr_status := Minted (msg_target_domain m)\<rparr>)) (is_processed store)"
    by (rule ledger_inv_restatus [OF led' ok(3)]) (simp_all add: ok(6) tgt is_processed_mark [OF ok(7)])
  then show ?thesis
    using inv queue_inv_restatus [of "{}" s "Minted (msg_target_domain m)" s' "msg_id m" t] queue_sound_restatus [OF _ ok(3), of s' "Minted (msg_target_domain m)"] ok(8)
    by (simp add: bridge_inv_def btm_ok_insert)
qed (use inv in simp)

lemma burn_inv:
  assumes inv: "bridge_inv H s" and "burn_with_event H mid d h i ex s = (r, s')"
  shows "bridge_inv H s'"
  using assms(2)
proof (cases rule: burn_cases)
  case (ok t ev n store)
  have led: "ledger_of H s" using inv by (simp add: bridge_inv_def)
  have "ledger_inv H ((btm_get (asset_locations s))(tr_asset_id t \<mapsto> Burned d))
      ((btm_get (transfers s))(mid \<mapsto> t\<lparr>tr_status := Burned d\<rparr>)) (is_processed (replay_store s))"
    by (rule ledger_inv_restatus [OF led ok(2)])
      (use ok(3) ledger_invD(1,3) [OF led ok(2)] in \<open>simp_all add: transfer_ok_def\<close>)
  then show ?thesis
    using inv queue_inv_restatus [of "{}" s "Burned d" s' mid t] queue_sound_restatus [OF _ ok(2), of s' "Burned d"] ok(4,5)
    by (simp add: bridge_inv_def btm_ok_insert)
qed (use inv in simp)

lemma unlock_inv:
  assumes inv: "bridge_inv H s" and "unlock mid d s = (r, s')"
  shows "bridge_inv H s'"
  using assms(2)
proof (cases rule: unlock_cases)
  case (ok t)
  have led: "ledger_of H s" using inv by (simp add: bridge_inv_def)
  have "ledger_inv H ((btm_get (asset_locations s))(tr_asset_id t \<mapsto> Active (tr_source_domain t)))
      ((btm_get (transfers s))(mid \<mapsto> t\<lparr>tr_status := Unlocked (tr_source_domain t)\<rparr>)) (is_processed (replay_store s))"
    by (rule ledger_inv_restatus [OF led ok(2)])
      (use ok(3) ledger_invD(1,3) [OF led ok(2)] in \<open>simp_all\<close>)
  then show ?thesis
    using inv queue_inv_restatus [of "{}" s "Unlocked (tr_source_domain t)" s' mid t] queue_sound_restatus [OF _ ok(2), of s' "Unlocked (tr_source_domain t)"] ok(5)
    by (simp add: bridge_inv_def btm_ok_insert)
qed (use inv in simp)

section \<open>The sweep\<close>

fun is_locked :: "bridge_status \<Rightarrow> bool" where
  "is_locked (Locked _) = True"
| "is_locked _ = False"

definition outstanding :: "bridge_state \<Rightarrow> (address \<times> u128) multiset" where
  "outstanding s = image_mset (\<lambda>(_, t). (tr_owner t, tr_amount t))
     (filter_mset (\<lambda>(_, t). is_locked (tr_status t)) (mset (transfers s)))"

lemma mset_btm_insert:
  assumes "btm_ok m" and "btm_get m k = Some v"
  obtains rest where "mset m = add_mset (k, v) rest" "mset (btm_insert k v' m) = add_mset (k, v') rest"
proof -
  have "\<exists>rest. mset m = add_mset (k, v) rest \<and> mset (btm_insert k v' m) = add_mset (k, v') rest"
    using assms
  proof (induction m)
    case (Cons e m)
    obtain k1 v1 where e: "e = (k1, v1)" by fastforce
    show ?case
    proof (cases "k1 = k")
      case True
      then show ?thesis using Cons.prems(2) by (auto simp: e btm_get_def)
    next
      case False
      then have get: "btm_get m k = Some v" using Cons.prems(2) by (simp add: e btm_get_def)
      then have "k1 < k" using Cons.prems(1) btm_get_in_set [OF get] by (force simp: e btm_ok_def)
      moreover obtain rest where "mset m = add_mset (k, v) rest" "mset (btm_insert k v' m) = add_mset (k, v') rest"
        using Cons.IH get Cons.prems(1) by (auto simp: btm_ok_def)
      ultimately show ?thesis by (auto simp: e add_mset_commute)
    qed
  qed simp
  then show thesis using that by blast
qed

definition sweep_inv ::
    "hash_fn \<Rightarrow> replay_nonce_store \<Rightarrow> (address \<times> u128) multiset \<Rightarrow> message_id set \<Rightarrow> bridge_state \<times> released \<Rightarrow> bool" where
  "sweep_inv H store due pending acc \<longleftrightarrow>
     ledger_of H (fst acc) \<and> btm_ok (transfers (fst acc)) \<and> btm_ok (expiry_queue (fst acc)) \<and>
     queue_inv pending (fst acc) \<and> queue_sound (fst acc) \<and> replay_store (fst acc) = store \<and>
     outstanding (fst acc) + mset (snd acc) = due"

lemma release_sweep_inv:
  assumes inv: "sweep_inv H store due pending (s, rel)" and "release_lock mid (s, rel) = (s', rel')"
  shows "sweep_inv H store due (pending - {mid}) (s', rel') \<and> expiry_queue s' = expiry_queue s"
  using assms(2)
proof (cases rule: release_cases)
  case skip
  have "queue_inv (pending - {mid}) s"
    using inv skip(3) unfolding sweep_inv_def queue_inv_def by (metis Diff_iff fst_conv singletonD)
  then show ?thesis using inv skip(1,2) by (auto simp: sweep_inv_def)
next
  case (ok t d)
  have led: "ledger_of H s" and bok: "btm_ok (transfers s)" using inv unfolding sweep_inv_def by auto
  have src: "d = tr_source_domain t" using ledger_invD(1) [OF led ok(1)] ok(2) by (simp add: transfer_ok_def)
  have "ledger_inv H ((btm_get (asset_locations s))(tr_asset_id t \<mapsto> Active d))
      ((btm_get (transfers s))(mid \<mapsto> t\<lparr>tr_status := Active d\<rparr>)) (is_processed (replay_store s))"
    by (rule ledger_inv_restatus [OF led ok(1)]) (simp_all add: ok(2) src)
  moreover obtain rest where "mset (transfers s) = add_mset (mid, t) rest"
      "mset (btm_insert mid (t\<lparr>tr_status := Active d\<rparr>) (transfers s)) = add_mset (mid, t\<lparr>tr_status := Active d\<rparr>) rest"
    using mset_btm_insert [OF bok ok(1)] by blast
  then have "outstanding s' + mset rel' = outstanding s + mset rel"
    by (simp add: outstanding_def ok(2-4))
  ultimately show ?thesis
    using inv queue_inv_restatus [of pending s "Active d" s' mid t] queue_sound_restatus [OF _ ok(1), of s' "Active d"] ok(4)
    by (auto simp: sweep_inv_def btm_ok_insert)
qed

lemma fold_release_sweep_inv:
  "sweep_inv H store due pending acc \<Longrightarrow>
   sweep_inv H store due (pending - set mids) (fold release_lock mids acc) \<and>
   expiry_queue (fst (fold release_lock mids acc)) = expiry_queue (fst acc)"
proof (induction mids arbitrary: pending acc)
  case (Cons m mids)
  obtain s rel where acc: "acc = (s, rel)" by (cases acc)
  obtain s' rel' where "release_lock m (s, rel) = (s', rel')" by (cases "release_lock m (s, rel)")
  note r = this
  have set: "pending - {m} - set mids = pending - set (m # mids)" by auto
  show ?case
    using release_sweep_inv [OF Cons.prems [unfolded acc] r] Cons.IH [of "pending - {m}" "(s', rel')", unfolded set]
    by (simp add: acc r)
qed simp

lemma sweep_height_pending:
  assumes inv: "sweep_inv H store due {} (s, rel)" and get: "btm_get (expiry_queue s) h = Some mids"
  shows "sweep_inv H store due (set mids) (s\<lparr>expiry_queue := btm_remove h (expiry_queue s)\<rparr>, rel)"
proof -
  let ?s = "s\<lparr>expiry_queue := btm_remove h (expiry_queue s)\<rparr>"
  have "queue_inv (set mids) ?s"
    using inv get unfolding sweep_inv_def queue_inv_def by fastforce
  moreover have "queue_sound ?s" using inv by (auto simp: sweep_inv_def queue_sound_def)
  ultimately show ?thesis
    using inv by (auto simp: sweep_inv_def outstanding_def btm.ok_del)
qed

lemma sweep_height_inv:
  assumes "sweep_inv H store due {} acc"
  shows "sweep_inv H store due {} (sweep_height h acc) \<and>
    btm_get (expiry_queue (fst (sweep_height h acc))) = (btm_get (expiry_queue (fst acc)))(h := None)"
proof -
  obtain s rel where acc: "acc = (s, rel)" by fastforce
  show ?thesis
  proof (cases "btm_get (expiry_queue s) h")
    case None
    then show ?thesis using assms by (simp add: acc sweep_height_def fun_upd_idem)
  next
    case (Some mids)
    from fold_release_sweep_inv [OF sweep_height_pending [OF assms [unfolded acc] Some], of mids] show ?thesis
      by (simp add: acc sweep_height_def Some fun_eq_iff)
  qed
qed

lemma fold_sweep_inv:
  assumes "sweep_inv H store due {} acc"
  shows "sweep_inv H store due {} (fold sweep_height hs acc) \<and>
    btm_get (expiry_queue (fst (fold sweep_height hs acc))) =
      (\<lambda>k. if k \<in> set hs then None else btm_get (expiry_queue (fst acc)) k)"
  using assms
proof (induction hs arbitrary: acc)
  case (Cons h hs)
  then show ?case using sweep_height_inv [OF Cons.prems, of h] Cons.IH [of "sweep_height h acc"]
    by (auto simp: fun_eq_iff)
qed simp

lemma sweep_facts:
  assumes inv: "bridge_inv H s" and sw: "sweep_expired_locks current s = (rel, s')"
  shows "bridge_inv H s'"
    and "outstanding s' + mset rel = outstanding s"
    and "replay_store s' = replay_store s"
    and "btm_get (expiry_queue s') = (\<lambda>k. if k \<le> current then None else btm_get (expiry_queue s) k)"
proof -
  let ?hs = "map fst (btm_range_to current (expiry_queue s))"
  have fld: "fold sweep_height ?hs (s, []) = (s', rel)"
    using sw by (simp add: sweep_expired_locks_def split: prod.splits)
  have "sweep_inv H (replay_store s) (outstanding s) {} (s, [])"
    using inv by (simp add: sweep_inv_def bridge_inv_def)
  note res = fold_sweep_inv [OF this, of ?hs, unfolded fld fst_conv]
  show "bridge_inv H s'" "outstanding s' + mset rel = outstanding s" "replay_store s' = replay_store s"
    using conjunct1 [OF res] unfolding sweep_inv_def bridge_inv_def by auto
  have "btm_get (expiry_queue s) k = None" if "k \<le> current" "k \<notin> set ?hs" for k
  proof (rule ccontr)
    assume "btm_get (expiry_queue s) k \<noteq> None"
    then obtain v where "btm_get (expiry_queue s) k = Some v" by auto
    then have "(k, v) \<in> set (btm_range_to current (expiry_queue s))"
      using btm_get_in_set that(1) by (simp add: btm_range_to_def)
    then have "k \<in> set ?hs" by (metis fst_conv image_eqI list.set_map)
    then show False using that(2) by simp
  qed
  then show "btm_get (expiry_queue s') = (\<lambda>k. if k \<le> current then None else btm_get (expiry_queue s) k)"
    unfolding conjunct2 [OF res] by (auto simp: fun_eq_iff btm_range_to_def)
qed

section \<open>Reachable states\<close>

inductive_cases bridge_stepE: "bridge_step H s s'"

lemma bridge_step_inv: "inj H \<Longrightarrow> bridge_inv H s \<Longrightarrow> bridge_step H s s' \<Longrightarrow> bridge_inv H s'"
  by (erule bridge_stepE)
    (rule register_inv lock_inv mint_inv burn_inv unlock_inv sweep_facts(1); assumption)+

interpretation bridge_run: inductive_invariant "bridge_step H" "\<lambda>s. inj H \<longrightarrow> bridge_inv H s" for H
  by unfold_locales (blast intro: bridge_step_inv)

lemma sweep_processed:
  assumes "sweep_expired_locks h s = (r, s')"
  shows "replay_store s' = replay_store s"
proof -
  have rel: "replay_store (fst (fold release_lock mids acc)) = replay_store (fst acc)" for mids acc
    by (induction mids arbitrary: acc)
      (auto simp: release_lock_def split: prod.splits option.splits bridge_status.splits)
  have "replay_store (fst (fold sweep_height hs acc)) = replay_store (fst acc)" for hs acc
    by (induction hs arbitrary: acc) (auto simp: sweep_height_def rel split: prod.splits option.splits)
  from this [of "map fst (btm_range_to h (expiry_queue s))" "(s, [])"] show ?thesis
    using assms by (simp add: sweep_expired_locks_def split: prod.splits)
qed

lemma bridge_step_processed:
  "bridge_step H s s' \<Longrightarrow> is_processed (replay_store s) m \<Longrightarrow> is_processed (replay_store s') m"
proof (erule bridge_stepE)
  fix msg r
  assume "mint H msg s = (r, s')" "is_processed (replay_store s) m"
  then show "is_processed (replay_store s') m" by (cases rule: mint_cases) (simp_all add: is_processed_mark)
next
  fix mid d h i ex r
  assume "burn_with_event H mid d h i ex s = (r, s')" "is_processed (replay_store s) m"
  then show "is_processed (replay_store s') m" by (cases rule: burn_cases) simp_all
qed (auto elim!: register_cases unlock_cases lock_cases dest: sweep_processed)

interpretation processed_run: inductive_invariant "bridge_step H" "\<lambda>s. is_processed (replay_store s) m" for H m
  by unfold_locales (rule bridge_step_processed)

section \<open>What the sweep does to each transfer\<close>

definition released_transfer :: "bridge_transfer \<Rightarrow> bridge_transfer" where
  "released_transfer t = (case tr_status t of Locked d \<Rightarrow> t\<lparr>tr_status := Active d\<rparr> | _ \<Rightarrow> t)"

lemma released_transfer_idem [simp]: "released_transfer (released_transfer t) = released_transfer t"
  by (simp add: released_transfer_def split: bridge_status.splits)

lemma release_transfers:
  "btm_get (transfers (fst (release_lock mid acc))) m =
     (if m = mid then map_option released_transfer (btm_get (transfers (fst acc)) m) else btm_get (transfers (fst acc)) m)"
  by (auto simp: release_lock_def released_transfer_def split: prod.splits option.splits bridge_status.splits)

lemma fold_release_transfers:
  "btm_get (transfers (fst (fold release_lock mids acc))) m =
     (if m \<in> set mids then map_option released_transfer (btm_get (transfers (fst acc)) m) else btm_get (transfers (fst acc)) m)"
  by (induction mids arbitrary: acc) (auto simp: release_transfers option.map_comp comp_def)

lemma release_queue [simp]: "expiry_queue (fst (fold release_lock mids acc)) = expiry_queue (fst acc)"
proof (induction mids arbitrary: acc)
  case (Cons m mids)
  have "expiry_queue (fst (release_lock m acc)) = expiry_queue (fst acc)"
    by (simp add: release_lock_def split: prod.splits option.splits bridge_status.splits)
  then show ?case using Cons by simp
qed simp

definition queued_at :: "(u64, message_id list) btree_map \<Rightarrow> u64 \<Rightarrow> message_id \<Rightarrow> bool" where
  "queued_at q h m \<longleftrightarrow> (\<exists>mids. btm_get q h = Some mids \<and> m \<in> set mids)"

lemma fold_sweep_transfers:
  "distinct hs \<Longrightarrow>
   btm_get (transfers (fst (fold sweep_height hs acc))) m =
     (if \<exists>h \<in> set hs. queued_at (expiry_queue (fst acc)) h m
      then map_option released_transfer (btm_get (transfers (fst acc)) m) else btm_get (transfers (fst acc)) m)"
proof (induction hs arbitrary: acc)
  case (Cons h hs)
  let ?acc = "sweep_height h acc"
  have q: "queued_at (expiry_queue (fst ?acc)) k m \<longleftrightarrow> queued_at (expiry_queue (fst acc)) k m" if "k \<noteq> h" for k
    using that by (auto simp: queued_at_def sweep_height_def split: prod.splits option.splits)
  have t: "btm_get (transfers (fst ?acc)) m =
     (if queued_at (expiry_queue (fst acc)) h m
      then map_option released_transfer (btm_get (transfers (fst acc)) m) else btm_get (transfers (fst acc)) m)"
    by (auto simp: queued_at_def sweep_height_def fold_release_transfers split: prod.splits option.splits)
  have "(\<exists>k \<in> set hs. queued_at (expiry_queue (fst ?acc)) k m) \<longleftrightarrow> (\<exists>k \<in> set hs. queued_at (expiry_queue (fst acc)) k m)"
  proof (rule bex_cong [OF refl])
    fix k assume "k \<in> set hs"
    then have "k \<noteq> h" using Cons.prems by auto
    then show "queued_at (expiry_queue (fst ?acc)) k m = queued_at (expiry_queue (fst acc)) k m" by (rule q)
  qed
  then show ?case using Cons.IH [of ?acc] Cons.prems t by (auto simp: option.map_comp comp_def)
qed simp

lemma sweep_transfers:
  assumes inv: "bridge_inv H s" and sw: "sweep_expired_locks current s = (rel, s')"
  shows "btm_get (transfers s') m = map_option
    (\<lambda>t. if 0 < tr_expiry_height t \<and> tr_expiry_height t \<le> current then released_transfer t else t)
    (btm_get (transfers s) m)"
proof -
  let ?hs = "map fst (btm_range_to current (expiry_queue s))"
  have fld: "fold sweep_height ?hs (s, []) = (s', rel)"
    using sw by (simp add: sweep_expired_locks_def split: prod.splits)
  have "distinct ?hs"
    using inv by (simp add: bridge_inv_def btm_range_to_def btm_ok_filter btm_ok_distinct)
  note get = fold_sweep_transfers [OF this, of "(s, [])" m, unfolded fld fst_conv]
  have hs: "h \<in> set ?hs \<longleftrightarrow> h \<le> current" if queued: "queued_at (expiry_queue s) h m" for h
  proof -
    obtain mids where "(h, mids) \<in> set (expiry_queue s)"
      using queued btm_get_in_set unfolding queued_at_def by metis
    then show ?thesis by (auto simp: btm_range_to_def image_iff)
  qed
  show ?thesis
  proof (cases "btm_get (transfers s) m")
    case None
    then show ?thesis using get by simp
  next
    case (Some t)
    have sound: "0 < tr_expiry_height t \<and> h = tr_expiry_height t" if "queued_at (expiry_queue s) h m" for h
      using inv that Some unfolding bridge_inv_def queue_sound_def queued_at_def by fastforce
    have complete: "queued_at (expiry_queue s) (tr_expiry_height t) m"
      if pos: "0 < tr_expiry_height t" and neq: "released_transfer t \<noteq> t"
    proof -
      obtain d where "tr_status t = Locked d"
        using neq by (auto simp: released_transfer_def split: bridge_status.splits)
      then show ?thesis using inv Some pos unfolding bridge_inv_def queue_inv_def queued_at_def by blast
    qed
    show ?thesis
    proof (cases "\<exists>h \<in> set ?hs. queued_at (expiry_queue s) h m")
      case True
      then have "0 < tr_expiry_height t \<and> tr_expiry_height t \<le> current" using hs sound by blast
      then show ?thesis using get True Some by simp
    next
      case False
      then have "0 < tr_expiry_height t \<Longrightarrow> tr_expiry_height t \<le> current \<Longrightarrow> released_transfer t = t"
        using hs complete by blast
      then show ?thesis using get False Some by auto
    qed
  qed
qed

section \<open>Fresh identifiers\<close>

text \<open>Every transfer carries a nonce its lane has already passed, so a new lock gets an identifier no
  transfer has, and only identifiers of transfers are ever processed.  A lane whose counter has
  saturated hands out its last nonce again and again; transfers with that nonce are left out.\<close>

definition lane_of :: "bridge_transfer \<Rightarrow> lane" where
  "lane_of t = (tr_source_domain t, tr_target_domain t, tr_owner t)"

definition nonce_passed :: "hash_fn \<Rightarrow> replay_nonce_store \<Rightarrow> message_id \<Rightarrow> bridge_transfer \<Rightarrow> bool" where
  "nonce_passed H store mid t \<longleftrightarrow>
     (\<exists>h i n. mid = msg_id (new_message H (lock_params H t h i n)) \<and>
        (n = - 1 \<or> unat n < lane_nonce store (lane_of t) \<and> (is_processed store mid \<longrightarrow> past_mint (tr_status t))))"

definition nonce_inv :: "hash_fn \<Rightarrow> (message_id \<rightharpoonup> bridge_transfer) \<Rightarrow> replay_nonce_store \<Rightarrow> bool" where
  "nonce_inv H tr store \<longleftrightarrow>
     (\<forall>mid t. tr mid = Some t \<longrightarrow> nonce_passed H store mid t) \<and> (\<forall>mid. is_processed store mid \<longrightarrow> tr mid \<noteq> None)"

lemma nonce_invD:
  assumes "nonce_inv H tr store"
  shows "tr mid = Some t \<Longrightarrow> nonce_passed H store mid t" "is_processed store mid \<Longrightarrow> tr mid \<noteq> None"
  using assms by (simp_all add: nonce_inv_def)

lemma lane_nonce_next: "next_nonce a b c s = (n, s') \<Longrightarrow> lane_nonce s l \<le> lane_nonce s' l"
  using lane_nonce_bound [of s l] by (auto simp: next_nonce_lane(2) min_def)

lemma lane_nonce_mark [simp]: "mark_processed m s = (r, s') \<Longrightarrow> lane_nonce s' l = lane_nonce s l"
  by (auto simp: mark_processed_def lane_nonce_def split: if_splits)

lemma nonce_passed_mono:
  assumes "nonce_passed H store mid t" "\<And>l. lane_nonce store l \<le> lane_nonce store' l"
    and "is_processed store' mid \<Longrightarrow> is_processed store mid \<or> past_mint (tr_status t)"
  shows "nonce_passed H store' mid t"
proof -
  obtain h i n where "mid = msg_id (new_message H (lock_params H t h i n))"
      "n = - 1 \<or> unat n < lane_nonce store (lane_of t) \<and> (is_processed store mid \<longrightarrow> past_mint (tr_status t))"
    using assms(1) unfolding nonce_passed_def by blast
  moreover from this(2) have "n = - 1 \<or> unat n < lane_nonce store' (lane_of t) \<and> (is_processed store' mid \<longrightarrow> past_mint (tr_status t))"
    using assms(2) [of "lane_of t"] assms(3) by auto
  ultimately show ?thesis unfolding nonce_passed_def by blast
qed

lemma nonce_passed_status:
  assumes "nonce_passed H store mid t" "past_mint (tr_status t) \<Longrightarrow> past_mint st"
  shows "nonce_passed H store mid (t\<lparr>tr_status := st\<rparr>)"
  using assms by (auto simp: nonce_passed_def lane_of_def lock_params_def)

lemma lock_id_fresh:
  assumes "inj H" and inv: "nonce_inv H tr store" and n: "next_nonce src tgt ow store = (n, store')" "n \<noteq> - 1"
    and t: "lane_of t = (src, tgt, ow)"
  shows "tr (msg_id (new_message H (lock_params H t h i n))) = None"
proof (rule ccontr)
  let ?m = "new_message H (lock_params H t h i n)"
  assume "tr (msg_id ?m) \<noteq> None"
  then obtain u where "tr (msg_id ?m) = Some u" by blast
  from nonce_invD(1) [OF inv this] obtain k j n' where
    eq: "msg_id ?m = msg_id (new_message H (lock_params H u k j n'))"
    and n': "n' = - 1 \<or> unat n' < lane_nonce store (lane_of u)"
    unfolding nonce_passed_def by blast
  note f = verified_id_fields [OF assms(1) verify_new(1) verify_new(1) eq]
  have "n' = n" using f(5) by (simp add: lock_params_def)
  moreover have "lane_of u = (src, tgt, ow)" using f(1,2,6) t by (simp add: lock_params_def lane_of_def)
  ultimately show False using n' n next_nonce_lane(1) [OF n(1)] by simp
qed

text \<open>The updates of the operations: a new transfer, a transfer whose status moves on, and released locks.\<close>

lemma nonce_inv_update:
  assumes "nonce_inv H tr store" and "nonce_passed H store' mid t"
    and "\<And>l. lane_nonce store l \<le> lane_nonce store' l"
    and "\<And>mid'. is_processed store' mid' \<Longrightarrow> is_processed store mid' \<or> mid' = mid"
  shows "nonce_inv H (tr(mid \<mapsto> t)) store'"
  unfolding nonce_inv_def
proof (intro conjI allI impI)
  fix mid' t'
  assume *: "(tr(mid \<mapsto> t)) mid' = Some t'"
  show "nonce_passed H store' mid' t'"
  proof (cases "mid' = mid")
    case False
    with * have "nonce_passed H store mid' t'" using nonce_invD(1) [OF assms(1)] by simp
    then show ?thesis using assms(3) by (rule nonce_passed_mono) (use assms(4) False in blast)
  qed (use * assms(2) in simp)
next
  fix mid'
  assume "is_processed store' mid'"
  then show "(tr(mid \<mapsto> t)) mid' \<noteq> None" using assms(4) nonce_invD(2) [OF assms(1), of mid'] by auto
qed

lemma nonce_inv_lock:
  assumes "inj H" and inv: "nonce_inv H tr store" and n: "next_nonce src tgt ow store = (n, store')"
    and t: "lane_of t = (src, tgt, ow)" "mid = msg_id (new_message H (lock_params H t h i n))"
  shows "nonce_inv H (tr(mid \<mapsto> t)) store'"
proof (rule nonce_inv_update [OF inv _ lane_nonce_next [OF n]])
  have "is_processed store mid \<Longrightarrow> n \<noteq> - 1 \<Longrightarrow> False"
    using lock_id_fresh [OF assms(1) inv n _ t(1)] nonce_invD(2) [OF inv] t(2) by blast
  moreover have "n \<noteq> - 1 \<Longrightarrow> unat n < lane_nonce store' (lane_of t)"
  proof -
    assume "n \<noteq> - 1"
    then have "n < - 1" by (simp add: word_order.not_eq_extremum)
    then have "unat n < 2 ^ 64 - 1" by (simp add: word_less_nat_alt unat_max_word)
    then show ?thesis using next_nonce_lane [OF n] t(1) by simp
  qed
  ultimately show "nonce_passed H store' mid t"
    using n unfolding nonce_passed_def t(2) by (metis is_processed_next_nonce)
qed (use n in simp)

lemma nonce_inv_restatus:
  assumes inv: "nonce_inv H tr store" and "tr mid = Some t" "past_mint (tr_status t) \<Longrightarrow> past_mint st"
    and lanes: "\<And>l. lane_nonce store l \<le> lane_nonce store' l"
    and seen: "\<And>mid'. is_processed store' mid' \<Longrightarrow> is_processed store mid' \<or> mid' = mid \<and> past_mint st"
  shows "nonce_inv H (tr(mid \<mapsto> t\<lparr>tr_status := st\<rparr>)) store'"
proof (rule nonce_inv_update [OF inv _ lanes])
  show "nonce_passed H store' mid (t\<lparr>tr_status := st\<rparr>)"
    by (rule nonce_passed_mono [OF nonce_passed_status [OF nonce_invD(1) [OF inv]]]) (use assms in auto)
qed (use seen in blast)

lemma nonce_inv_sweep:
  assumes "nonce_inv H tr store" and "\<And>mid. tr' mid = map_option (\<lambda>t. if P t then released_transfer t else t) (tr mid)"
  shows "nonce_inv H tr' store"
  unfolding nonce_inv_def
proof (intro conjI allI impI)
  fix mid t
  assume "tr' mid = Some t"
  then obtain u where u: "tr mid = Some u" "t = u \<or> t = released_transfer u"
    using assms(2) [of mid] by (cases "tr mid") (auto split: if_splits)
  have "nonce_passed H store mid (released_transfer u)"
    using nonce_passed_status [OF nonce_invD(1) [OF assms(1) u(1)]] nonce_invD(1) [OF assms(1) u(1)]
    by (cases "tr_status u") (simp_all add: released_transfer_def)
  then show "nonce_passed H store mid t" using u nonce_invD(1) [OF assms(1)] by blast
next
  fix mid
  assume "is_processed store mid"
  then show "tr' mid \<noteq> None" using nonce_invD(2) [OF assms(1)] assms(2) [of mid] by simp
qed

abbreviation nonces_of :: "hash_fn \<Rightarrow> bridge_state \<Rightarrow> bool" where
  "nonces_of H s \<equiv> nonce_inv H (btm_get (transfers s)) (replay_store s)"

lemma bridge_step_nonces:
  assumes "inj H" and bi: "bridge_inv H s" and inv: "nonces_of H s" and st: "bridge_step H s s'"
  shows "nonces_of H s'"
  using st
proof (rule bridge_stepE)
  fix a d r
  assume "register_asset a d s = (r, s')"
  then show ?thesis by (cases rule: register_cases) (use inv in simp_all)
next
  fix src tgt h i a ow rc am ex r
  assume "lock H src tgt h i a ow rc am ex s = (r, s')"
  then show ?thesis
  proof (cases rule: lock_cases)
    case (ok t ev n store)
    then show ?thesis using nonce_inv_lock [OF assms(1) inv ok(3), of t] by (simp add: lane_of_def)
  qed (use inv in simp)
next
  fix m r
  assume "mint H m s = (r, s')"
  then show ?thesis
  proof (cases rule: mint_cases)
    case (ok t store)
    have "nonce_inv H ((btm_get (transfers s))(msg_id m \<mapsto> t\<lparr>tr_status := Minted (msg_target_domain m)\<rparr>)) store"
      by (rule nonce_inv_restatus [OF inv ok(3)]) (use ok(6,7) in \<open>auto simp: is_processed_mark\<close>)
    then show ?thesis by (simp add: ok(8))
  qed (use inv in simp)
next
  fix mid d h i ex r
  assume "burn_with_event H mid d h i ex s = (r, s')"
  then show ?thesis
  proof (cases rule: burn_cases)
    case (ok t ev n store)
    then show ?thesis using nonce_inv_restatus [OF inv ok(2), of "Burned d" store] lane_nonce_next [OF ok(4)] by simp
  qed (use inv in simp)
next
  fix mid d r
  assume "unlock mid d s = (r, s')"
  then show ?thesis
  proof (cases rule: unlock_cases)
    case (ok t)
    then show ?thesis using nonce_inv_restatus [OF inv ok(2), of "Unlocked (tr_source_domain t)" "replay_store s"] by simp
  qed (use inv in simp)
next
  fix h r
  assume sw: "sweep_expired_locks h s = (r, s')"
  show ?thesis using nonce_inv_sweep [OF inv sweep_transfers [OF bi sw]] sweep_processed [OF sw] by simp
qed

interpretation nonce_run: inductive_invariant "bridge_step H" "\<lambda>s. inj H \<longrightarrow> bridge_inv H s \<and> nonces_of H s" for H
  by unfold_locales (blast intro: bridge_step_inv bridge_step_nonces)

lemma nonces_of_new: "nonces_of H bridge_new"
  by (simp add: nonce_inv_def bridge_new_def store_new_def is_processed_def btm_get_def)

end
