(* ===== verification/Simulation_Spec.thy ===== *)
theory Simulation_Spec
  imports Invariant_Spec
begin

text \<open>
  Refinement between state machines: a machine with an invariant whose every step, from a state that
  satisfies the invariant and is related to an abstract state, is matched by abstract steps.
\<close>

locale simulation = inductive_invariant trans inv
  for trans :: "'s \<Rightarrow> 's \<Rightarrow> bool" and inv :: "'s \<Rightarrow> bool" +
  fixes atrans :: "'a \<Rightarrow> 'a \<Rightarrow> bool"
    and rel :: "'s \<Rightarrow> 'a \<Rightarrow> bool"
  assumes sim_step: "inv s \<Longrightarrow> rel s a \<Longrightarrow> trans s t \<Longrightarrow> \<exists>b. atrans\<^sup>*\<^sup>* a b \<and> rel t b"
begin

lemma simulated:
  assumes "trans\<^sup>*\<^sup>* s t" and "inv s" and "rel s a"
  shows "\<exists>b. atrans\<^sup>*\<^sup>* a b \<and> rel t b"
  using assms(1)
proof (induction rule: rtranclp_induct)
  case base
  then show ?case using assms(3) by blast
next
  case (step t u)
  then obtain b where b: "atrans\<^sup>*\<^sup>* a b" "rel t b" by blast
  have "inv t" using inv_reachable [OF step.hyps(1) assms(2)] .
  from sim_step [OF this b(2) step.hyps(2)] b(1) show ?case by (meson rtranclp_trans)
qed

lemma abstract_invariant:
  assumes "trans\<^sup>*\<^sup>* s t" and "inv s" and "rel s a"
    and "\<And>b. atrans\<^sup>*\<^sup>* a b \<Longrightarrow> P b"
  obtains b where "rel t b" "P b"
  using simulated [OF assms(1-3)] assms(4) by blast

end

end
