(* ===== verification/Bridge_Custody.thy ===== *)
theory Bridge_Custody
  imports Bridge_Inv Simulation_Spec
begin

text \<open>
  What the bridge promises about one asset, as an abstract automaton, and the simulation that the
  detailed state machine follows it: an asset leaves home only by a lock, exists on at most one
  foreign domain, and comes back to the domain it was locked on.
\<close>

section \<open>The abstract automaton\<close>

datatype phase =
    Home domain_id
  | Escrow domain_id
  | Out domain_id domain_id
  | Returning domain_id domain_id

type_synonym custody = "asset_id \<rightharpoonup> phase"

inductive custody_step :: "custody \<Rightarrow> custody \<Rightarrow> bool" where
  c_register: "c a = None \<Longrightarrow> custody_step c (c(a \<mapsto> Home d))"
| c_lock: "c a = Some (Home d) \<Longrightarrow> custody_step c (c(a \<mapsto> Escrow d))"
| c_expire: "c a = Some (Escrow d) \<Longrightarrow> custody_step c (c(a \<mapsto> Home d))"
| c_mint: "c a = Some (Escrow d) \<Longrightarrow> custody_step c (c(a \<mapsto> Out d d'))"
| c_burn: "c a = Some (Out d d') \<Longrightarrow> custody_step c (c(a \<mapsto> Returning d d'))"
| c_unlock: "c a = Some (Returning d d') \<Longrightarrow> custody_step c (c(a \<mapsto> Home d))"

section \<open>The simulation relation\<close>

definition from_home :: "(message_id \<rightharpoonup> bridge_transfer) \<Rightarrow> asset_id \<Rightarrow> domain_id \<Rightarrow> bool" where
  "from_home tr a d \<longleftrightarrow>
     (\<forall>mid t. tr mid = Some t \<longrightarrow> in_flight (tr_status t) \<longrightarrow> tr_asset_id t = a \<longrightarrow> tr_source_domain t = d)"

fun matches ::
    "(asset_id \<rightharpoonup> bridge_status) \<Rightarrow> (message_id \<rightharpoonup> bridge_transfer) \<Rightarrow> asset_id \<Rightarrow> phase option \<Rightarrow> bool" where
  "matches loc tr a None \<longleftrightarrow> loc a = None"
| "matches loc tr a (Some (Home d)) \<longleftrightarrow> loc a = Some (Active d)"
| "matches loc tr a (Some (Escrow d)) \<longleftrightarrow> loc a = Some (Locked d)"
| "matches loc tr a (Some (Out d d')) \<longleftrightarrow> loc a = Some (Minted d') \<and> from_home tr a d"
| "matches loc tr a (Some (Returning d d')) \<longleftrightarrow> loc a = Some (Burned d') \<and> from_home tr a d"

definition simulates :: "bridge_state \<Rightarrow> custody \<Rightarrow> bool" where
  "simulates s c \<longleftrightarrow> (\<forall>a. matches (btm_get (asset_locations s)) (btm_get (transfers s)) a (c a))"

lemma matches_inv:
  "matches loc tr a p \<Longrightarrow> loc a = None \<Longrightarrow> p = None"
  "matches loc tr a p \<Longrightarrow> loc a = Some (Active d) \<Longrightarrow> p = Some (Home d)"
  "matches loc tr a p \<Longrightarrow> loc a = Some (Locked d) \<Longrightarrow> p = Some (Escrow d)"
  "matches loc tr a p \<Longrightarrow> loc a = Some (Minted d') \<Longrightarrow> \<exists>d. p = Some (Out d d') \<and> from_home tr a d"
  "matches loc tr a p \<Longrightarrow> loc a = Some (Burned d') \<Longrightarrow> \<exists>d. p = Some (Returning d d') \<and> from_home tr a d"
  by (cases "(loc, tr, a, p)" rule: matches.cases; simp)+

lemma matches_other:
  assumes "matches loc tr b p" and "b \<noteq> tr_asset_id t" and "\<And>t'. tr mid = Some t' \<Longrightarrow> tr_asset_id t' = tr_asset_id t"
  shows "matches (loc(tr_asset_id t \<mapsto> st)) (tr(mid \<mapsto> t)) b p"
proof -
  have "from_home (tr(mid \<mapsto> t)) b d = from_home tr b d" for d
    using assms(2,3) unfolding from_home_def by (metis fun_upd_other fun_upd_same option.inject)
  then show ?thesis using assms(1,2) by (cases "(loc, tr, b, p)" rule: matches.cases; simp)
qed

lemma simulates_move:
  assumes sim: "simulates s c"
    and s': "asset_locations s' = btm_insert (tr_asset_id t) st (asset_locations s)"
      "transfers s' = btm_insert mid t (transfers s)"
    and old: "\<And>t'. btm_get (transfers s) mid = Some t' \<Longrightarrow> tr_asset_id t' = tr_asset_id t"
    and new: "matches (btm_get (asset_locations s')) (btm_get (transfers s')) (tr_asset_id t) (Some p)"
  shows "simulates s' (c(tr_asset_id t \<mapsto> p))"
  unfolding simulates_def
proof
  fix b
  show "matches (btm_get (asset_locations s')) (btm_get (transfers s')) b ((c(tr_asset_id t \<mapsto> p)) b)"
  proof (cases "b = tr_asset_id t")
    case True
    then show ?thesis using new by simp
  next
    case False
    have "matches (btm_get (asset_locations s)) (btm_get (transfers s)) b (c b)"
      using sim by (simp add: simulates_def)
    from matches_other [OF this False, where mid = mid and st = st, OF old] False show ?thesis by (simp add: s')
  qed
qed

lemma from_home_move:
  assumes led: "ledger_inv H loc tr seen" and t: "tr mid = Some t" and fl: "in_flight (tr_status t)"
  shows "from_home (tr(mid \<mapsto> t\<lparr>tr_status := st\<rparr>)) (tr_asset_id t) (tr_source_domain t)"
  unfolding from_home_def
proof (intro allI impI)
  fix m u
  assume "(tr(mid \<mapsto> t\<lparr>tr_status := st\<rparr>)) m = Some u" "in_flight (tr_status u)" "tr_asset_id u = tr_asset_id t"
  then show "tr_source_domain u = tr_source_domain t"
    using ledger_invD(4) [OF led t fl, of m u] by (cases "m = mid") auto
qed

section \<open>Each operation is an abstract step\<close>

definition follows :: "bridge_state \<Rightarrow> custody \<Rightarrow> bridge_state \<Rightarrow> bool" where
  "follows s c s' \<longleftrightarrow> (\<exists>c'. custody_step\<^sup>*\<^sup>* c c' \<and> simulates s' c')"

lemma follows_refl: "simulates s c \<Longrightarrow> follows s c s"
  unfolding follows_def by blast

lemma follows_step: "custody_step c c' \<Longrightarrow> simulates s' c' \<Longrightarrow> follows s c s'"
  unfolding follows_def by blast

lemma register_follows:
  assumes sim: "simulates s c" and "register_asset a d s = (r, s')"
  shows "follows s c s'"
  using assms(2)
proof (cases rule: register_cases)
  case ok
  have "c a = None" using sim matches_inv(1) ok(2) by (metis simulates_def)
  moreover have "simulates s' (c(a \<mapsto> Home d))"
    unfolding simulates_def
  proof
    fix b
    have "matches (btm_get (asset_locations s)) (btm_get (transfers s)) b (c b)" using sim by (simp add: simulates_def)
    then show "matches (btm_get (asset_locations s')) (btm_get (transfers s')) b ((c(a \<mapsto> Home d)) b)"
      by (cases "b = a"; cases "(btm_get (asset_locations s), btm_get (transfers s), b, c b)" rule: matches.cases)
        (simp_all add: ok(3))
  qed
  ultimately show ?thesis by (blast intro: follows_step c_register)
qed (use sim follows_refl in simp)

lemma lock_follows:
  assumes "inj H" and inv: "bridge_inv H s" and sim: "simulates s c"
    and "lock H src tgt h i a ow rc am ex s = (r, s')"
  shows "follows s c s'"
  using assms(4)
proof (cases rule: lock_cases)
  case (ok t ev n store)
  have led: "ledger_of H s" using inv by (simp add: bridge_inv_def)
  have tok: "transfer_ok H (tr_message_id t) t" unfolding transfer_ok_def using ok by auto
  have "c a = Some (Home src)" using sim matches_inv(2) ok(2) by (metis simulates_def)
  moreover have "simulates s' (c(tr_asset_id t \<mapsto> Escrow src))"
  proof (rule simulates_move [OF sim])
    show "tr_asset_id t' = tr_asset_id t" if "btm_get (transfers s) (tr_message_id t) = Some t'" for t'
      using transfer_ok_same(1) [OF \<open>inj H\<close> ledger_invD(1) [OF led that] tok] .
  qed (simp_all add: ok(4,15))
  ultimately show ?thesis using ok(4) by (metis follows_step c_lock)
qed (use sim follows_refl in simp)

lemma restatus_follows:
  assumes inv: "ledger_of H s" and sim: "simulates s c"
    and t: "btm_get (transfers s) mid = Some t" and fl: "in_flight (tr_status t)"
    and s': "asset_locations s' = btm_insert (tr_asset_id t) st' (asset_locations s)"
      "transfers s' = btm_insert mid (t\<lparr>tr_status := st\<rparr>) (transfers s)"
    and kind: "(\<exists>d. tr_status t = Locked d \<and> st' = Active d) \<or>
      (\<exists>d'. tr_status t = Locked (tr_source_domain t) \<and> st' = Minted d') \<or>
      (\<exists>d'. tr_status t = Minted d' \<and> st' = Burned d') \<or>
      (\<exists>d'. tr_status t = Burned d' \<and> st' = Active (tr_source_domain t))"
  shows "\<exists>c'. custody_step c c' \<and> simulates s' c'"
proof -
  let ?a = "tr_asset_id t"
  have loc: "btm_get (asset_locations s) ?a = Some (tr_status t)" by (rule ledger_invD(2) [OF inv t fl])
  have m: "matches (btm_get (asset_locations s)) (btm_get (transfers s)) ?a (c ?a)" using sim by (simp add: simulates_def)
  have home: "from_home (btm_get (transfers s')) ?a (tr_source_domain t)"
    using from_home_move [OF inv t fl] by (simp add: s')
  have src: "d = tr_source_domain t" if "from_home (btm_get (transfers s)) ?a d" for d
    using that [unfolded from_home_def, rule_format, OF t fl refl] by simp
  have mv: "simulates s' (c(?a \<mapsto> p))"
    if "matches (btm_get (asset_locations s')) (btm_get (transfers s')) ?a (Some p)" for p
  proof -
    have "simulates s' (c(tr_asset_id (t\<lparr>tr_status := st\<rparr>) \<mapsto> p))"
      by (rule simulates_move [OF sim, of s' _ st' mid]) (use s' t that in simp_all)
    then show ?thesis by simp
  qed
  from kind show ?thesis
  proof (elim disjE exE conjE)
    fix d assume "tr_status t = Locked d" "st' = Active d"
    then show ?thesis using mv [of "Home d"] matches_inv(3) [OF m] loc by (auto simp: s' intro: c_expire)
  next
    fix d' assume "tr_status t = Locked (tr_source_domain t)" "st' = Minted d'"
    then show ?thesis
      using mv [of "Out (tr_source_domain t) d'"] matches_inv(3) [OF m] loc home by (auto simp: s' intro: c_mint)
  next
    fix d' assume "tr_status t = Minted d'" "st' = Burned d'"
    then show ?thesis
      using mv [of "Returning (tr_source_domain t) d'"] matches_inv(4) [OF m, of d'] loc home src
      by (auto simp: s' intro: c_burn)
  next
    fix d' assume "tr_status t = Burned d'" "st' = Active (tr_source_domain t)"
    then show ?thesis
      using mv [of "Home (tr_source_domain t)"] matches_inv(5) [OF m, of d'] loc src by (auto simp: s' intro: c_unlock)
  qed
qed

lemma restatus_followsI:
  assumes "\<exists>c'. custody_step c c' \<and> simulates s' c'"
  shows "follows s c s'"
  using assms by (blast intro: follows_step)

lemma mint_follows:
  assumes "inj H" and inv: "bridge_inv H s" and sim: "simulates s c" and "mint H m s = (r, s')"
  shows "follows s c s'"
  using assms(4)
proof (cases rule: mint_cases)
  case (ok t store)
  have led: "ledger_of H s" using inv by (simp add: bridge_inv_def)
  have "msg_source_domain m = tr_source_domain t"
    using transfer_ok_message(1) [OF \<open>inj H\<close> ledger_invD(1) [OF led ok(3)] ok(2) refl] .
  then show ?thesis
    by (intro restatus_followsI restatus_follows [OF led sim ok(3), of s' "Minted (msg_target_domain m)"])
      (auto simp: ok(6,8))
qed (use sim follows_refl in simp)

lemma burn_follows:
  assumes inv: "bridge_inv H s" and sim: "simulates s c" and "burn_with_event H mid d h i ex s = (r, s')"
  shows "follows s c s'"
  using assms(3)
proof (cases rule: burn_cases)
  case (ok t ev n store)
  have led: "ledger_of H s" using inv by (simp add: bridge_inv_def)
  show ?thesis
    by (intro restatus_followsI restatus_follows [OF led sim ok(2), of s' "Burned d"]) (auto simp: ok(3,5))
qed (use sim follows_refl in simp)

lemma unlock_follows:
  assumes inv: "bridge_inv H s" and sim: "simulates s c" and "unlock mid d s = (r, s')"
  shows "follows s c s'"
  using assms(3)
proof (cases rule: unlock_cases)
  case (ok t)
  have led: "ledger_of H s" using inv by (simp add: bridge_inv_def)
  have fl: "in_flight (tr_status t)" by (simp add: ok(3))
  have "\<exists>d'. tr_status t = Burned d'" using ok(3) by blast
  then show ?thesis
    by (intro restatus_followsI restatus_follows [OF led sim ok(2) fl, of s' "Active (tr_source_domain t)"])
      (auto simp: ok(5))
qed (use sim follows_refl in simp)

lemma release_follows:
  assumes inv: "sweep_inv H store due pending (s, rel)" and sim: "simulates s c"
    and "release_lock mid (s, rel) = (s', rel')"
  shows "\<exists>c'. custody_step\<^sup>*\<^sup>* c c' \<and> simulates s' c'"
  using assms(3)
proof (cases rule: release_cases)
  case (ok t d)
  have led: "ledger_of H s" using inv unfolding sweep_inv_def by auto
  have "\<exists>c'. custody_step c c' \<and> simulates s' c'"
    by (rule restatus_follows [OF led sim ok(1), of s' "Active d"]) (auto simp: ok(2,4))
  then show ?thesis by blast
qed (use sim in blast)

lemma fold_release_follows:
  "sweep_inv H store due pending acc \<Longrightarrow> simulates (fst acc) c \<Longrightarrow>
   \<exists>c'. custody_step\<^sup>*\<^sup>* c c' \<and> simulates (fst (fold release_lock mids acc)) c'"
proof (induction mids arbitrary: acc c pending)
  case (Cons m mids)
  obtain s rel where acc: "acc = (s, rel)" by (cases acc)
  obtain s' rel' where r: "release_lock m (s, rel) = (s', rel')" by (cases "release_lock m (s, rel)")
  obtain c1 where c1: "custody_step\<^sup>*\<^sup>* c c1" "simulates s' c1"
    using release_follows [OF Cons.prems(1) [unfolded acc] _ r, of c] Cons.prems(2) acc by auto
  have "sweep_inv H store due (pending - {m}) (s', rel')"
    using release_sweep_inv [OF Cons.prems(1) [unfolded acc] r] by simp
  from Cons.IH [OF this, of c1] c1 show ?case by (auto simp: acc r intro: rtranclp_trans)
qed auto

lemma sweep_height_follows:
  assumes inv: "sweep_inv H store due {} acc" and sim: "simulates (fst acc) c"
  shows "\<exists>c'. custody_step\<^sup>*\<^sup>* c c' \<and> simulates (fst (sweep_height h acc)) c'"
proof -
  obtain s rel where acc: "acc = (s, rel)" by (cases acc)
  show ?thesis
  proof (cases "btm_get (expiry_queue s) h")
    case None
    then show ?thesis using sim by (auto simp: acc sweep_height_def)
  next
    case (Some mids)
    let ?s = "s\<lparr>expiry_queue := btm_remove h (expiry_queue s)\<rparr>"
    have "simulates ?s c" using sim by (simp add: acc simulates_def)
    with fold_release_follows [OF sweep_height_pending [OF inv [unfolded acc] Some], of c mids] show ?thesis
      by (simp add: acc sweep_height_def Some)
  qed
qed

lemma fold_sweep_follows:
  "sweep_inv H store due {} acc \<Longrightarrow> simulates (fst acc) c \<Longrightarrow>
   \<exists>c'. custody_step\<^sup>*\<^sup>* c c' \<and> simulates (fst (fold sweep_height hs acc)) c'"
proof (induction hs arbitrary: acc c)
  case (Cons h hs)
  obtain c1 where c1: "custody_step\<^sup>*\<^sup>* c c1" "simulates (fst (sweep_height h acc)) c1"
    using sweep_height_follows [OF Cons.prems] by blast
  from Cons.IH [OF conjunct1 [OF sweep_height_inv [OF Cons.prems(1)]] c1(2)] c1(1) show ?case
    by (auto intro: rtranclp_trans)
qed auto

lemma sweep_follows:
  assumes inv: "bridge_inv H s" and sim: "simulates s c" and sw: "sweep_expired_locks h s = (r, s')"
  shows "follows s c s'"
proof -
  let ?hs = "map fst (btm_range_to h (expiry_queue s))"
  have fld: "fold sweep_height ?hs (s, []) = (s', r)"
    using sw by (simp add: sweep_expired_locks_def split: prod.splits)
  have "sweep_inv H (replay_store s) (outstanding s) {} (s, [])"
    using inv by (simp add: sweep_inv_def bridge_inv_def)
  from fold_sweep_follows [OF this, of c ?hs] sim show ?thesis by (simp add: fld follows_def)
qed

lemma bridge_step_follows:
  assumes "inj H" "bridge_inv H s" "simulates s c" "bridge_step H s s'"
  shows "follows s c s'"
  using assms(4) register_follows [OF assms(3)] lock_follows [OF assms(1-3)] mint_follows [OF assms(1-3)]
    burn_follows [OF assms(2,3)] unlock_follows [OF assms(2,3)] sweep_follows [OF assms(2,3)]
  by (cases rule: bridge_step.cases) blast+

interpretation custody_sim: simulation "bridge_step H" "\<lambda>s. inj H \<longrightarrow> bridge_inv H s" custody_step
    "\<lambda>s c. inj H \<longrightarrow> simulates s c" for H
proof unfold_locales
  fix s c t
  assume "inj H \<longrightarrow> bridge_inv H s" "inj H \<longrightarrow> simulates s c" "bridge_step H s t"
  then show "\<exists>b. custody_step\<^sup>*\<^sup>* c b \<and> (inj H \<longrightarrow> simulates t b)"
    using bridge_step_follows [of H s c t] unfolding follows_def by (cases "inj H") auto
qed

lemma simulates_new: "simulates bridge_new Map.empty"
  by (simp add: simulates_def bridge_new_def)

end
