(* ===== verification/Bridge_Props.thy ===== *)
theory Bridge_Props
  imports Bridge_Custody
begin

text \<open>
  The properties of the bridge, for every sequence of its operations from an empty bridge.  Hashes
  are assumed not to collide (\<open>inj H\<close>) only where an identifier has to determine its message.
\<close>

section \<open>An example run\<close>

definition sample_asset :: asset_id where
  "sample_asset = replicate 32 9"

definition sample_registered :: bridge_state where
  "sample_registered = snd (register_asset sample_asset 1 bridge_new)"

definition sample_lock :: "(bridge_error + (bridge_transfer \<times> domain_event)) \<times> bridge_state" where
  "sample_lock =
     lock field_image 1 2 10 0 sample_asset (replicate 32 1) (replicate 32 2) 100 1000 sample_registered"

definition sample_locked :: bridge_state where
  "sample_locked = snd sample_lock"

definition sample_message :: cross_domain_message where
  "sample_message = the (ev_message (snd (projr (fst sample_lock))))"

lemma field_image_inj: "inj field_image"
  by (rule injI) (rule field_image_inject)

lemma registered_get: "btm_get (asset_locations sample_registered) sample_asset = Some (Active 1)"
  by (simp add: sample_registered_def register_asset_def bridge_new_def btm_contains_def btm_get_def)

lemma sample_lock_facts:
  obtains t ev where "sample_lock = (Inr (t, ev), sample_locked)" "ev_message ev = Some sample_message"
    "tr_asset_id t = sample_asset" "tr_status t = Locked 1" "tr_target_domain t = 2" "tr_source_domain t = 1"
    "tr_expiry_height t = 1000" "tr_owner t = replicate 32 1" "tr_amount t = 100"
    "verify_id field_image sample_message" "msg_source_domain sample_message = 1"
    "msg_payload_hash sample_message = bridge_payload_hash field_image (tr_asset_id t) (tr_amount t)"
    "tr_message_id t = msg_id sample_message"
    "btm_get (transfers sample_locked) (msg_id sample_message) = Some t"
    "replay_store sample_locked = snd (next_nonce 1 2 (replicate 32 1) store_new)"
    "btm_get (asset_locations sample_locked) sample_asset = Some (Locked 1)"
proof -
  obtain r where r: "sample_lock = (r, sample_locked)" unfolding sample_locked_def by (metis prod.collapse)
  have run: "lock field_image 1 2 10 0 sample_asset (replicate 32 1) (replicate 32 2) 100 1000 sample_registered = (r, sample_locked)"
    using r by (simp add: sample_lock_def)
  have store: "replay_store sample_registered = store_new"
    by (simp add: sample_registered_def register_asset_def bridge_new_def btm_contains_def)
  from run show thesis
  proof (cases rule: lock_cases)
    case (err e)
    then show ?thesis by (simp add: registered_get)
  next
    case (ok t ev n st)
    have m: "sample_message = new_message field_image (lock_params field_image t 10 0 n)"
      unfolding sample_message_def r ok(1) by (simp add: ok(13))
    have "replay_store sample_locked = st" "btm_get (asset_locations sample_locked) sample_asset = Some (Locked 1)"
        "btm_get (transfers sample_locked) (tr_message_id t) = Some t"
      unfolding ok(15) by simp_all
    then show ?thesis
      using r ok(1,3-14) store by (intro that [of t ev]) (simp_all add: lock_params_def m)
  qed
qed

lemma sample_locked_reachable: "(bridge_step field_image)\<^sup>*\<^sup>* bridge_new sample_locked"
proof -
  have "bridge_step field_image bridge_new sample_registered"
    unfolding sample_registered_def by (rule step_register [of sample_asset 1]) (rule prod.collapse [symmetric])
  moreover have "bridge_step field_image sample_registered sample_locked"
    unfolding sample_locked_def sample_lock_def by (rule step_lock) (rule prod.collapse [symmetric])
  ultimately show ?thesis by (meson r_into_rtranclp rtranclp.rtrancl_into_rtrancl)
qed

lemma reachable_inv: "inj H \<Longrightarrow> (bridge_step H)\<^sup>*\<^sup>* bridge_new s \<Longrightarrow> bridge_inv H s"
  using bridge_run.inv_reachable [of H bridge_new s] bridge_inv_new by blast

section \<open>Consistency\<close>

text \<open>C7: in every state the bridge can reach, the asset map and the transfer map agree.  A transfer
  that is locked, minted or burned has its asset recorded in exactly that status and domain; no asset
  is in two such transfers at once; and every asset that is not active is in such a transfer.  So an
  asset is never usable on two domains.\<close>
theorem bridge_reachable_consistent:
  assumes "inj H" and "(bridge_step H)\<^sup>*\<^sup>* bridge_new s"
  shows "(\<forall>mid t. get_transfer s mid = Some t \<and> in_flight (tr_status t) \<longrightarrow>
            btm_get (asset_locations s) (tr_asset_id t) = Some (tr_status t)) \<and>
         (\<forall>mid t mid' t'. get_transfer s mid = Some t \<and> get_transfer s mid' = Some t' \<and>
            in_flight (tr_status t) \<and> in_flight (tr_status t') \<and> tr_asset_id t = tr_asset_id t' \<longrightarrow> mid = mid') \<and>
         (\<forall>a st. btm_get (asset_locations s) a = Some st \<longrightarrow> (\<exists>d. st = Active d) \<or>
            (\<exists>mid t. get_transfer s mid = Some t \<and> tr_asset_id t = a \<and> tr_status t = st \<and> in_flight st))"
proof -
  have led: "ledger_of H s" using reachable_inv [OF assms] by (simp add: bridge_inv_def)
  show ?thesis
    unfolding get_transfer_def
  proof (intro conjI allI impI)
    show "mid = mid'" if "btm_get (transfers s) mid = Some t \<and> btm_get (transfers s) mid' = Some t' \<and>
      in_flight (tr_status t) \<and> in_flight (tr_status t') \<and> tr_asset_id t = tr_asset_id t'" for mid t mid' t'
      using that ledger_invD(4) [OF led, of mid' t' mid t] by simp
  qed (use ledger_invD(2) [OF led] ledger_inv_location [OF led] in blast)+
qed

theorem bridge_reachable_consistent_witness:
  "\<exists>mid t. get_transfer sample_locked mid = Some t \<and> tr_asset_id t = sample_asset \<and> tr_status t = Locked 1"
proof -
  have "btm_get (asset_locations sample_locked) sample_asset = Some (Locked 1)" by (rule sample_lock_facts)
  with bridge_reachable_consistent [OF field_image_inj sample_locked_reachable] show ?thesis by blast
qed

text \<open>C3: the bridge implements the custody automaton.  Every reachable state corresponds to a state of
  the automaton in which each asset is at home, in escrow, out on one foreign domain, or on its way
  back, reached by the automaton's own moves; in particular an asset always returns to the domain it
  was locked on.\<close>
theorem bridge_refines_custody:
  assumes "inj H" and "(bridge_step H)\<^sup>*\<^sup>* bridge_new s"
  shows "\<exists>c. custody_step\<^sup>*\<^sup>* Map.empty c \<and> simulates s c"
  using custody_sim.simulated [OF assms(2), of Map.empty] assms(1) bridge_inv_new simulates_new by blast

theorem bridge_refines_custody_witness:
  "\<exists>c. custody_step\<^sup>*\<^sup>* Map.empty c \<and> c sample_asset = Some (Escrow 1)"
proof -
  have "btm_get (asset_locations sample_locked) sample_asset = Some (Locked 1)" by (rule sample_lock_facts)
  with bridge_refines_custody [OF field_image_inj sample_locked_reachable] show ?thesis
    unfolding simulates_def by (metis matches_inv(3))
qed

section \<open>Replay\<close>

text \<open>C5: a message is minted at most once.  After a successful mint, whatever operations follow, a mint
  of any message with the same identifier is refused and leaves the bridge unchanged.\<close>
theorem mint_at_most_once:
  assumes "mint H m s = (Inr (), s1)" and "(bridge_step H)\<^sup>*\<^sup>* s1 s2" and "msg_id m' = msg_id m"
  shows "\<exists>e. mint H m' s2 = (Inl e, s2)"
proof -
  have "is_processed (replay_store s1) (msg_id m)"
    using assms(1) by (cases rule: mint_cases) (simp_all add: is_processed_mark)
  with assms(2) have seen: "is_processed (replay_store s2) (msg_id m')"
    unfolding assms(3) by (rule processed_run.inv_reachable)
  obtain r s3 where m: "mint H m' s2 = (r, s3)" by (cases "mint H m' s2")
  from m show ?thesis by (cases rule: mint_cases) (use m seen in auto)
qed

lemma sample_mint: "\<exists>s. mint field_image sample_message sample_locked = (Inr (), s)"
proof (rule sample_lock_facts)
  fix t ev
  assume f: "tr_status t = Locked 1" "verify_id field_image sample_message" "msg_source_domain sample_message = 1"
    "msg_payload_hash sample_message = bridge_payload_hash field_image (tr_asset_id t) (tr_amount t)"
    "btm_get (transfers sample_locked) (msg_id sample_message) = Some t"
    "replay_store sample_locked = snd (next_nonce 1 2 (replicate 32 1) store_new)"
  have "\<not> is_processed (replay_store sample_locked) (msg_id sample_message)"
    by (simp add: f(6) next_nonce_def store_new_def is_processed_def Let_def)
  then show ?thesis using f by (auto simp: mint_def dest: mark_fresh)
qed

theorem mint_at_most_once_witness:
  "\<exists>s e. mint field_image sample_message sample_locked = (Inr (), s) \<and> mint field_image sample_message s = (Inl e, s)"
  using sample_mint mint_at_most_once [OF _ rtranclp.rtrancl_refl refl] by blast

section \<open>Errors\<close>

text \<open>C18: an operation of the bridge that reports an error has changed nothing, not even the nonce
  counters.\<close>
theorem failed_operation_changes_nothing:
  "(case register_asset a d s of (Inl _, s') \<Rightarrow> s' = s | _ \<Rightarrow> True) \<and>
   (case lock H src tgt h i a ow rc am ex s of (Inl _, s') \<Rightarrow> s' = s | _ \<Rightarrow> True) \<and>
   (case mint H m s of (Inl _, s') \<Rightarrow> s' = s | _ \<Rightarrow> True) \<and>
   (case burn H mid d s of (Inl _, s') \<Rightarrow> s' = s | _ \<Rightarrow> True) \<and>
   (case burn_with_event H mid d h i ex s of (Inl _, s') \<Rightarrow> s' = s | _ \<Rightarrow> True) \<and>
   (case unlock mid d s of (Inl _, s') \<Rightarrow> s' = s | _ \<Rightarrow> True)"
proof -
  have "case r of Inl _ \<Rightarrow> s' = s | Inr _ \<Rightarrow> True" if "burn_with_event H mid d h i ex s = (r, s')" for h i ex r s'
    using that by (cases rule: burn_cases) simp_all
  note b = this
  have "case r of Inl _ \<Rightarrow> s' = s | Inr _ \<Rightarrow> True" if "register_asset a d s = (r, s')" for r s'
    using that by (cases rule: register_cases) simp_all
  moreover have "case r of Inl _ \<Rightarrow> s' = s | Inr _ \<Rightarrow> True" if "lock H src tgt h i a ow rc am ex s = (r, s')" for r s'
    using that by (cases rule: lock_cases) simp_all
  moreover have "case r of Inl _ \<Rightarrow> s' = s | Inr _ \<Rightarrow> True" if "mint H m s = (r, s')" for r s'
    using that by (cases rule: mint_cases) simp_all
  moreover have "case r of Inl _ \<Rightarrow> s' = s | Inr _ \<Rightarrow> True" if "unlock mid d s = (r, s')" for r s'
    using that by (cases rule: unlock_cases) simp_all
  ultimately show ?thesis using b by (fastforce simp: burn_def split: prod.splits sum.splits)
qed

section \<open>Expiry\<close>

text \<open>C6: the sweep releases exactly the expired locks and refunds each exactly once.  In a reachable
  state, a transfer that is locked with a nonzero expiry height not above the current height becomes
  active again and every other transfer is untouched; the refunds together with what is still locked
  are what was locked before; and a second sweep at the same height does nothing.\<close>
theorem sweep_refunds_expired_exactly:
  assumes "inj H" and "(bridge_step H)\<^sup>*\<^sup>* bridge_new s" and sw: "sweep_expired_locks current s = (released, s')"
  shows "(\<forall>mid. get_transfer s' mid = map_option
            (\<lambda>t. if 0 < tr_expiry_height t \<and> tr_expiry_height t \<le> current then released_transfer t else t)
            (get_transfer s mid)) \<and>
         outstanding s' + mset released = outstanding s \<and>
         sweep_expired_locks current s' = ([], s')"
proof -
  have inv: "bridge_inv H s" using reachable_inv [OF assms(1,2)] .
  note facts = sweep_facts [OF inv sw]
  have "btm_range_to current (expiry_queue s') = []"
  proof (rule ccontr)
    assume "btm_range_to current (expiry_queue s') \<noteq> []"
    then obtain h mids where e: "(h, mids) \<in> set (expiry_queue s')" "h \<le> current"
      by (auto simp: btm_range_to_def filter_empty_conv)
    have "btm_ok (expiry_queue s')" using facts(1) by (simp add: bridge_inv_def)
    then have "btm_get (expiry_queue s') h = Some mids" using btm.entries_get [of "expiry_queue s'" h mids] e(1) by simp
    then show False using e(2) by (simp add: facts(4))
  qed
  then have "sweep_expired_locks current s' = ([], s')" by (simp add: sweep_expired_locks_def)
  then show ?thesis using sweep_transfers [OF inv sw] facts(2) by (simp add: get_transfer_def)
qed

theorem sweep_refunds_expired_exactly_witness:
  "\<exists>released s t. sweep_expired_locks 1000 sample_locked = (released, s) \<and>
     get_transfer s (msg_id sample_message) = Some t \<and> tr_status t = Active 1"
proof (rule sample_lock_facts)
  fix t ev
  assume f: "tr_status t = Locked 1" "tr_expiry_height t = 1000"
    "btm_get (transfers sample_locked) (msg_id sample_message) = Some t"
  obtain r s where sw: "sweep_expired_locks 1000 sample_locked = (r, s)" by (cases "sweep_expired_locks 1000 sample_locked")
  from sweep_refunds_expired_exactly [OF field_image_inj sample_locked_reachable sw] f sw show ?thesis
    by (auto simp: get_transfer_def released_transfer_def)
qed

section \<open>Progress\<close>

lemma burn_then_unlock:
  assumes inv: "bridge_inv H s" and t: "btm_get (transfers s) mid = Some t" and st: "tr_status t = Minted d"
  obtains ev s1 s2 where "burn_with_event H mid d h i ex s = (Inr ev, s1)" "unlock mid d s1 = (Inr (), s2)"
    "btm_get (asset_locations s2) (tr_asset_id t) = Some (Active (tr_source_domain t))"
proof -
  have tgt: "tr_target_domain t = d"
    using inv ledger_invD(1) [of H _ _ _ mid t] t st unfolding bridge_inv_def transfer_ok_def by fastforce
  obtain r s1 where b: "burn_with_event H mid d h i ex s = (r, s1)" by (cases "burn_with_event H mid d h i ex s")
  from b show thesis
  proof (cases rule: burn_cases)
    case err
    then show ?thesis using b t st by (auto simp: burn_with_event_def Let_def split: prod.splits)
  next
    case (ok u ev n store)
    have u: "u = t" using ok(2) t by simp
    have get: "btm_get (transfers s1) mid = Some (t\<lparr>tr_status := Burned d\<rparr>)" by (simp add: ok(5) u)
    obtain r' s2 where ul: "unlock mid d s1 = (r', s2)" by (cases "unlock mid d s1")
    from ul show ?thesis
    proof (cases rule: unlock_cases)
      case err
      then show ?thesis using ul get tgt by (simp add: unlock_def Let_def)
    next
      case (ok w)
      then have "w = t\<lparr>tr_status := Burned d\<rparr>" using get by simp
      then show ?thesis using that [of ev s1 s2] b ul ok \<open>r = Inr ev\<close> by simp
    qed
  qed
qed

lemma locked_not_processed:
  assumes "inj H" and inv: "nonces_of H s" and t: "btm_get (transfers s) (msg_id m) = Some t" "\<not> past_mint (tr_status t)"
    and m: "verify_id H m" "msg_nonce m \<noteq> - 1"
  shows "\<not> is_processed (replay_store s) (msg_id m)"
proof -
  obtain h i n where id: "msg_id m = msg_id (new_message H (lock_params H t h i n))"
    and n: "n = - 1 \<or> (is_processed (replay_store s) (msg_id m) \<longrightarrow> past_mint (tr_status t))"
    using nonce_invD(1) [OF inv t(1)] unfolding nonce_passed_def by blast
  have "msg_nonce m = n"
    using verified_id_fields(5) [OF assms(1) m(1) verify_new(1) id] by (simp add: lock_params_def)
  then show ?thesis using n m(2) t(2) by simp
qed

lemma locked_completes:
  assumes H: "inj H" and inv: "bridge_inv H s" "nonces_of H s"
    and t: "btm_get (transfers s) (msg_id m) = Some t" "tr_status t = Locked d"
    and m: "verify_id H m" "msg_nonce m \<noteq> - 1"
  obtains s2 s3 s4 ev where "mint H m s = (Inr (), s2)"
    "burn_with_event H (msg_id m) (tr_target_domain t) h i ex s2 = (Inr ev, s3)"
    "unlock (msg_id m) (tr_target_domain t) s3 = (Inr (), s4)"
    "btm_get (asset_locations s4) (tr_asset_id t) = Some (Active d)"
proof -
  have ok: "transfer_ok H (msg_id m) t" using inv(1) ledger_invD(1) t(1) by (auto simp: bridge_inv_def)
  have d: "d = tr_source_domain t" using ok t(2) by (simp add: transfer_ok_def)
  note f = transfer_ok_message [OF H ok m(1) refl]
  have "\<not> is_processed (replay_store s) (msg_id m)"
    by (rule locked_not_processed [OF H inv(2) t(1) _ m]) (simp add: t(2))
  moreover from this obtain store where "mark_processed (msg_id m) (replay_store s) = (Inr (), store)"
    using mark_fresh by blast
  moreover obtain r s2 where mt: "mint H m s = (r, s2)" by (cases "mint H m s")
  ultimately have r: "r = Inr ()"
    and get: "btm_get (transfers s2) (msg_id m) = Some (t\<lparr>tr_status := Minted (tr_target_domain t)\<rparr>)"
    using t m(1) f d by (auto simp: mint_def)
  obtain ev s3 s4 where "burn_with_event H (msg_id m) (tr_target_domain t) h i ex s2 = (Inr ev, s3)"
      "unlock (msg_id m) (tr_target_domain t) s3 = (Inr (), s4)"
      "btm_get (asset_locations s4) (tr_asset_id t) = Some (Active d)"
    by (rule burn_then_unlock [OF mint_inv [OF H inv(1) mt] get, of "tr_target_domain t" h i ex]) (use d in auto)
  then show thesis using that mt r by blast
qed

text \<open>C9: a lock can always be completed.  A lock from any reachable state records the transfer as locked;
  and in every state reached after it, by whatever operations, in which the transfer is still locked
  (it has not been minted and no sweep has refunded it), the lock's message is minted, the minted asset
  is burned on the target domain and unlocked from there, none of these steps can fail, and the asset
  ends active on the domain it was locked on.  The message identifier is never one that was used up
  before, because the lane's nonce has moved on; the one exception is a lane whose counter has reached
  the largest word, which hands out that nonce again.\<close>
theorem transfer_round_trip:
  assumes "inj H" and "(bridge_step H)\<^sup>*\<^sup>* bridge_new s"
    and lk: "lock H src tgt h i a ow rc am ex s = (Inr (t, ev), s1)" and m: "ev_message ev = Some m"
    and n: "msg_nonce m \<noteq> - 1"
  shows "get_transfer s1 (msg_id m) = Some t \<and> tr_status t = Locked src \<and>
    (\<forall>s' t'. (bridge_step H)\<^sup>*\<^sup>* s1 s' \<longrightarrow> get_transfer s' (msg_id m) = Some t' \<longrightarrow> tr_status t' = Locked src \<longrightarrow>
      (\<exists>s2 s3 s4 ev'. mint H m s' = (Inr (), s2) \<and>
        burn_with_event H (msg_id m) tgt h' i' ex' s2 = (Inr ev', s3) \<and>
        unlock (msg_id m) tgt s3 = (Inr (), s4) \<and>
        btm_get (asset_locations s4) a = Some (Active src)))"
proof -
  obtain k where mt: "m = new_message H (lock_params H t h i k)" and t: "tr_message_id t = msg_id m"
      "tr_asset_id t = a" "tr_status t = Locked src" "tr_target_domain t = tgt"
      "btm_get (transfers s1) (msg_id m) = Some t"
    using lk by (cases rule: lock_cases) (use m in auto)
  have vm: "verify_id H m" by (simp add: mt)
  have reach: "(bridge_step H)\<^sup>*\<^sup>* bridge_new s1" using assms(2) step_lock [OF lk] by (rule rtranclp.rtrancl_into_rtrancl)
  have "\<exists>s2 s3 s4 ev'. mint H m s' = (Inr (), s2) \<and>
      burn_with_event H (msg_id m) tgt h' i' ex' s2 = (Inr ev', s3) \<and>
      unlock (msg_id m) tgt s3 = (Inr (), s4) \<and> btm_get (asset_locations s4) a = Some (Active src)"
    if later: "(bridge_step H)\<^sup>*\<^sup>* s1 s'" and t': "get_transfer s' (msg_id m) = Some t'" "tr_status t' = Locked src" for s' t'
  proof -
    have inv: "bridge_inv H s'" "nonces_of H s'"
      using nonce_run.inv_reachable [OF rtranclp_trans [OF reach later]] assms(1) bridge_inv_new nonces_of_new by blast+
    have get: "btm_get (transfers s') (msg_id m) = Some t'" using t'(1) by (simp add: get_transfer_def)
    have ok: "transfer_ok H (msg_id m) t'" using inv(1) ledger_invD(1) get by (auto simp: bridge_inv_def)
    have "msg_payload_hash m = bridge_payload_hash H a (tr_amount t)" "msg_target_domain m = tgt"
      using t(2,4) by (simp_all add: mt lock_params_def)
    then have "tr_target_domain t' = tgt" "tr_asset_id t' = a"
      using transfer_ok_message [OF assms(1) ok vm refl] by (simp_all add: payload_inject [OF assms(1)])
    with locked_completes [OF assms(1) inv get t'(2) vm n, of h' i' ex'] show ?thesis by metis
  qed
  then show ?thesis using t by (simp add: get_transfer_def)
qed

text \<open>The example's lock is still locked after another asset has been registered, and completes from there.\<close>

theorem transfer_round_trip_witness:
  "\<exists>s' s2 s3 s4 ev'. register_asset (replicate 32 8) 4 sample_locked = (Inr (), s') \<and>
    mint field_image sample_message s' = (Inr (), s2) \<and>
    burn_with_event field_image (msg_id sample_message) 2 20 0 0 s2 = (Inr ev', s3) \<and>
    unlock (msg_id sample_message) 2 s3 = (Inr (), s4) \<and>
    btm_get (asset_locations s4) sample_asset = Some (Active 1)"
proof (rule sample_lock_facts)
  fix t ev
  assume f: "sample_lock = (Inr (t, ev), sample_locked)" "ev_message ev = Some sample_message"
    "btm_get (transfers sample_locked) (msg_id sample_message) = Some t" "tr_status t = Locked 1"
  have "bridge_step field_image bridge_new sample_registered"
    unfolding sample_registered_def by (rule step_register [of sample_asset 1]) (rule prod.collapse [symmetric])
  then have reach: "(bridge_step field_image)\<^sup>*\<^sup>* bridge_new sample_registered" by blast
  have "msg_nonce sample_message = 0" by code_simp
  then have nonce: "msg_nonce sample_message \<noteq> - 1" by simp
  have "fst (register_asset (replicate 32 8) 4 sample_locked) = Inr ()" by code_simp
  then obtain s' where reg: "register_asset (replicate 32 8) 4 sample_locked = (Inr (), s')" by (metis prod.collapse)
  have "get_transfer s' (msg_id sample_message) = Some t"
    using reg f(3) by (cases rule: register_cases) (simp_all add: get_transfer_def)
  moreover have "(bridge_step field_image)\<^sup>*\<^sup>* sample_locked s'"
    by (rule r_into_rtranclp) (rule step_register [OF reg])
  ultimately show ?thesis
    using transfer_round_trip [OF field_image_inj reach f(1) [unfolded sample_lock_def] f(2) nonce, of 20 0 0] reg f(4)
    by blast
qed

section \<open>Fees\<close>

text \<open>The fee split loses and creates nothing.  With a rate of at most 100 percent the recipient's
  share and the fee add up to the amount, the fee is the larger of the floor and the rounded-down
  proportion, and the recipient gets something whenever the rate is below 100 percent; an amount that
  does not exceed the floor is refused.\<close>
theorem split_bridge_fee_exact:
  assumes "fee_ppm \<le> 1000000" and "unat amount * unat fee_ppm < 2 ^ 128"
  shows "case split_bridge_fee amount fee_ppm min_fee of
      Inl _ \<Rightarrow> unat amount \<le> unat min_fee
    | Inr (recipient, fee) \<Rightarrow>
        unat min_fee < unat amount \<and>
        unat recipient + unat fee = unat amount \<and>
        unat fee = max (unat amount * unat fee_ppm div 1000000) (unat min_fee) \<and>
        (unat fee_ppm < 1000000 \<longrightarrow> 0 < unat recipient)"
proof -
  let ?p = "saturating_mul amount (ucast fee_ppm) div (1000000 :: u128)"
  have ppm: "unat (ucast fee_ppm :: u128) = unat fee_ppm" and mf: "unat (ucast min_fee :: u128) = unat min_fee"
    by (rule unat_widen)+
  have le: "unat fee_ppm \<le> 1000000" using assms(1) by (simp add: word_le_nat_alt)
  have p: "unat ?p = unat amount * unat fee_ppm div 1000000"
    using assms(2) by (simp add: unat_div_distrib unat_saturating_mul ppm)
  have bound: "unat amount * unat fee_ppm div 1000000 \<le> unat amount"
    using le by (metis div_le_mono mult_le_mono2 nonzero_mult_div_cancel_right zero_neq_numeral)
  have strict: "unat amount * unat fee_ppm div 1000000 < unat amount" if "unat fee_ppm < 1000000" "0 < unat amount"
    using that by (simp add: div_less_iff_less_mult)
  have f: "unat (max ?p (ucast min_fee)) = max (unat ?p) (unat (ucast min_fee :: u128))"
    by (simp add: max_def word_le_nat_alt)
  show ?thesis
  proof (cases "amount \<le> ucast min_fee")
    case True
    then show ?thesis by (simp add: split_bridge_fee_def Let_def word_le_nat_alt mf)
  next
    case False
    then have big: "unat min_fee < unat amount" by (simp add: word_le_nat_alt mf)
    have fee: "unat (max ?p (ucast min_fee)) = max (unat amount * unat fee_ppm div 1000000) (unat min_fee)"
      unfolding f p mf ..
    have rec: "unat (saturating_sub amount (max ?p (ucast min_fee))) =
        unat amount - max (unat amount * unat fee_ppm div 1000000) (unat min_fee)"
      unfolding unat_saturating_sub fee ..
    show ?thesis
      using False big bound strict by (simp add: split_bridge_fee_def Let_def rec fee)
  qed
qed

theorem split_bridge_fee_exact_witness:
  "split_bridge_fee 1000 10000 5 = Inr (990, 10) \<and> unat (990 :: u128) + unat (10 :: u128) = unat (1000 :: u128)"
proof -
  have run: "split_bridge_fee 1000 10000 5 = Inr (990, 10)"
    by (simp add: split_bridge_fee_def saturating_mul_def saturating_sub_def)
  show ?thesis using split_bridge_fee_exact [of 10000 1000 5] unfolding run by simp
qed

end
