(* ===== verification/Fee_Market.thy ===== *)
theory Fee_Market
  imports Prelude
begin

text \<open>
  The fee market, \<open>src/chain/fee_market.rs\<close>: the base-fee update in 128-bit signed arithmetic and the
  split of a bid into burn, proposer tip and treasury cut.  Signed 128-bit values are integers with
  the source's saturation written out; a plain \<open>*\<close> that leaves the range is a panic (the build enables
  overflow checks), the value \<open>None\<close>.
\<close>

section \<open>Signed 128-bit arithmetic\<close>

definition i128_max :: int where
  "i128_max = 2 ^ 127 - 1"

definition i128_min :: int where
  "i128_min = - (2 ^ 127)"

definition i128_clamp :: "int \<Rightarrow> int" where
  "i128_clamp x = max i128_min (min i128_max x)"

definition i128_checked :: "int \<Rightarrow> int option" where
  "i128_checked x = (if i128_min \<le> x \<and> x \<le> i128_max then Some x else None)"

text \<open>Rust's integer division truncates towards zero.\<close>

definition trunc_div :: "int \<Rightarrow> int \<Rightarrow> int" where
  "trunc_div a b = sgn a * sgn b * (\<bar>a\<bar> div \<bar>b\<bar>)"

section \<open>Model\<close>

definition DEFAULT_TARGET_GAS :: u64 where
  "DEFAULT_TARGET_GAS = 10000000"

definition DEFAULT_BASE_FEE_MAX_CHANGE_DENOMINATOR :: u64 where
  "DEFAULT_BASE_FEE_MAX_CHANGE_DENOMINATOR = 8"

definition DEFAULT_ELASTICITY_MULTIPLIER :: u64 where
  "DEFAULT_ELASTICITY_MULTIPLIER = 2"

definition PPM_DENOMINATOR :: u64 where
  "PPM_DENOMINATOR = 1000000"

definition DEFAULT_TREASURY_RATE_PPM :: u64 where
  "DEFAULT_TREASURY_RATE_PPM = 10000"

record fee_market_params =
  target_gas :: u64
  elasticity_multiplier :: u64
  base_fee_max_change_denominator :: u64
  min_base_fee :: u64

definition fee_market_default :: fee_market_params where
  "fee_market_default =
     \<lparr>target_gas = DEFAULT_TARGET_GAS, elasticity_multiplier = DEFAULT_ELASTICITY_MULTIPLIER,
      base_fee_max_change_denominator = DEFAULT_BASE_FEE_MAX_CHANGE_DENOMINATOR, min_base_fee = 0\<rparr>"

record fee_bid =
  max_fee :: u64
  priority_fee :: u64

definition bid_legacy :: "u64 \<Rightarrow> fee_bid" where
  "bid_legacy fee = \<lparr>max_fee = fee, priority_fee = 0\<rparr>"

record effective_fee_t =
  eff_base_fee_burned :: u64
  eff_priority_fee_paid :: u64

datatype fee_error =
    MaxFeeBelowBaseFee u64 u64
  | InvalidParams
  | TreasuryRateAbovePpmDenominator u64

definition next_base_fee :: "u64 \<Rightarrow> u64 \<Rightarrow> fee_market_params \<Rightarrow> u64 option" where
  "next_base_fee parent_base_fee parent_gas_used params =
     (if target_gas params = 0 \<or> base_fee_max_change_denominator params = 0
      then Some (max parent_base_fee (min_base_fee params))
      else
        (let parent = uint parent_base_fee;
             gas_delta = uint parent_gas_used - uint (target_gas params)
         in case i128_checked (uint (target_gas params) * uint (base_fee_max_change_denominator params)) of
              None \<Rightarrow> None
            | Some denom \<Rightarrow>
                (let adjustment = trunc_div (i128_clamp (parent * gas_delta)) (max denom 1);
                     new_fee = max (i128_clamp (parent + adjustment)) (uint (min_base_fee params))
                 in Some (word_of_int (min new_fee (2 ^ 64 - 1))))))"

definition effective_fee :: "fee_bid \<Rightarrow> u64 \<Rightarrow> fee_error + effective_fee_t" where
  "effective_fee bid block_base_fee =
     (if max_fee bid < block_base_fee then Inl (MaxFeeBelowBaseFee (max_fee bid) block_base_fee)
      else (let tip_cap = saturating_sub (max_fee bid) block_base_fee
            in Inr \<lparr>eff_base_fee_burned = block_base_fee,
                    eff_priority_fee_paid = min (priority_fee bid) tip_cap\<rparr>))"

record fee_distribution =
  base_fee_burned :: u64
  priority_fee_to_proposer :: u64
  treasury_fee :: u64

definition distribute_fee :: "fee_bid \<Rightarrow> u64 \<Rightarrow> u64 \<Rightarrow> u64 \<Rightarrow> fee_error + fee_distribution" where
  "distribute_fee bid block_base_fee gas_used treasury_rate_ppm =
     (case effective_fee bid block_base_fee of
        Inl e \<Rightarrow> Inl e
      | Inr effective \<Rightarrow>
          (let burned = saturating_mul block_base_fee gas_used;
               total_priority = saturating_mul (eff_priority_fee_paid effective) gas_used
           in if treasury_rate_ppm > PPM_DENOMINATOR
              then Inl (TreasuryRateAbovePpmDenominator treasury_rate_ppm)
              else
                (let treasury = saturating_mul total_priority treasury_rate_ppm div PPM_DENOMINATOR
                 in Inr \<lparr>base_fee_burned = burned,
                         priority_fee_to_proposer = saturating_sub total_priority treasury,
                         treasury_fee = treasury\<rparr>)))"

section \<open>The base fee\<close>

lemma trunc_div_pos:
  assumes "0 < b"
  shows "trunc_div a b = (if 0 \<le> a then a div b else - ((- a) div b))"
  using assms by (auto simp: trunc_div_def sgn_if)

lemma i128_clamp_between: "0 \<le> a \<Longrightarrow> 0 \<le> i128_clamp a \<and> i128_clamp a \<le> a"
  "a \<le> 0 \<Longrightarrow> a \<le> i128_clamp a \<and> i128_clamp a \<le> 0"
  by (auto simp: i128_clamp_def i128_min_def i128_max_def)

lemma u64_int: "0 \<le> uint (x :: u64)" "uint (x :: u64) \<le> 2 ^ 64 - 1"
  using uint_lt2p [of x] by simp_all

lemma next_base_fee_adjustment:
  fixes parent gas tgt den :: int
  assumes nn: "0 \<le> parent" and tgt: "0 < tgt" and den: "0 < den" and gas: "0 \<le> gas"
  defines "adj \<equiv> trunc_div (i128_clamp (parent * (gas - tgt))) (max (tgt * den) 1)"
  shows "- (parent div den) \<le> adj" and "gas \<le> tgt \<Longrightarrow> adj \<le> 0" and "tgt \<le> gas \<Longrightarrow> 0 \<le> adj"
    and "gas \<le> m * tgt \<Longrightarrow> 1 \<le> m \<Longrightarrow> adj \<le> parent * (m - 1) div den"
proof -
  let ?x = "i128_clamp (parent * (gas - tgt))"
  have pos: "0 < tgt * den" and mx: "max (tgt * den) 1 = tgt * den" using tgt den by (simp_all add: int_one_le_iff_zero_less)
  have adj: "adj = (if 0 \<le> ?x then ?x div (tgt * den) else - ((- ?x) div (tgt * den)))"
    unfolding adj_def mx by (rule trunc_div_pos [OF pos])
  show low: "gas \<le> tgt \<Longrightarrow> adj \<le> 0"
  proof -
    assume "gas \<le> tgt"
    then have "?x \<le> 0" using i128_clamp_between(2) nn by (simp add: mult_nonneg_nonpos)
    then show ?thesis using pos by (auto simp: adj pos_imp_zdiv_nonneg_iff)
  qed
  show high: "tgt \<le> gas \<Longrightarrow> 0 \<le> adj"
  proof -
    assume "tgt \<le> gas"
    then have "0 \<le> ?x" using i128_clamp_between(1) nn by simp
    then show ?thesis using pos by (simp add: adj pos_imp_zdiv_nonneg_iff)
  qed
  show "- (parent div den) \<le> adj"
  proof (cases "tgt \<le> gas")
    case True
    have "0 \<le> parent div den" using nn den by (simp add: pos_imp_zdiv_nonneg_iff)
    then show ?thesis using high [OF True] by simp
  next
    case False
    have "parent * (gas - tgt) \<le> 0" using False nn by (simp add: mult_nonneg_nonpos)
    then have c: "parent * (gas - tgt) \<le> ?x" "?x \<le> 0" using i128_clamp_between(2) by simp_all
    have "0 \<le> parent * gas" using nn gas by simp
    then have "- ?x \<le> parent * tgt" using c(1) unfolding right_diff_distrib by linarith
    then have "(- ?x) div (tgt * den) \<le> (parent * tgt) div (tgt * den)" using pos by (rule zdiv_mono1)
    also have "\<dots> = parent div den" using tgt by (simp add: mult.commute)
    finally show ?thesis using c(2) by (auto simp: adj)
  qed
  show "adj \<le> parent * (m - 1) div den" if m: "gas \<le> m * tgt" "1 \<le> m"
  proof (cases "tgt \<le> gas")
    case True
    then have c: "0 \<le> ?x" "?x \<le> parent * (gas - tgt)" using i128_clamp_between(1) nn by simp_all
    have "parent * (gas - tgt) \<le> parent * ((m - 1) * tgt)"
      using nn m by (intro mult_left_mono) (simp_all add: left_diff_distrib)
    with c(2) have "?x \<le> parent * (m - 1) * tgt" by (simp add: ac_simps)
    then have "?x div (tgt * den) \<le> (parent * (m - 1) * tgt) div (tgt * den)" using pos by (rule zdiv_mono1)
    also have "\<dots> = parent * (m - 1) div den" using tgt by (simp add: mult.commute)
    finally show ?thesis using c(1) by (simp add: adj)
  next
    case False
    then have "adj \<le> 0" using low by simp
    moreover have "0 \<le> parent * (m - 1) div den" using nn den m by (simp add: pos_imp_zdiv_nonneg_iff)
    ultimately show ?thesis by simp
  qed
qed

lemma next_base_fee_clamped:
  fixes params :: fee_market_params
  assumes "target_gas params \<noteq> 0" and "base_fee_max_change_denominator params \<noteq> 0"
    and "uint (target_gas params) * uint (base_fee_max_change_denominator params) \<le> i128_max"
  obtains adj f where "next_base_fee p g params = Some f"
    "uint f = min (max (i128_clamp (uint p + adj)) (uint (min_base_fee params))) (2 ^ 64 - 1)"
    "- (uint p div uint (base_fee_max_change_denominator params)) \<le> adj"
    "uint g \<le> uint (target_gas params) \<Longrightarrow> adj \<le> 0" "uint (target_gas params) \<le> uint g \<Longrightarrow> 0 \<le> adj"
    "\<And>m. uint g \<le> m * uint (target_gas params) \<Longrightarrow> 1 \<le> m \<Longrightarrow>
       adj \<le> uint p * (m - 1) div uint (base_fee_max_change_denominator params)"
proof -
  let ?t = "uint (target_gas params)" and ?d = "uint (base_fee_max_change_denominator params)"
  have "?t \<noteq> 0" "?d \<noteq> 0" using assms(1,2) by (simp_all add: unsigned_eq_0_iff)
  then have pos: "0 < ?t" "0 < ?d"
    using u64_int(1) [of "target_gas params"] u64_int(1) [of "base_fee_max_change_denominator params"] by linarith+
  let ?adj = "trunc_div (i128_clamp (uint p * (uint g - ?t))) (max (?t * ?d) 1)"
  let ?v = "min (max (i128_clamp (uint p + ?adj)) (uint (min_base_fee params))) (2 ^ 64 - 1)"
  have "0 < ?t * ?d" using pos by (rule mult_pos_pos)
  then have chk: "i128_checked (?t * ?d) = Some (?t * ?d)"
    using assms(3) by (simp add: i128_checked_def i128_min_def)
  have v: "0 \<le> ?v" "?v < 2 ^ 64" using u64_int(1) [of "min_base_fee params"] by (simp_all add: le_max_iff_disj)
  then have "uint (word_of_int ?v :: u64) = ?v" by (simp add: uint_word_of_int_eq take_bit_int_eq_self)
  then show thesis
    using that [of "word_of_int ?v" ?adj] next_base_fee_adjustment [OF u64_int(1) pos u64_int(1)] assms(1,2) chk
    by (simp add: next_base_fee_def Let_def)
qed

text \<open>C22: the base fee moves by bounded steps.  For parameters whose product fits (no panic), the next base
  fee is at least the floor, falls by at most one part in the denominator, does not fall when the
  parent block used at least the target, does not rise above the parent fee and the floor when it used
  at most the target, and rises by at most \<open>(elasticity - 1)\<close> parts in the denominator when the
  block was within the elasticity limit.\<close>
theorem base_fee_step_bounded:
  assumes "target_gas params \<noteq> 0" and "base_fee_max_change_denominator params \<noteq> 0"
    and "elasticity_multiplier params \<noteq> 0"
    and "uint (target_gas params) * uint (base_fee_max_change_denominator params) \<le> i128_max"
  shows "\<exists>f. next_base_fee p g params = Some f \<and>
    min_base_fee params \<le> f \<and>
    uint p - uint p div uint (base_fee_max_change_denominator params) \<le> uint f \<and>
    (target_gas params \<le> g \<longrightarrow> p \<le> f) \<and>
    (g \<le> target_gas params \<longrightarrow> f \<le> max p (min_base_fee params)) \<and>
    (uint g \<le> uint (elasticity_multiplier params) * uint (target_gas params) \<longrightarrow>
       uint f \<le> max (uint p + uint p * (uint (elasticity_multiplier params) - 1) div uint (base_fee_max_change_denominator params))
                     (uint (min_base_fee params)))"
proof -
  let ?d = "uint (base_fee_max_change_denominator params)" and ?m = "uint (min_base_fee params)"
    and ?e = "uint (elasticity_multiplier params)"
  obtain adj f where f: "next_base_fee p g params = Some f"
      "uint f = min (max (i128_clamp (uint p + adj)) ?m) (2 ^ 64 - 1)"
      "- (uint p div ?d) \<le> adj"
      "uint g \<le> uint (target_gas params) \<Longrightarrow> adj \<le> 0" "uint (target_gas params) \<le> uint g \<Longrightarrow> 0 \<le> adj"
      "\<And>m. uint g \<le> m * uint (target_gas params) \<Longrightarrow> 1 \<le> m \<Longrightarrow> adj \<le> uint p * (m - 1) div ?d"
    using next_base_fee_clamped [OF assms(1,2,4), of p g] by metis
  have "?e \<noteq> 0" using assms(3) by (simp add: unsigned_eq_0_iff)
  then have e: "1 \<le> ?e" using u64_int(1) [of "elasticity_multiplier params"] by linarith
  have "uint p div ?d = int (unat p div unat (base_fee_max_change_denominator params))" by (simp add: zdiv_int)
  also have "\<dots> \<le> int (unat p)" by (simp only: of_nat_le_iff div_le_dividend)
  finally have dv: "uint p div ?d \<le> uint p" by simp
  then have nn: "0 \<le> uint p + adj" using f(3) by linarith
  then have cl: "0 \<le> i128_clamp (uint p + adj)" "i128_clamp (uint p + adj) \<le> uint p + adj"
    using i128_clamp_between(1) by auto
  have lb: "x \<le> i128_clamp (uint p + adj)" if "x \<le> uint p + adj" "x \<le> uint p" for x
    using that u64_int(2) [of p] nn by (auto simp: i128_clamp_def i128_max_def i128_min_def)
  have p: "uint p \<le> 2 ^ 64 - 1" and m: "?m \<le> 2 ^ 64 - 1" using u64_int(2) by auto
  have "?m \<le> uint f" using f(2) m by simp
  moreover have "uint p - uint p div ?d \<le> uint f"
  proof -
    have "0 \<le> uint p div ?d" using u64_int(1) by (simp add: div_int_pos_iff)
    then have "uint p - uint p div ?d \<le> i128_clamp (uint p + adj)" "uint p - uint p div ?d \<le> 2 ^ 64 - 1"
      using lb [of "uint p - uint p div ?d"] f(3) p by linarith+
    then show ?thesis using f(2) by simp
  qed
  moreover have "uint p \<le> uint f" if "uint (target_gas params) \<le> uint g"
    using lb [of "uint p"] f(5) [OF that] f(2) p by simp
  moreover have "uint f \<le> max (uint p) ?m" if "uint g \<le> uint (target_gas params)"
    using cl(2) f(4) [OF that] f(2) by (simp add: min_def max_def)
  moreover have "uint f \<le> max (uint p + uint p * (?e - 1) div ?d) ?m" if "uint g \<le> ?e * uint (target_gas params)"
    using cl(2) f(6) [OF that e] f(2) by (simp add: min_def max_def)
  ultimately show ?thesis using f(1) by (auto simp: word_le_def max_def)
qed

theorem base_fee_step_bounded_witness:
  "next_base_fee 1000 20000000 fee_market_default = Some 1125 \<and> (1125 :: int) \<le> 1000 + 1000 * (2 - 1) div 8"
proof -
  have run: "next_base_fee 1000 20000000 fee_market_default = Some 1125"
    by code_simp
  show ?thesis
    using base_fee_step_bounded [of fee_market_default 1000 20000000] run
    by (simp add: fee_market_default_def DEFAULT_TARGET_GAS_def DEFAULT_BASE_FEE_MAX_CHANGE_DENOMINATOR_def
        DEFAULT_ELASTICITY_MULTIPLIER_def i128_max_def)
qed

text \<open>C23: a base fee below the denominator never rises again.  When the parent fee is smaller than the
  change denominator, even a block of twice the target gas leaves the fee at the parent fee (or the
  floor), because the adjustment rounds to zero; in particular a fee of zero stays zero.\<close>
theorem base_fee_stuck_below_denominator:
  assumes "target_gas params \<noteq> 0" and "p < base_fee_max_change_denominator params"
    and "uint (target_gas params) * uint (base_fee_max_change_denominator params) \<le> i128_max"
    and "uint g \<le> 2 * uint (target_gas params)"
  shows "\<exists>f. next_base_fee p g params = Some f \<and> f \<le> max p (min_base_fee params)"
proof -
  have nz: "base_fee_max_change_denominator params \<noteq> 0" using assms(2) by auto
  obtain adj f where f: "next_base_fee p g params = Some f"
      "uint f = min (max (i128_clamp (uint p + adj)) (uint (min_base_fee params))) (2 ^ 64 - 1)"
      "adj \<le> uint p * (2 - 1) div uint (base_fee_max_change_denominator params)"
    using next_base_fee_clamped [OF assms(1) nz assms(3), of p g] assms(4) by (metis one_le_numeral)
  have "uint p div uint (base_fee_max_change_denominator params) = 0"
    using assms(2) u64_int(1) [of p] by (intro div_pos_pos_trivial) (simp_all add: word_less_def)
  then have "uint p + adj \<le> uint p" using f(3) by simp
  moreover have "i128_min \<le> uint p" by (rule order_trans [OF _ u64_int(1)]) (simp add: i128_min_def)
  ultimately have "i128_clamp (uint p + adj) \<le> uint p" unfolding i128_clamp_def by linarith
  then have "uint f \<le> max (uint p) (uint (min_base_fee params))" using f(2) by (simp add: min_def max_def)
  then show ?thesis using f(1) by (auto simp: word_le_def max_def split: if_splits)
qed

theorem base_fee_stuck_below_denominator_witness:
  "\<exists>f. next_base_fee 7 20000000 fee_market_default = Some f \<and> f \<le> 7"
  using base_fee_stuck_below_denominator [of fee_market_default 7 20000000]
  by (simp add: fee_market_default_def DEFAULT_TARGET_GAS_def DEFAULT_BASE_FEE_MAX_CHANGE_DENOMINATOR_def
      i128_max_def)

section \<open>The fee split\<close>

text \<open>C24: the fee split is exact.  For a bid whose full price fits in 64 bits, the burn is base fee times gas,
  proposer and treasury together get exactly the capped tip times gas, the treasury gets at most its
  rate of it, and the three parts never exceed what the sender offered.\<close>
theorem distribute_fee_exact:
  assumes d: "distribute_fee bid base gas rate = Inr d" and fits: "unat (max_fee bid) * unat gas < 2 ^ 64"
  shows "unat (base_fee_burned d) = unat base * unat gas \<and>
    unat (priority_fee_to_proposer d) + unat (treasury_fee d) =
      min (unat (priority_fee bid)) (unat (max_fee bid) - unat base) * unat gas \<and>
    unat (treasury_fee d) * 1000000 \<le>
      min (unat (priority_fee bid)) (unat (max_fee bid) - unat base) * unat gas * unat rate \<and>
    unat (base_fee_burned d) + unat (priority_fee_to_proposer d) + unat (treasury_fee d) \<le> unat (max_fee bid) * unat gas"
proof -
  let ?tip = "min (unat (priority_fee bid)) (unat (max_fee bid) - unat base)"
  have cover: "base \<le> max_fee bid" and rate: "rate \<le> PPM_DENOMINATOR"
    using d by (auto simp: distribute_fee_def effective_fee_def Let_def split: if_splits)
  have le: "unat base \<le> unat (max_fee bid)" using cover by (simp add: word_le_nat_alt)
  define tp where "tp = saturating_mul (min (priority_fee bid) (saturating_sub (max_fee bid) base)) gas"
  have d': "d = \<lparr>base_fee_burned = saturating_mul base gas,
      priority_fee_to_proposer = saturating_sub tp (saturating_mul tp rate div PPM_DENOMINATOR),
      treasury_fee = saturating_mul tp rate div PPM_DENOMINATOR\<rparr>"
    using d cover [unfolded not_less [symmetric]] rate [unfolded not_less [symmetric]]
    by (simp add: distribute_fee_def effective_fee_def Let_def tp_def)
  have tip: "unat (min (priority_fee bid) (saturating_sub (max_fee bid) base)) = ?tip"
    by (simp add: min_def word_le_nat_alt unat_saturating_sub)
  have split: "unat base * unat gas + ?tip * unat gas \<le> unat (max_fee bid) * unat gas"
  proof -
    have "unat base + ?tip \<le> unat (max_fee bid)" using le by simp
    then show ?thesis by (metis add_mult_distrib mult_le_mono1)
  qed
  have burn: "unat (saturating_mul base gas) = unat base * unat gas"
    using split fits by (simp add: unat_saturating_mul)
  have tp: "unat tp = ?tip * unat gas" using split fits unfolding tp_def by (simp add: unat_saturating_mul tip)
  have ppm: "unat PPM_DENOMINATOR = 1000000" by (simp add: PPM_DENOMINATOR_def)
  have tr: "unat (saturating_mul tp rate div PPM_DENOMINATOR) \<le> unat tp * unat rate div 1000000"
    by (simp add: unat_div_distrib ppm unat_saturating_mul div_le_mono)
  have "unat tp * unat rate div 1000000 \<le> unat tp"
    using rate by (simp add: word_le_nat_alt ppm) (metis div_le_mono mult_le_mono2 nonzero_mult_div_cancel_right zero_neq_numeral)
  then have le_tp: "unat (saturating_mul tp rate div PPM_DENOMINATOR) \<le> unat tp" using tr by linarith
  have "unat (saturating_mul tp rate div PPM_DENOMINATOR) * 1000000 \<le> unat tp * unat rate"
    using tr by (metis div_times_less_eq_dividend le_trans mult_le_mono1)
  then show ?thesis using burn tp le_tp split by (simp add: d' unat_saturating_sub)
qed

theorem distribute_fee_exact_witness:
  "\<exists>d. distribute_fee \<lparr>max_fee = 100, priority_fee = 10\<rparr> 80 1000 10000 = Inr d \<and>
     unat (priority_fee_to_proposer d) + unat (treasury_fee d) = 10000 \<and> unat (base_fee_burned d) = 80000"
proof -
  obtain d where d: "distribute_fee \<lparr>max_fee = 100, priority_fee = 10\<rparr> 80 1000 10000 = Inr d"
    by (simp add: distribute_fee_def effective_fee_def PPM_DENOMINATOR_def Let_def)
  show ?thesis using distribute_fee_exact [OF d] d by simp
qed

end
