(* ===== verification/Tokenomics.thy ===== *)
theory Tokenomics
  imports Hashing "HOL-Library.Multiset"
begin

text \<open>
  Supply, vesting, burns and validator rewards: \<open>src/tokenomics/mod.rs\<close> and
  \<open>src/tokenomics/reward_pool.rs\<close>.  Products are taken at 128 bits as in the source; the one product
  there that can leave that range is a panic, the value \<open>None\<close>.
\<close>

section \<open>Supply and parameters\<close>

definition FIXED_POINT_SCALE :: u64 where
  "FIXED_POINT_SCALE = 1000000"

definition BUD_UNIT :: u64 where
  "BUD_UNIT = 1000000"

definition BUD_TOTAL_SUPPLY :: u64 where
  "BUD_TOTAL_SUPPLY = 100000000 * BUD_UNIT"

text \<open>\<open>bud\<close> multiplies with overflow checks on: a product that does not fit aborts, which is \<^const>\<open>None\<close>.
  The amounts in the sources are literals that fit, so \<open>buds\<close> is their value.\<close>

definition bud :: "u64 \<Rightarrow> u64 option" where
  "bud whole = (if unat whole * unat BUD_UNIT < 2 ^ 64 then Some (whole * BUD_UNIT) else None)"

abbreviation buds :: "u64 \<Rightarrow> u64" where
  "buds whole \<equiv> the (bud whole)"

lemma bud_exact: "bud whole = Some amount \<Longrightarrow> unat amount = unat whole * 1000000"
  by (auto simp: bud_def BUD_UNIT_def unat_mult_small split: if_splits)

lemma bud_returns: "(\<exists>amount. bud whole = Some amount) \<longleftrightarrow> unat whole \<le> 18446744073709"
  by (auto simp: bud_def BUD_UNIT_def)

datatype allocation = Community | Liquidity | Ecosystem | Team | BurnReserve

fun allocation_label :: "allocation \<Rightarrow> string" where
  "allocation_label Community = ''community''"
| "allocation_label Liquidity = ''liquidity''"
| "allocation_label Ecosystem = ''ecosystem''"
| "allocation_label Team = ''team''"
| "allocation_label BurnReserve = ''burn_reserve''"

record vesting_schedule =
  vest_total :: u64
  start_epoch :: u64
  cliff_epochs :: u64
  duration_epochs :: u64

text \<open>\<open>a * b / c\<close> at 128 bits, narrowed to 64.\<close>

definition mul_div :: "u64 \<Rightarrow> u64 \<Rightarrow> u64 \<Rightarrow> u64" where
  "mul_div a b c = ucast ((ucast a * ucast b :: u128) div ucast c)"

definition unlocked_at :: "vesting_schedule \<Rightarrow> u64 \<Rightarrow> u64" where
  "unlocked_at v epoch =
     (if duration_epochs v = 0 then vest_total v
      else if epoch < saturating_add (start_epoch v) (cliff_epochs v) then 0
      else (let elapsed = saturating_sub epoch (start_epoch v)
            in if elapsed \<ge> duration_epochs v then vest_total v
               else mul_div (vest_total v) elapsed (duration_epochs v)))"

definition locked_at :: "vesting_schedule \<Rightarrow> u64 \<Rightarrow> u64" where
  "locked_at v epoch = saturating_sub (vest_total v) (unlocked_at v epoch)"

record tokenomics_params =
  community :: u64
  liquidity :: u64
  ecosystem :: u64
  team :: u64
  burn_reserve :: u64
  epochs_per_year :: u64
  annual_burn_ratio_fixed :: u64
  team_cliff_epochs :: u64
  team_vesting_epochs :: u64
  tx_fee_burn_ratio_fixed :: u64
  block_reward :: u64
  slot_duration_secs :: u64
  epoch_length_slots :: u64
  validator_annual_yield_ratio_fixed :: u64

definition tokenomics_default :: tokenomics_params where
  "tokenomics_default =
     \<lparr>community = buds 10000000, liquidity = buds 10000000, ecosystem = buds 20000000,
      team = buds 20000000, burn_reserve = buds 40000000, epochs_per_year = 1000,
      annual_burn_ratio_fixed = FIXED_POINT_SCALE div 10, team_cliff_epochs = 1000,
      team_vesting_epochs = 4000, tx_fee_burn_ratio_fixed = FIXED_POINT_SCALE div 100,
      block_reward = 50, slot_duration_secs = 10, epoch_length_slots = 32,
      validator_annual_yield_ratio_fixed = (FIXED_POINT_SCALE * 5) div 100\<rparr>"

definition seconds_per_epoch :: "tokenomics_params \<Rightarrow> u64" where
  "seconds_per_epoch p = saturating_mul (max (slot_duration_secs p) 1) (max (epoch_length_slots p) 1)"

definition seconds_per_year :: "tokenomics_params \<Rightarrow> u64" where
  "seconds_per_year p = saturating_mul (max (epochs_per_year p) 1) (seconds_per_epoch p)"

definition epoch_at_timestamp :: "tokenomics_params \<Rightarrow> u64 \<Rightarrow> u64" where
  "epoch_at_timestamp p timestamp_secs = timestamp_secs div seconds_per_epoch p"

definition params_total :: "tokenomics_params \<Rightarrow> u64" where
  "params_total p =
     saturating_add (saturating_add (saturating_add (saturating_add (community p) (liquidity p))
       (ecosystem p)) (team p)) (burn_reserve p)"

definition is_balanced :: "tokenomics_params \<Rightarrow> bool" where
  "is_balanced p \<longleftrightarrow> params_total p = BUD_TOTAL_SUPPLY"

fun amount_of :: "tokenomics_params \<Rightarrow> allocation \<Rightarrow> u64" where
  "amount_of p Community = community p"
| "amount_of p Liquidity = liquidity p"
| "amount_of p Ecosystem = ecosystem p"
| "amount_of p Team = team p"
| "amount_of p BurnReserve = burn_reserve p"

definition team_vesting :: "tokenomics_params \<Rightarrow> u64 \<Rightarrow> vesting_schedule" where
  "team_vesting p genesis_epoch =
     \<lparr>vest_total = team p, start_epoch = genesis_epoch, cliff_epochs = team_cliff_epochs p,
      duration_epochs = team_vesting_epochs p\<rparr>"

definition calculate_epoch_reward :: "tokenomics_params \<Rightarrow> u64 \<Rightarrow> u64 option" where
  "calculate_epoch_reward p validator_stake =
     (let annual_yield = (ucast validator_stake * ucast (validator_annual_yield_ratio_fixed p) :: u128)
                           div ucast FIXED_POINT_SCALE;
          slot_secs = (ucast (max (slot_duration_secs p) 1) :: u128);
          epoch_slots = (ucast (max (epoch_length_slots p) 1) :: u128);
          year_secs = (365 * 24 * 60 * 60 :: u128);
          denom = slot_secs * year_secs div 10
      in if uint annual_yield * uint epoch_slots \<ge> 2 ^ 128 then None
         else (let epoch_yield = (annual_yield * epoch_slots) div max denom 1
               in Some (ucast (max epoch_yield 1))))"

definition annual_burn_amount :: "tokenomics_params \<Rightarrow> u64" where
  "annual_burn_amount p = mul_div (burn_reserve p) (annual_burn_ratio_fixed p) FIXED_POINT_SCALE"

definition metabolic_burn :: "tokenomics_params \<Rightarrow> u64 \<Rightarrow> u64" where
  "metabolic_burn p fee = mul_div fee (tx_fee_burn_ratio_fixed p) FIXED_POINT_SCALE"

record tokenomics_addresses =
  addr_community :: address
  addr_liquidity :: address
  addr_ecosystem :: address
  addr_team :: address
  addr_burn_reserve :: address

definition addresses_reserved :: tokenomics_addresses where
  "addresses_reserved =
     (let mk = (\<lambda>tag. (replicate 32 0)[0 := 0xB0, 1 := 0xD0, 2 := tag])
      in \<lparr>addr_community = mk 1, addr_liquidity = mk 2, addr_ecosystem = mk 3, addr_team = mk 4,
          addr_burn_reserve = mk 5\<rparr>)"

fun address_of :: "tokenomics_addresses \<Rightarrow> allocation \<Rightarrow> address" where
  "address_of a Community = addr_community a"
| "address_of a Liquidity = addr_liquidity a"
| "address_of a Ecosystem = addr_ecosystem a"
| "address_of a Team = addr_team a"
| "address_of a BurnReserve = addr_burn_reserve a"

definition genesis_allocations :: "tokenomics_params \<Rightarrow> tokenomics_addresses \<Rightarrow> (address \<times> u64) list" where
  "genesis_allocations p a =
     [(addr_community a, community p), (addr_liquidity a, liquidity p), (addr_ecosystem a, ecosystem p),
      (addr_team a, team p), (addr_burn_reserve a, burn_reserve p)]"

record timed_burn_state =
  years_burned :: u64
  total_burned :: u64

definition due_years :: "u64 \<Rightarrow> u64 \<Rightarrow> u64 \<Rightarrow> u64" where
  "due_years genesis_epoch current_epoch per_year =
     (if per_year = 0 then 0 else saturating_sub current_epoch genesis_epoch div per_year)"

definition due_years_by_time :: "u64 \<Rightarrow> u64 \<Rightarrow> u64 \<Rightarrow> u64" where
  "due_years_by_time genesis_secs current_secs per_year =
     (if per_year = 0 then 0 else saturating_sub current_secs genesis_secs div per_year)"

section \<open>The reward pool\<close>

definition DEFAULT_VALIDATION_REWARD_POOL :: u64 where
  "DEFAULT_VALIDATION_REWARD_POOL = buds 10000000"

definition DEFAULT_TREASURY_POOL :: u64 where
  "DEFAULT_TREASURY_POOL = buds 2000000"

definition DEFAULT_VALIDATION_POOL_EPOCHS :: u64 where
  "DEFAULT_VALIDATION_POOL_EPOCHS = 100000"

record reward_pool_schedule =
  validation_reward_pool :: u64
  validation_pool_epochs :: u64
  treasury_pool :: u64
  reward_pool_start_epoch :: u64

definition schedule_default :: reward_pool_schedule where
  "schedule_default =
     \<lparr>validation_reward_pool = DEFAULT_VALIDATION_REWARD_POOL,
      validation_pool_epochs = DEFAULT_VALIDATION_POOL_EPOCHS,
      treasury_pool = DEFAULT_TREASURY_POOL, reward_pool_start_epoch = 0\<rparr>"

datatype reward_pool_error = EmptyEpochSchedule | PoolExceedsFixedSupply

definition schedule_validate :: "reward_pool_schedule \<Rightarrow> reward_pool_error + unit" where
  "schedule_validate s =
     (if validation_pool_epochs s = 0 then Inl EmptyEpochSchedule
      else if saturating_add (validation_reward_pool s) (treasury_pool s) > BUD_TOTAL_SUPPLY
      then Inl PoolExceedsFixedSupply
      else Inr ())"

definition per_epoch_budget :: "reward_pool_schedule \<Rightarrow> u64 \<Rightarrow> u64 \<Rightarrow> u64" where
  "per_epoch_budget s epoch remaining_pool =
     (if epoch < reward_pool_start_epoch s \<or> validation_pool_epochs s = 0 then 0
      else min (validation_reward_pool s div validation_pool_epochs s) remaining_pool)"

text \<open>The payout loop: shares in address order and the running total of what is paid.\<close>

fun pay_shares :: "u64 \<Rightarrow> u128 \<Rightarrow> (address \<times> u64) list \<Rightarrow> u64 \<Rightarrow> (address \<times> u64) list \<times> u64" where
  "pay_shares budget total_stake [] paid = ([], paid)"
| "pay_shares budget total_stake ((addr, stake) # vs) paid =
     (let share = ucast ((ucast budget * ucast stake :: u128) div total_stake);
          (out, paid) = pay_shares budget total_stake vs (saturating_add paid share)
      in ((addr, share) # out, paid))"

definition reward_for_epoch ::
    "reward_pool_schedule \<Rightarrow> u64 \<Rightarrow> u64 \<Rightarrow> (address \<times> u64) list \<Rightarrow> (address \<times> u64) list" where
  "reward_for_epoch schedule epoch remaining_pool stakes =
     (let budget = per_epoch_budget schedule epoch remaining_pool
      in if budget = 0 \<or> stakes = [] then []
         else
           (let validators = sort_key fst (filter (\<lambda>(_, stake). stake > 0) stakes);
                total_stake = sum_list (map (\<lambda>(_, stake). ucast stake :: u128) validators)
            in if total_stake = 0 then []
               else
                 (let (out, paid) = pay_shares budget total_stake validators 0;
                      remainder = saturating_sub budget paid
                  in if remainder > 0 then
                       (case out of
                          [] \<Rightarrow> []
                        | (addr, first_share) # rest \<Rightarrow> (addr, saturating_add first_share remainder) # rest)
                     else out)))"

definition total_epoch_payout :: "(address \<times> u64) list \<Rightarrow> u64" where
  "total_epoch_payout payouts = fold (\<lambda>(_, amount) acc. saturating_add acc amount) payouts 0"

section \<open>128-bit products\<close>

lemma u64_bound: "unat (x :: u64) < 2 ^ 64"
  using unsigned_less [of x, where 'a = nat] by simp

lemma unat_wide_mul: "unat (ucast (a :: u64) * ucast (b :: u64) :: u128) = unat a * unat b"
proof -
  have "unat a * unat b < 2 ^ 64 * 2 ^ 64" using u64_bound [of a] u64_bound [of b] by (intro mult_strict_mono) simp_all
  then show ?thesis by (simp add: unat_widen unat_mult_small)
qed

lemma unat_narrow: "unat (x :: u128) < 2 ^ 64 \<Longrightarrow> unat (ucast x :: u64) = unat x"
  by (simp add: unsigned_ucast_eq take_bit_nat_eq_self)

lemma unat_mul_div:
  assumes "unat b \<le> unat c"
  shows "unat (mul_div a b c) = unat a * unat b div unat c" and "unat a * unat b div unat c \<le> unat a"
proof -
  show le: "unat a * unat b div unat c \<le> unat a"
  proof (cases "unat c = 0")
    case False
    have "unat a * unat b div unat c \<le> unat a * unat c div unat c"
      using assms by (intro div_le_mono mult_le_mono2)
    then show ?thesis using False by simp
  qed simp
  have "unat ((ucast a * ucast b :: u128) div ucast c) = unat a * unat b div unat c"
    by (simp add: unat_div_distrib unat_wide_mul unat_widen)
  moreover have "unat a * unat b div unat c < 2 ^ 64" using le u64_bound [of a] by linarith
  ultimately show "unat (mul_div a b c) = unat a * unat b div unat c" by (simp add: mul_div_def unat_narrow)
qed

section \<open>Vesting\<close>

lemma unlocked_nat:
  "unat (unlocked_at v e) =
     (if duration_epochs v = 0 then unat (vest_total v)
      else if unat e < min (unat (start_epoch v) + unat (cliff_epochs v)) (2 ^ 64 - 1) then 0
      else if unat (duration_epochs v) \<le> unat e - unat (start_epoch v) then unat (vest_total v)
      else unat (vest_total v) * (unat e - unat (start_epoch v)) div unat (duration_epochs v))"
proof -
  have "unat (mul_div (vest_total v) (saturating_sub e (start_epoch v)) (duration_epochs v)) =
      unat (vest_total v) * (unat e - unat (start_epoch v)) div unat (duration_epochs v)"
    if "unat e - unat (start_epoch v) < unat (duration_epochs v)"
    using unat_mul_div(1) [of "saturating_sub e (start_epoch v)" "duration_epochs v" "vest_total v"] that
    by (simp add: unat_saturating_sub)
  then show ?thesis
    by (auto simp: unlocked_at_def Let_def word_less_nat_alt word_le_nat_alt unat_saturating_sub unat_saturating_add)
qed

text \<open>C26: vesting only moves forward and never pays more than the grant: the unlocked amount is monotone in
  the epoch and at most the total, locked and unlocked always add up to the total, nothing is unlocked
  before the cliff of a schedule with a positive duration, and everything is unlocked once the duration
  and the cliff have passed.\<close>
theorem vesting_monotone_and_complete:
  assumes "e \<le> e'"
  shows "unlocked_at v e \<le> unlocked_at v e' \<and> unlocked_at v e' \<le> vest_total v \<and>
    unat (unlocked_at v e) + unat (locked_at v e) = unat (vest_total v) \<and>
    (duration_epochs v \<noteq> 0 \<and> unat e < unat (start_epoch v) + unat (cliff_epochs v) \<and> unat e < 2 ^ 64 - 1 \<longrightarrow> unlocked_at v e = 0) \<and>
    (unat (start_epoch v) + unat (cliff_epochs v) \<le> unat e \<and> unat (start_epoch v) + unat (duration_epochs v) \<le> unat e \<longrightarrow>
       unlocked_at v e = vest_total v)"
proof -
  let ?T = "unat (vest_total v)" and ?d = "unat (duration_epochs v)" and ?s = "unat (start_epoch v)"
  have le: "unat e \<le> unat e'" using assms by (simp add: word_le_nat_alt)
  have frac: "?T * x div ?d \<le> ?T" if "x < ?d" for x
    by (rule order_trans [OF div_le_mono [OF mult_le_mono2 [OF less_imp_le [OF that]]]]) simp
  have bound: "unat (unlocked_at v x) \<le> ?T" for x using frac by (simp add: unlocked_nat)
  have mono: "unat (unlocked_at v e) \<le> unat (unlocked_at v e')"
  proof -
    have "?T * (unat e - ?s) div ?d \<le> ?T * (unat e' - ?s) div ?d"
      using le by (intro div_le_mono mult_le_mono2 diff_le_mono)
    then show ?thesis using le frac [of "unat e - ?s"] by (auto simp: unlocked_nat)
  qed
  have sum: "unat (unlocked_at v e) + unat (locked_at v e) = ?T"
    using bound [of e] by (simp add: locked_at_def unat_saturating_sub)
  have before: "unlocked_at v e = 0"
    if "duration_epochs v \<noteq> 0" "unat e < ?s + unat (cliff_epochs v)" "unat e < 2 ^ 64 - 1"
    using that unlocked_nat [of v e] by (simp add: unat_eq_zero)
  have after: "unlocked_at v e = vest_total v" if "?s + unat (cliff_epochs v) \<le> unat e" "?s + ?d \<le> unat e"
    using that unlocked_nat [of v e] by (auto simp: word_unat_eq_iff split: if_splits)
  show ?thesis using mono bound sum before after by (simp add: word_le_nat_alt)
qed

theorem vesting_monotone_and_complete_witness:
  "unlocked_at (team_vesting tokenomics_default 0) 999 = 0 \<and>
   unlocked_at (team_vesting tokenomics_default 0) 999 \<le> unlocked_at (team_vesting tokenomics_default 0) 4000 \<and>
   unlocked_at (team_vesting tokenomics_default 0) 4000 = buds 20000000"
  using vesting_monotone_and_complete [of 999 4000 "team_vesting tokenomics_default 0"]
    vesting_monotone_and_complete [of 4000 4000 "team_vesting tokenomics_default 0"]
  by (simp add: team_vesting_def tokenomics_default_def)

section \<open>Rewards\<close>

definition share_of :: "nat \<Rightarrow> nat \<Rightarrow> nat \<Rightarrow> nat" where
  "share_of b T stake = b * stake div T"

lemma div_add_le: "(a :: nat) div c + b div c \<le> (a + b) div c"
proof (cases "c = 0")
  case False
  have "(a div c + b div c) * c \<le> a + b"
    unfolding distrib_right by (intro add_mono div_times_less_eq_dividend)
  then show ?thesis using False by (simp add: less_eq_div_iff_mult_less_eq)
qed simp

lemma sum_shares_le:
  "(\<Sum>x\<leftarrow>xs. share_of b T x) \<le> b * sum_list xs div T"
proof (induction xs)
  case (Cons x xs)
  have "b * x div T + b * sum_list xs div T \<le> (b * x + b * sum_list xs) div T" by (rule div_add_le)
  then show ?case using Cons by (simp add: share_of_def distrib_left)
qed (simp add: share_of_def)

lemma unat_share:
  fixes stake budget :: u64 and T :: u128
  assumes "unat stake \<le> unat T"
  shows "unat (ucast ((ucast budget * ucast stake :: u128) div T) :: u64) = share_of (unat budget) (unat T) (unat stake)"
proof -
  have "share_of (unat budget) (unat T) (unat stake) \<le> unat budget"
  proof (cases "unat T = 0")
    case False
    have "unat budget * unat stake div unat T \<le> unat budget * unat T div unat T"
      using assms by (intro div_le_mono mult_le_mono2)
    then show ?thesis using False by (simp add: share_of_def)
  qed (simp add: share_of_def)
  then have "unat ((ucast budget * ucast stake :: u128) div T) < 2 ^ 64"
    using u64_bound [of budget] by (simp add: unat_div_distrib unat_wide_mul share_of_def)
  then show ?thesis by (simp add: unat_narrow unat_div_distrib unat_wide_mul share_of_def)
qed

lemma pay_shares_spec:
  assumes "\<forall>(a, st) \<in> set vs. unat st \<le> unat T"
    and "unat paid + (\<Sum>(a, st)\<leftarrow>vs. share_of (unat budget) (unat T) (unat st)) < 2 ^ 64"
    and "pay_shares budget T vs paid = (out, paid')"
  shows "map fst out = map fst vs \<and>
    map (unat \<circ> snd) out = map (\<lambda>(a, st). share_of (unat budget) (unat T) (unat st)) vs \<and>
    unat paid' = unat paid + (\<Sum>(a, st)\<leftarrow>vs. share_of (unat budget) (unat T) (unat st))"
  using assms
proof (induction vs arbitrary: paid out paid')
  case (Cons v vs)
  obtain a st where v: "v = (a, st)" by (cases v)
  let ?sh = "ucast ((ucast budget * ucast st :: u128) div T) :: u64"
  have sh: "unat ?sh = share_of (unat budget) (unat T) (unat st)" using Cons.prems(1) by (simp add: v unat_share)
  obtain out1 where out1: "pay_shares budget T vs (saturating_add paid ?sh) = (out1, paid')" "out = (a, ?sh) # out1"
    using Cons.prems(3) by (auto simp: v Let_def split: prod.splits)
  have paid: "unat (saturating_add paid ?sh) = unat paid + share_of (unat budget) (unat T) (unat st)"
    using Cons.prems(2) by (simp add: v unat_saturating_add sh)
  have "map fst out1 = map fst vs \<and>
    map (unat \<circ> snd) out1 = map (\<lambda>(a, st). share_of (unat budget) (unat T) (unat st)) vs \<and>
    unat paid' = unat (saturating_add paid ?sh) + (\<Sum>(a, st)\<leftarrow>vs. share_of (unat budget) (unat T) (unat st))"
    by (rule Cons.IH) (use Cons.prems(1,2) paid out1(1) in \<open>auto simp: v\<close>)
  then show ?case using paid sh by (simp add: out1(2) v comp_def)
qed simp

lemma unat_total_stake:
  assumes "length vs < 2 ^ 64"
  shows "unat (sum_list (map (\<lambda>(_, stake). ucast stake :: u128) vs)) = (\<Sum>(a, st)\<leftarrow>vs. unat (st :: u64))"
proof -
  have "unat (sum_list (map (\<lambda>(_, stake). ucast stake :: u128) vs)) = (\<Sum>(a, st)\<leftarrow>vs. unat (st :: u64)) \<and>
      (\<Sum>(a, st)\<leftarrow>vs. unat (st :: u64)) \<le> length vs * (2 ^ 64 - 1)" if "length vs \<le> 2 ^ 64" for vs :: "('a \<times> u64) list"
    using that
  proof (induction vs)
    case (Cons v vs)
    obtain a st where v: "v = (a, st)" by (cases v)
    have st: "unat st \<le> 2 ^ 64 - 1" using u64_bound [of st] by simp
    have IH: "unat (sum_list (map (\<lambda>(_, stake). ucast stake :: u128) vs)) = (\<Sum>(a, st)\<leftarrow>vs. unat st)"
        "(\<Sum>(a, st)\<leftarrow>vs. unat st) \<le> length vs * (2 ^ 64 - 1)" using Cons by simp_all
    have "length vs * (2 ^ 64 - 1) + (2 ^ 64 - 1) \<le> 2 ^ 64 * (2 ^ 64 - 1)"
      using Cons.prems by (metis (no_types, lifting) add.commute length_Cons mult_Suc mult_le_mono1)
    then have "unat st + (\<Sum>(a, st)\<leftarrow>vs. unat st) < 2 ^ 128" using IH(2) st by simp
    then show ?case using IH st by (simp add: v unat_widen unat_add_small)
  qed simp
  from this [of vs] assms show ?thesis by simp
qed

lemma total_payout_sum:
  assumes "unat acc + (\<Sum>(a, x)\<leftarrow>ps. unat x) < 2 ^ 64"
  shows "unat (fold (\<lambda>(_, amount) acc. saturating_add acc amount) ps acc) = unat acc + (\<Sum>(a, x)\<leftarrow>ps. unat (x :: u64))"
  using assms
proof (induction ps arbitrary: acc)
  case (Cons p ps)
  obtain a x where p: "p = (a, x)" by (cases p)
  have "unat (saturating_add acc x) = unat acc + unat x" using Cons.prems by (simp add: p unat_saturating_add)
  then show ?case using Cons.IH [of "saturating_add acc x"] Cons.prems by (simp add: p)
qed simp

lemma sum_snd: "(\<Sum>(a, x)\<leftarrow>ps. unat (x :: u64)) = sum_list (map (unat \<circ> snd) ps)"
  by (simp add: comp_def case_prod_unfold)

lemma shares_within_budget:
  assumes "0 < (\<Sum>(a, st)\<leftarrow>vs. unat (st :: u64))"
  shows "(\<Sum>(a, st)\<leftarrow>vs. share_of b (\<Sum>(a, st)\<leftarrow>vs. unat st) (unat st)) \<le> b"
proof -
  let ?T = "\<Sum>(a, st)\<leftarrow>vs. unat st"
  have "(\<Sum>(a, st)\<leftarrow>vs. share_of b ?T (unat st)) = (\<Sum>x\<leftarrow>map (\<lambda>(a, st). unat st) vs. share_of b ?T x)"
    by (simp add: comp_def case_prod_unfold)
  also have "\<dots> \<le> b * ?T div ?T" by (rule sum_shares_le)
  finally show ?thesis using assms by simp
qed

text \<open>Giving the remainder to the first entry makes the payouts add up to the budget.\<close>

lemma remainder_to_first:
  fixes b paid x :: u64
  assumes out: "map fst ((a, x) # rest) = map fst vs" "map (unat \<circ> snd) ((a, x) # rest) = map sh vs"
    and sum: "(\<Sum>v\<leftarrow>vs. sh v) \<le> unat b" and paid: "unat paid = (\<Sum>v\<leftarrow>vs. sh v)"
  defines "res \<equiv> (a, saturating_add x (saturating_sub b paid)) # rest"
  shows "map fst res = map fst vs" and "total_epoch_payout res = b"
    and "list_all2 (\<lambda>(_, x) v. sh v \<le> unat x) res vs"
proof -
  show "map fst res = map fst vs" using out(1) by (simp add: res_def)
  have tot: "unat x + sum_list (map (unat \<circ> snd) rest) = (\<Sum>v\<leftarrow>vs. sh v)"
    unfolding out(2) [symmetric] by simp
  have add: "unat (saturating_add x (saturating_sub b paid)) = unat x + (unat b - (\<Sum>v\<leftarrow>vs. sh v))"
    using tot sum u64_bound [of b] by (simp add: unat_saturating_add unat_saturating_sub paid)
  have "(\<Sum>(a, x)\<leftarrow>res. unat x) = unat b"
    unfolding sum_snd using add tot sum by (simp add: res_def)
  then show "total_epoch_payout res = b"
    unfolding total_epoch_payout_def using total_payout_sum [of 0 res] u64_bound [of b]
    by (simp add: word_unat_eq_iff)
  have "list_all2 (\<lambda>(_, x) v. unat x = sh v) ((a, x) # rest) vs"
  proof -
    have "list_all2 (=) (map (unat \<circ> snd) ((a, x) # rest)) (map sh vs)" unfolding out(2) by (rule list.rel_refl) simp
    then show ?thesis unfolding list_all2_map1 list_all2_map2 by (simp add: case_prod_unfold)
  qed
  then show "list_all2 (\<lambda>(_, x) v. sh v \<le> unat x) res vs"
    using add by (cases vs) (auto simp: res_def elim!: list_all2_mono)
qed

lemma saturating_add_zero [simp]: "saturating_add (x :: u64) 0 = x"
  using u64_bound [of x] by (simp add: saturating_add_def)

text \<open>C25: an epoch's rewards are exactly the epoch's budget.  When the budget is positive and some validator
  has a stake, each validator with a positive stake appears once per entry, in address order, with at
  least its rounded-down proportional share, and the payouts add up to exactly the budget, so never to
  more than what remains in the pool.\<close>
theorem rewards_pay_exactly_the_budget:
  assumes budget: "per_epoch_budget sch epoch remaining \<noteq> 0"
    and staked: "\<exists>(a, st) \<in> set stakes. 0 < st" and len: "length stakes < 2 ^ 64"
  shows "let b = per_epoch_budget sch epoch remaining; out = reward_for_epoch sch epoch remaining stakes;
      vs = sort_key fst (filter (\<lambda>(_, st). 0 < st) stakes); T = (\<Sum>(a, st)\<leftarrow>vs. unat st)
    in map fst out = map fst vs \<and>
       list_all2 (\<lambda>(_, x) (_, st). share_of (unat b) T (unat st) \<le> unat x) out vs \<and>
       total_epoch_payout out = b \<and> b \<le> remaining"
proof -
  define b where "b = per_epoch_budget sch epoch remaining"
  define vs where "vs = sort_key fst (filter (\<lambda>(_, st). 0 < st) stakes)"
  define T where "T = sum_list (map (\<lambda>(_, stake). ucast stake :: u128) vs)"
  let ?sh = "\<lambda>(a :: address, st). share_of (unat b) (unat T) (unat (st :: u64))"
  have "length vs \<le> length stakes" by (simp add: vs_def)
  then have T: "unat T = (\<Sum>(a, st)\<leftarrow>vs. unat st)" using len unat_total_stake [of vs] by (simp add: T_def)
  obtain a0 st0 where st0: "(a0, st0) \<in> set vs" "0 < st0" using staked by (auto simp: vs_def)
  have each: "unat st \<le> unat T" if "(a, st) \<in> set vs" for a st
    unfolding T using that by (intro member_le_sum_list) (force simp: image_iff)+
  have pos: "0 < unat T" using each [OF st0(1)] st0(2) by (simp add: word_less_nat_alt)
  have sum: "(\<Sum>v\<leftarrow>vs. ?sh v) \<le> unat b" using shares_within_budget pos unfolding T by blast
  obtain out paid where out: "pay_shares b T vs 0 = (out, paid)" by (cases "pay_shares b T vs 0")
  have "\<forall>(a, st) \<in> set vs. unat st \<le> unat T" using each by blast
  moreover have "unat (0 :: u64) + (\<Sum>v\<leftarrow>vs. ?sh v) < 2 ^ 64" using sum u64_bound [of b] by simp
  ultimately have spec: "map fst out = map fst vs \<and> map (unat \<circ> snd) out = map ?sh vs \<and>
      unat paid = unat (0 :: u64) + (\<Sum>v\<leftarrow>vs. ?sh v)"
    using out by (rule pay_shares_spec)
  then obtain a x rest where o: "out = (a, x) # rest" using st0(1) by (cases out) auto
  have paid: "unat paid = (\<Sum>v\<leftarrow>vs. ?sh v)" using spec by simp
  have "map fst ((a, x) # rest) = map fst vs" "map (unat \<circ> snd) ((a, x) # rest) = map ?sh vs"
    using spec unfolding o by blast+
  note res = remainder_to_first [OF this sum paid]
  have "reward_for_epoch sch epoch remaining stakes = (a, saturating_add x (saturating_sub b paid)) # rest"
  proof -
    have "stakes \<noteq> []" "T \<noteq> 0" using staked pos by auto
    moreover have "saturating_sub b paid = 0" if "\<not> 0 < saturating_sub b paid" using that by (simp add: word_greater_zero_iff)
    ultimately show ?thesis
      using budget out unfolding reward_for_epoch_def Let_def b_def [symmetric] vs_def [symmetric] T_def [symmetric]
      by (auto simp: o)
  qed
  moreover have "b \<le> remaining" using budget by (simp add: b_def per_epoch_budget_def split: if_splits)
  moreover have "list_all2 (\<lambda>(_, x) (_, st). share_of (unat b) (unat T) (unat st) \<le> unat x)
      ((a, saturating_add x (saturating_sub b paid)) # rest) vs"
    using res(3) by (simp only: case_prod_unfold)
  ultimately show ?thesis
    using res(1,2) T by (simp add: Let_def b_def [symmetric] vs_def [symmetric])
qed

theorem rewards_pay_exactly_the_budget_witness:
  "total_epoch_payout (reward_for_epoch schedule_default 5 (buds 10000000) [([2], 3), ([1], 4), ([3], 0)]) = buds 100"
proof -
  have b: "per_epoch_budget schedule_default 5 (buds 10000000) = buds 100"
    by (simp add: per_epoch_budget_def schedule_default_def DEFAULT_VALIDATION_REWARD_POOL_def
        DEFAULT_VALIDATION_POOL_EPOCHS_def bud_def BUD_UNIT_def)
  have "buds 100 \<noteq> 0" by (simp add: bud_def BUD_UNIT_def)
  then show ?thesis
    using rewards_pay_exactly_the_budget [of schedule_default 5 "buds 10000000" "[([2], 3), ([1], 4), ([3], 0)]"]
    by (simp add: b Let_def)
qed

section \<open>Supply\<close>

lemma saturating_add_exact:
  fixes a b :: u64
  assumes "unat (saturating_add a b) < 2 ^ 64 - 1"
  shows "unat (saturating_add a b) = unat a + unat b"
  using assms by (simp add: unat_saturating_add min_def split: if_splits)

text \<open>Balanced parameters distribute exactly the fixed supply: the five genesis allocations add up to
  \<open>BUD_TOTAL_SUPPLY\<close> with no saturation anywhere, each category's amount goes to its address, and the
  reserved addresses are pairwise different accounts.\<close>
theorem genesis_distributes_supply:
  assumes "is_balanced p"
  shows "(\<Sum>(a, x)\<leftarrow>genesis_allocations p addrs. unat x) = 100000000000000 \<and>
    (address_of addrs c, amount_of p c) \<in> set (genesis_allocations p addrs) \<and>
    distinct (map fst (genesis_allocations p addresses_reserved))"
proof -
  have total: "unat BUD_TOTAL_SUPPLY = 100000000000000" by (simp add: BUD_TOTAL_SUPPLY_def BUD_UNIT_def)
  let ?s1 = "saturating_add (community p) (liquidity p)"
  let ?s2 = "saturating_add ?s1 (ecosystem p)"
  let ?s3 = "saturating_add ?s2 (team p)"
  have t: "unat (saturating_add ?s3 (burn_reserve p)) = 100000000000000"
    using assms by (simp add: is_balanced_def params_total_def total)
  then have e4: "unat ?s3 + unat (burn_reserve p) = 100000000000000"
    using saturating_add_exact [of ?s3 "burn_reserve p"] by simp
  then have e3: "unat ?s3 = unat ?s2 + unat (team p)" using saturating_add_exact [of ?s2 "team p"] by simp
  then have e2: "unat ?s2 = unat ?s1 + unat (ecosystem p)"
    using saturating_add_exact [of ?s1 "ecosystem p"] e4 by simp
  then have e1: "unat ?s1 = unat (community p) + unat (liquidity p)"
    using saturating_add_exact [of "community p" "liquidity p"] e3 e4 by simp
  have "(\<Sum>(a, x)\<leftarrow>genesis_allocations p addrs. unat x) = 100000000000000"
    using e1 e2 e3 e4 by (simp add: genesis_allocations_def)
  moreover have "distinct (map fst (genesis_allocations p addresses_reserved))"
  proof -
    have "distinct [addr_community addresses_reserved, addr_liquidity addresses_reserved,
        addr_ecosystem addresses_reserved, addr_team addresses_reserved, addr_burn_reserve addresses_reserved]"
      by code_simp
    then show ?thesis by (simp add: genesis_allocations_def)
  qed
  moreover have "(address_of addrs c, amount_of p c) \<in> set (genesis_allocations p addrs)"
    by (cases c) (simp_all add: genesis_allocations_def)
  ultimately show ?thesis by blast
qed

theorem genesis_distributes_supply_witness:
  "is_balanced tokenomics_default \<and>
   (\<Sum>(a, x)\<leftarrow>genesis_allocations tokenomics_default addresses_reserved. unat x) = 100000000000000"
proof -
  have bal: "is_balanced tokenomics_default"
    by (simp add: is_balanced_def params_total_def tokenomics_default_def bud_def BUD_UNIT_def BUD_TOTAL_SUPPLY_def
        saturating_add_def)
  show ?thesis using genesis_distributes_supply [OF bal] bal by blast
qed

text \<open>The burn of a transaction fee is the rounded-down fraction of the fee, never more than the fee, for
  every burn ratio up to 100 percent; the yearly burn of the reserve likewise, and under the default
  parameters ten yearly burns consume exactly the reserve.\<close>
theorem burns_are_bounded_fractions:
  assumes "tx_fee_burn_ratio_fixed p \<le> FIXED_POINT_SCALE" and "annual_burn_ratio_fixed p \<le> FIXED_POINT_SCALE"
  shows "unat (metabolic_burn p fee) = unat fee * unat (tx_fee_burn_ratio_fixed p) div 1000000 \<and>
    metabolic_burn p fee \<le> fee \<and>
    unat (annual_burn_amount p) = unat (burn_reserve p) * unat (annual_burn_ratio_fixed p) div 1000000 \<and>
    annual_burn_amount p \<le> burn_reserve p"
proof -
  have sc: "unat FIXED_POINT_SCALE = 1000000" by (simp add: FIXED_POINT_SCALE_def)
  have le: "unat (tx_fee_burn_ratio_fixed p) \<le> unat FIXED_POINT_SCALE" "unat (annual_burn_ratio_fixed p) \<le> unat FIXED_POINT_SCALE"
    using assms by (simp_all add: word_le_nat_alt)
  show ?thesis
    using unat_mul_div [OF le(1), of fee] unat_mul_div [OF le(2), of "burn_reserve p"]
    by (simp add: metabolic_burn_def annual_burn_amount_def sc word_le_nat_alt)
qed

theorem burns_are_bounded_fractions_witness:
  "unat (metabolic_burn tokenomics_default 1000) = 10 \<and>
   10 * unat (annual_burn_amount tokenomics_default) = unat (burn_reserve tokenomics_default)"
  using burns_are_bounded_fractions [of tokenomics_default 1000]
  by (simp add: tokenomics_default_def FIXED_POINT_SCALE_def bud_def BUD_UNIT_def)

end
