(* ===== verification/Spec2Isabelle.thy ===== *)
theory Spec2Isabelle
  imports Verifier_Registry Evm Relayer Vm_Props Compiler_Props Bridge_Props Fee_Market Tokenomics
begin

text \<open>
  A verification library for the Budlum ledger and its contract platform BudZero.

  \<^bold>\<open>The program.\<close>  Contracts are written in a small language and compiled
  (\<open>budzero/bud-compiler\<close>) to 64-bit instruction words (\<open>budzero/bud-isa\<close>) that a register machine over
  the Goldilocks field runs (\<open>budzero/bud-vm\<close>), writing an execution trace for a prover and a receipt
  for the ledger.  The ledger moves assets between domains with a bridge (\<open>src/cross_domain\<close>), whose
  messages carry nonces, are deduplicated, are committed to by Merkle trees
  (\<open>src/settlement/commitment_tree.rs\<close>) and are carried across by relayers; deposits from Ethereum are
  verified by a light client (\<open>src/cross_domain/evm\<close>).  The ledger prices blocks with a fee market
  (\<open>src/chain/fee_market.rs\<close>), pays rewards, vests and burns its token (\<open>src/tokenomics\<close>), and keeps the stakes of its verifiers in a registry
  (\<open>budzero/verifier-registry\<close>).

  \<^bold>\<open>Conventions.\<close>  Structs are records, enums datatypes, integers words of their width with the
  source's wrapping, saturating or checked operations (\<open>Prelude\<close>).  Fallible code returns a sum with the
  error on the left, or an option where the source panics or returns \<open>None\<close>; stateful code returns
  its result with the new state, the old state where the source leaves early.  \<open>BTreeMap\<close> and \<open>BTreeSet\<close>
  are sorted association lists (\<open>Btree\<close>).  Hash functions of crates outside the sources are
  parameters; a property that needs them not to collide says so by a hypothesis of injectivity, on the
  inputs concerned where that is enough.

  \<^bold>\<open>Interfaces.\<close>  \<open>Field_Spec\<close> is the contract of a prime-field unit, interpreted on the word
  operations of the machine in \<open>Goldilocks\<close> (with \<open>Proth\<close> for the primality of the modulus);
  \<open>Codec_Spec\<close> that of an encoder and its fallible decoder, interpreted in \<open>Isa\<close>; \<open>Map_Spec\<close> that of an
  ordered map, interpreted in \<open>Btree\<close>; \<open>Replay_Spec\<close> that of replay protection, interpreted in \<open>Nonce\<close>
  and \<open>Relayer\<close>;
  \<open>Invariant_Spec\<close> an invariant of a step relation and \<open>Simulation_Spec\<close> a refinement between two,
  interpreted for the machine, the bridge, the relayer and the registry.

  \<^bold>\<open>Contract platform.\<close>
  \<^item> \<open>Isa\<close> (\<open>bud-isa/src/lib.rs\<close>): opcodes, packing and unpacking, the mainnet gate.  Round trip here.
  \<^item> \<open>Goldilocks\<close>, \<open>Poseidon\<close> (\<open>bud-vm/src/lib.rs\<close>): field arithmetic, exact on all words; the permutation,
    bijective on canonical states.
  \<^item> \<open>Vm\<close> (\<open>bud-vm/src/lib.rs\<close>): the machine's record, one definition per instruction, \<open>step\<close>, the run loop,
    the receipt.  \<open>Vm_Step\<close> has the frame and the error paths of a step, \<open>Vm_Run\<close> the replay of the
    trace, gas and termination, \<open>Vm_Merkle\<close> the layout of Merkle paths in memory and the trees they belong
    to; \<open>Vm_Props\<close> the properties.
  \<^item> \<open>Lexer\<close>, \<open>Ast\<close>, \<open>Parser\<close>, \<open>Sema\<close>, \<open>Codegen\<close>, \<open>Compile\<close> (\<open>bud-compiler/src\<close>): tokens, syntax trees, the
    recursive-descent parser, the type checker, the one-pass code generator and \<open>compile\<close>.
    \<open>Parser_Total\<close> shows that the parser always returns, \<open>Parser_Print\<close> the round trip with a printer;
    \<open>Sema_Typing\<close> has declarative typing rules and their equivalence with the checker;
    \<open>Codegen_Expr\<close>, \<open>Codegen_Run\<close>, \<open>Codegen_Stmt\<close> and \<open>Codegen_Main\<close> relate generated code, run on the
    machine of \<open>Vm\<close>, to a semantics of the source; \<open>Compiler_Props\<close> has the properties, among them contracts
    that the generator gets wrong with respect to that semantics.

  \<^bold>\<open>Ledger.\<close>
  \<^item> \<open>Hashing\<close>: the hash parameter and the byte images that are hashed.
  \<^item> \<open>Message\<close>, \<open>Nonce\<close>, \<open>Event_Tree\<close> (\<open>message.rs\<close>, \<open>message_registry.rs\<close>, \<open>nonce.rs\<close>, \<open>event_tree.rs\<close>,
    \<open>commitment_tree.rs\<close>): identifiers that bind their messages, replay protection and pruning, Merkle
    roots and inclusion proofs.
  \<^item> \<open>Bridge\<close> (\<open>bridge.rs\<close>): lock, mint, burn, unlock, sweep.  \<open>Bridge_Inv\<close> is its invariant, with
    the freshness of message identifiers that the nonces give, \<open>Bridge_Custody\<close>
    the abstract custody automaton it refines, \<open>Bridge_Props\<close> the properties, which compose messages,
    nonces and transfers.
  \<^item> \<open>Relayer\<close> (\<open>relayer.rs\<close>): pending relays, the checks of a submission and the ledger of relayed messages; a
    relayed message comes from an event of the tree it was proved against, and is relayed once.
  \<^item> \<open>Rlp\<close>, \<open>Mpt\<close> (\<open>evm/rlp.rs\<close>, \<open>evm/mpt.rs\<close>): the encoding with an exact description of what is decoded, and
    the verifier of Merkle-Patricia proofs, which implements lookup in the trie that the root commits to.
  \<^item> \<open>Evm_Receipt\<close>, \<open>Evm\<close> (\<open>evm/header.rs\<close>, \<open>receipt.rs\<close>, \<open>sync_committee.rs\<close>, \<open>verify.rs\<close>, \<open>adapter.rs\<close>, and
    \<open>verify_bls_sig\<close> of \<open>chain/finality.rs\<close>): the deposit proof from header chain to log, what its acceptance
    establishes and what it leaves open.
  \<^item> \<open>Fee_Market\<close>, \<open>Tokenomics\<close>: base fee, fee split, vesting, burns, rewards.
  \<^item> \<open>Verifier_Registry\<close>: registration, stake, unbonding, slashing across roles, evidence and the root.

  \<^bold>\<open>Bounds and fuel.\<close>  The run loop of the machine is a partial function with values in option, and it is
  proved to return for every gas limit below the largest, in at most limit + 1 steps; at the largest
  limit a self-jump does not return.  The parser's loops are bounded by the number of remaining
  tokens; the bound is proved never to be reached.  \<open>while\<close> in the source semantics of
  contracts takes fuel; the correctness of compiled code holds for every execution that some fuel
  completes.  Compiled-code correctness covers contracts with a single parameterless \<open>main\<close> whose
  statements are bindings, assignments, storage and mapping writes, constraints, events, \<open>if\<close> and \<open>while\<close>.
  The RLP decoder recurses on shorter inputs and the trie walk on a depth that is at most 129; both are total.

  \<^bold>\<open>Not modelled.\<close>  The tokeniser (generated by a crate); the constraint system of the prover, signature
  and key handling (third-party crates); networking, RPC, the gateway, the relayer daemon and the node
  (asynchronous I/O); the database under the storage engine; the orchestration of blocks, snapshots and
  consensus engines, which is written against those; the adapter's stand-ins for RPC calls; the repository's
  own source-text checks.  Not reached, although much of it is pure logic that these techniques fit: the relay
  pipeline over the modelled bridge, relayer and event trees (\<open>bridge_relayer.rs\<close>), accounts, quorum
  arithmetic, storage deals and domains, the proof market, the name service, and the container-format library.
\<close>

section \<open>The instruction encoding\<close>

text \<open>C17: instruction words round-trip: encoding an instruction whose register fields fit in five bits and
  decoding the word gives the instruction back, and on mainnet the same holds unless the
  instruction is one of the two gated ones, which the decoder rejects by name.\<close>

theorem instruction_roundtrip:
  assumes "encodable i"
  shows "decode (encode i) = Inr i \<and>
    decode_for_mainnet (encode i) activation_default =
      (if opcode i \<in> {Op_VerifyMerkle, Op_VerifyInference} then Inl (MainnetActivationRequired (opcode i)) else Inr i)"
  using decode_any_encode [OF assms]
  by (simp add: decode_for_mainnet_def decode_profile_irrelevant allows_default)

theorem instruction_roundtrip_witness:
  "decode (encode \<lparr>opcode = Op_Store, rd = 0, rs1 = 31, rs2 = 7, imm = - 8\<rparr>) =
     Inr \<lparr>opcode = Op_Store, rd = 0, rs1 = 31, rs2 = 7, imm = - 8\<rparr>"
  using instruction_roundtrip [of "\<lparr>opcode = Op_Store, rd = 0, rs1 = 31, rs2 = 7, imm = - 8\<rparr>"]
  by (simp add: encodable_def)

text \<open>The decoder reads the low 55 bits and nothing else: a word decodes to an instruction exactly when
  the instruction's register fields fit in five bits and its encoding is the word with the nine
  top bits cleared.\<close>

theorem decoder_reads_low_bits:
  "decode v = Inr i \<longleftrightarrow> encodable i \<and> encode i = take_bit 55 v"
  by (simp add: decode_any_iff)

section \<open>The field and the permutation\<close>

text \<open>The word-level field operations are exact residue arithmetic on every pair of words, canonical or
  not: no intermediate overflows, and the inverse is the \<open>(P - 2)\<close>-nd power.\<close>

theorem field_operations_exact:
  "unat (field_add_goldilocks a b) = (unat a + unat b) mod unat GOLDILOCKS_P \<and>
   unat (field_mul_goldilocks a b) = (unat a * unat b) mod unat GOLDILOCKS_P \<and>
   (unat (field_sub_goldilocks a b) + unat b) mod unat GOLDILOCKS_P = unat a mod unat GOLDILOCKS_P \<and>
   unat (field_inverse_goldilocks a) = unat a ^ (unat GOLDILOCKS_P - 2) mod unat GOLDILOCKS_P"
proof -
  have P: "unat GOLDILOCKS_P = gP" by simp
  show ?thesis
    unfolding P field_add_nat field_mul_nat field_sub_nat field_inverse_nat
    by (intro conjI refl) (rule field_sub_add_nat, simp)
qed

text \<open>The modulus is prime and the inverse is an inverse: every word that is not a multiple of the
  modulus has product 1 with its computed inverse.\<close>

theorem field_inverse_correct:
  assumes "unat a mod unat GOLDILOCKS_P \<noteq> 0"
  shows "is_prime (unat GOLDILOCKS_P) \<and> field_mul_goldilocks a (field_inverse_goldilocks a) = 1"
proof -
  have P: "unat GOLDILOCKS_P = gP" by simp
  have "unat (field_mul_goldilocks a (field_inverse_goldilocks a)) = unat (1 :: u64)"
    using field_mul_inverse_nat assms unfolding P by (simp only: unsigned_1)
  then show ?thesis unfolding P word_unat_eq_iff using goldilocks_prime by blast
qed

theorem field_inverse_correct_witness:
  "is_prime (unat GOLDILOCKS_P) \<and> field_mul_goldilocks 7 (field_inverse_goldilocks 7) = 1"
  by (rule field_inverse_correct) simp

text \<open>C16: the 30-round Poseidon function permutes the states of eight canonical field elements.\<close>

theorem poseidon_permutes:
  "bij_betw poseidon_full_state {s. length s = 8 \<and> list_all canonical s} {s. length s = 8 \<and> list_all canonical s}"
  using poseidon_full_state_bij by (simp add: canonical_state_def)

end
